(* ===== verification/Prelude.thy ===== *)
theory Prelude
  imports Main "HOL-Library.Word"
begin

text \<open>
  Shared vocabulary of the development: machine types with the widths of the
  committed build configuration (\<open>src/nginx-1.7.2/objs/ngx_auto_config.h\<close>: an
  i386 build with 4-byte pointers and a 64-bit \<open>off_t\<close>), names for the ASCII
  codes the parsers test, byte memory, slices of memory, the return codes of
  \<open>ngx_core.h\<close> and \<open>ngx_http_request.h\<close>, and generic lemmas.
\<close>

unbundle bit_operations_syntax

named_theorems sint_arith \<open>signed arithmetic on words that does not overflow\<close>

section \<open>Machine types\<close>

text \<open>
  \<open>u_char\<close> is an 8-bit word; \<open>ngx_uint_t\<close> (\<open>uintptr_t\<close>) and the signed \<open>ngx_int_t\<close> and
  \<open>time_t\<close> have 32 bits in the committed configuration; \<open>off_t\<close> is a 64-bit two's complement
  number. Signed words are compared with \<open><s\<close> and read with \<open>sint\<close>.
\<close>

type_synonym byte = "8 word"
type_synonym ngx_uint_t = "32 word"
type_synonym ngx_int_t = "32 word"
type_synonym time_t = "32 word"
type_synonym uint32_t = "32 word"
type_synonym uint16 = "16 word"
type_synonym off_t = "64 word"

text \<open>A pointer into a buffer is an offset into the memory the buffer lives in.\<close>

type_synonym mem = "nat \<Rightarrow> byte"
type_synonym ptr = "nat option"

section \<open>ASCII codes\<close>

abbreviation (input) NUL :: byte where "NUL \<equiv> 0"
abbreviation TAB :: byte where "TAB \<equiv> 0x09"
abbreviation LF :: byte where "LF \<equiv> 0x0a"
abbreviation CR :: byte where "CR \<equiv> 0x0d"
abbreviation c_sp :: byte where "c_sp \<equiv> 0x20"
abbreviation c_excl :: byte where "c_excl \<equiv> 0x21"
abbreviation c_dquote :: byte where "c_dquote \<equiv> 0x22"
abbreviation c_hash :: byte where "c_hash \<equiv> 0x23"
abbreviation c_dollar :: byte where "c_dollar \<equiv> 0x24"
abbreviation c_percent :: byte where "c_percent \<equiv> 0x25"
abbreviation c_amp :: byte where "c_amp \<equiv> 0x26"
abbreviation c_quote :: byte where "c_quote \<equiv> 0x27"
abbreviation c_lpar :: byte where "c_lpar \<equiv> 0x28"
abbreviation c_rpar :: byte where "c_rpar \<equiv> 0x29"
abbreviation c_star :: byte where "c_star \<equiv> 0x2a"
abbreviation c_plus :: byte where "c_plus \<equiv> 0x2b"
abbreviation c_comma :: byte where "c_comma \<equiv> 0x2c"
abbreviation c_dash :: byte where "c_dash \<equiv> 0x2d"
abbreviation c_dot :: byte where "c_dot \<equiv> 0x2e"
abbreviation c_slash :: byte where "c_slash \<equiv> 0x2f"
abbreviation c_0 :: byte where "c_0 \<equiv> 0x30"
abbreviation c_1 :: byte where "c_1 \<equiv> 0x31"
abbreviation c_9 :: byte where "c_9 \<equiv> 0x39"
abbreviation c_colon :: byte where "c_colon \<equiv> 0x3a"
abbreviation c_semi :: byte where "c_semi \<equiv> 0x3b"
abbreviation c_eq :: byte where "c_eq \<equiv> 0x3d"
abbreviation c_quest :: byte where "c_quest \<equiv> 0x3f"
abbreviation c_A :: byte where "c_A \<equiv> 0x41"
abbreviation c_C :: byte where "c_C \<equiv> 0x43"
abbreviation c_D :: byte where "c_D \<equiv> 0x44"
abbreviation c_E :: byte where "c_E \<equiv> 0x45"
abbreviation c_F :: byte where "c_F \<equiv> 0x46"
abbreviation c_G :: byte where "c_G \<equiv> 0x47"
abbreviation c_H :: byte where "c_H \<equiv> 0x48"
abbreviation c_I :: byte where "c_I \<equiv> 0x49"
abbreviation c_K :: byte where "c_K \<equiv> 0x4b"
abbreviation c_L :: byte where "c_L \<equiv> 0x4c"
abbreviation c_M :: byte where "c_M \<equiv> 0x4d"
abbreviation c_N :: byte where "c_N \<equiv> 0x4e"
abbreviation c_O :: byte where "c_O \<equiv> 0x4f"
abbreviation c_P :: byte where "c_P \<equiv> 0x50"
abbreviation c_R :: byte where "c_R \<equiv> 0x52"
abbreviation c_S :: byte where "c_S \<equiv> 0x53"
abbreviation c_T :: byte where "c_T \<equiv> 0x54"
abbreviation c_U :: byte where "c_U \<equiv> 0x55"
abbreviation c_V :: byte where "c_V \<equiv> 0x56"
abbreviation c_Y :: byte where "c_Y \<equiv> 0x59"
abbreviation c_Z :: byte where "c_Z \<equiv> 0x5a"
abbreviation c_lbr :: byte where "c_lbr \<equiv> 0x5b"
abbreviation c_rbr :: byte where "c_rbr \<equiv> 0x5d"
abbreviation c_under :: byte where "c_under \<equiv> 0x5f"
abbreviation c_a :: byte where "c_a \<equiv> 0x61"
abbreviation c_f :: byte where "c_f \<equiv> 0x66"
abbreviation c_z :: byte where "c_z \<equiv> 0x7a"
abbreviation c_tilde :: byte where "c_tilde \<equiv> 0x7e"

text \<open>\<open>c = (u_char) (ch | 0x20)\<close>: the lower-case form of a letter.\<close>

abbreviation lower_bit :: "byte \<Rightarrow> byte" where "lower_bit ch \<equiv> ch OR 0x20"

abbreviation is_digit :: "byte \<Rightarrow> bool" where
  "is_digit ch \<equiv> c_0 \<le> ch \<and> ch \<le> c_9"

abbreviation is_lower :: "byte \<Rightarrow> bool" where
  "is_lower ch \<equiv> c_a \<le> ch \<and> ch \<le> c_z"

abbreviation is_upper :: "byte \<Rightarrow> bool" where
  "is_upper ch \<equiv> c_A \<le> ch \<and> ch \<le> c_Z"

section \<open>Return codes\<close>

datatype ngx_rc =
    NGX_OK | NGX_ERROR | NGX_AGAIN | NGX_DONE | NGX_DECLINED | NGX_BUSY | NGX_ABORT
  | NGX_HTTP_BAD_REQUEST | NGX_HTTP_REQUEST_ENTITY_TOO_LARGE
  | NGX_HTTP_PARSE_HEADER_DONE
  | NGX_HTTP_PARSE_INVALID_METHOD
  | NGX_HTTP_PARSE_INVALID_REQUEST
  | NGX_HTTP_PARSE_INVALID_09_METHOD
  | NGX_HTTP_PARSE_INVALID_HEADER

section \<open>Memory, buffers and slices\<close>

text \<open>
  A buffer \<open>ngx_buf_t\<close> is the memory it points into and the offsets of
  \<open>b->pos\<close> (first unread byte) and \<open>b->last\<close> (one past the last byte received).
  Memory from \<open>b->last\<close> on holds arbitrary bytes.
\<close>

record ngx_buf_t =
  b_mem :: mem
  b_pos :: nat
  b_last :: nat

definition mslice :: "mem \<Rightarrow> nat \<Rightarrow> nat \<Rightarrow> byte list" where
  "mslice m a b = map m [a..<b]"

text \<open>A concrete memory for evaluation: the bytes of a list, then zeros.\<close>

definition mem_of :: "byte list \<Rightarrow> mem" where
  "mem_of xs = (\<lambda>i. if i < length xs then xs ! i else 0)"

definition bytes :: "string \<Rightarrow> byte list" where
  "bytes s = map of_char s"

lemma length_mslice [simp]: "length (mslice m a b) = b - a"
  by (simp add: mslice_def)

lemma mslice_empty [simp]: "b \<le> a \<Longrightarrow> mslice m a b = []"
  by (simp add: mslice_def)

lemma mslice_Suc: "a \<le> b \<Longrightarrow> mslice m a (Suc b) = mslice m a b @ [m b]"
  by (simp add: mslice_def)

lemma mslice_Cons: "a < b \<Longrightarrow> mslice m a b = m a # mslice m (Suc a) b"
  by (simp add: mslice_def upt_conv_Cons)

lemma mslice_append: "a \<le> b \<Longrightarrow> b \<le> c \<Longrightarrow> mslice m a c = mslice m a b @ mslice m b c"
  by (metis le_add_diff_inverse map_append mslice_def upt_add_eq_append)

lemma set_mslice: "set (mslice m a b) = m ` {a..<b}"
  by (simp add: mslice_def)

lemma nth_mslice: "i < b - a \<Longrightarrow> mslice m a b ! i = m (a + i)"
  by (simp add: mslice_def)

lemma mslice_cong: "(\<And>i. a \<le> i \<Longrightarrow> i < b \<Longrightarrow> m i = m' i) \<Longrightarrow> mslice m a b = mslice m' a b"
  by (simp add: mslice_def)

lemma mslice_mem_of: "a \<le> b \<Longrightarrow> b \<le> length xs \<Longrightarrow> mslice (mem_of xs) a b = take (b - a) (drop a xs)"
  by (rule nth_equalityI) (auto simp: mslice_def mem_of_def)

text \<open>The bytes \<open>xs\<close> stand in memory from \<open>p\<close> on.\<close>

text \<open>Every byte from \<open>a\<close> up to \<open>b\<close> satisfies \<open>P\<close>.\<close>

definition span :: "(byte \<Rightarrow> bool) \<Rightarrow> mem \<Rightarrow> nat \<Rightarrow> nat \<Rightarrow> bool" where
  "span P m a b \<longleftrightarrow> (\<forall>i. a \<le> i \<and> i < b \<longrightarrow> P (m i))"

lemma span_empty [simp]: "b \<le> a \<Longrightarrow> span P m a b"
  by (auto simp: span_def)

lemma span_Suc [simp]: "a \<le> b \<Longrightarrow> span P m a (Suc b) \<longleftrightarrow> span P m a b \<and> P (m b)"
  by (auto simp: span_def less_Suc_eq)

lemma span_Cons: "a < b \<Longrightarrow> span P m a b \<longleftrightarrow> P (m a) \<and> span P m (Suc a) b"
  unfolding span_def by (metis Suc_leD Suc_leI le_less)

lemma span_mslice: "span P m a b \<longleftrightarrow> (\<forall>c\<in>set (mslice m a b). P c)"
  by (auto simp: span_def set_mslice)

lemma span_mono: "span P m a b \<Longrightarrow> a \<le> a' \<Longrightarrow> b' \<le> b \<Longrightarrow> (\<And>c. P c \<Longrightarrow> Q c) \<Longrightarrow> span Q m a' b'"
  by (auto simp: span_def)

text \<open>The first position from \<open>a\<close> below \<open>b\<close> that holds the byte \<open>c\<close>.\<close>

function find_byte :: "byte \<Rightarrow> mem \<Rightarrow> nat \<Rightarrow> nat \<Rightarrow> nat option" where
  "find_byte c m a b = (if a < b then if m a = c then Some a else find_byte c m (Suc a) b else None)"
  by pat_completeness auto
termination
  by (relation "measure (\<lambda>(c, m, a, b). b - a)") auto

declare find_byte.simps [simp del]

lemma find_byte_Some: "find_byte c m a b = Some i \<Longrightarrow> a \<le> i \<and> i < b \<and> m i = c \<and> span (\<lambda>x. x \<noteq> c) m a i"
proof (induction c m a b rule: find_byte.induct)
  case (1 c m a b)
  then show ?case
    by (cases "a < b"; cases "m a = c") (auto simp: find_byte.simps [of c m a b] span_Cons)
qed

lemma find_byte_None: "find_byte c m a b = None \<Longrightarrow> span (\<lambda>x. x \<noteq> c) m a b"
proof (induction c m a b rule: find_byte.induct)
  case (1 c m a b)
  then show ?case
    by (cases "a < b"; cases "m a = c") (auto simp: find_byte.simps [of c m a b] span_Cons)
qed

text \<open>A byte inside a line: neither its end nor a NUL.\<close>

definition line_byte :: "byte \<Rightarrow> bool" where
  "line_byte ch \<longleftrightarrow> ch \<noteq> NUL \<and> ch \<noteq> CR \<and> ch \<noteq> LF"

definition mem_at :: "mem \<Rightarrow> nat \<Rightarrow> byte list \<Rightarrow> bool" where
  "mem_at m p xs \<longleftrightarrow> mslice m p (p + length xs) = xs"

lemma mem_at_Nil [simp]: "mem_at m p []"
  by (simp add: mem_at_def)

lemma mem_at_Cons [simp]: "mem_at m p (x # xs) \<longleftrightarrow> m p = x \<and> mem_at m (Suc p) xs"
  by (simp add: mem_at_def mslice_Cons)

lemma mem_at_append [simp]:
  "mem_at m p (xs @ ys) \<longleftrightarrow> mem_at m p xs \<and> mem_at m (p + length xs) ys"
  by (induction xs arbitrary: p) auto

lemma mem_at_nth: "mem_at m p xs \<longleftrightarrow> (\<forall>i < length xs. m (p + i) = xs ! i)"
  unfolding mem_at_def list_eq_iff_nth_eq by (simp add: nth_mslice)

lemma mem_at_mslice: "mem_at m p xs \<Longrightarrow> q = p + length xs \<Longrightarrow> mslice m p q = xs"
  by (simp add: mem_at_def)

lemma mem_at_span: "mem_at m p xs \<Longrightarrow> span P m p (p + length xs) \<longleftrightarrow> (\<forall>c\<in>set xs. P c)"
  by (simp add: mem_at_mslice span_mslice)

lemma mem_at_mem_of: "mem_at (mem_of xs) 0 xs"
  by (simp add: mem_at_nth mem_of_def)

section \<open>Properties of all bytes\<close>

text \<open>A fact about one byte is checked on the 256 values.\<close>

definition byte_values :: "byte list" where
  "byte_values =
    [0, 1, 2, 3, 4, 5, 6, 7, 8, 9, 10, 11, 12, 13, 14, 15, 16, 17, 18, 19, 20, 21,
     22, 23, 24, 25, 26, 27, 28, 29, 30, 31, 32, 33, 34, 35, 36, 37, 38, 39, 40, 41,
     42, 43, 44, 45, 46, 47, 48, 49, 50, 51, 52, 53, 54, 55, 56, 57, 58, 59, 60, 61,
     62, 63, 64, 65, 66, 67, 68, 69, 70, 71, 72, 73, 74, 75, 76, 77, 78, 79, 80, 81,
     82, 83, 84, 85, 86, 87, 88, 89, 90, 91, 92, 93, 94, 95, 96, 97, 98, 99, 100,
     101, 102, 103, 104, 105, 106, 107, 108, 109, 110, 111, 112, 113, 114, 115, 116,
     117, 118, 119, 120, 121, 122, 123, 124, 125, 126, 127, 128, 129, 130, 131, 132,
     133, 134, 135, 136, 137, 138, 139, 140, 141, 142, 143, 144, 145, 146, 147, 148,
     149, 150, 151, 152, 153, 154, 155, 156, 157, 158, 159, 160, 161, 162, 163, 164,
     165, 166, 167, 168, 169, 170, 171, 172, 173, 174, 175, 176, 177, 178, 179, 180,
     181, 182, 183, 184, 185, 186, 187, 188, 189, 190, 191, 192, 193, 194, 195, 196,
     197, 198, 199, 200, 201, 202, 203, 204, 205, 206, 207, 208, 209, 210, 211, 212,
     213, 214, 215, 216, 217, 218, 219, 220, 221, 222, 223, 224, 225, 226, 227, 228,
     229, 230, 231, 232, 233, 234, 235, 236, 237, 238, 239, 240, 241, 242, 243, 244,
     245, 246, 247, 248, 249, 250, 251, 252, 253, 254, 255]"

lemma map_byte_values: "map unat byte_values = [0..<256]"
  by (simp add: byte_values_def upt_conv_Cons)

lemma mem_byte_values: "ch \<in> set byte_values"
proof -
  have "unat ch \<in> set [0..<256]" using unsigned_less [of ch] by simp
  then have "unat ch \<in> unat ` set byte_values"
    unfolding map_byte_values [symmetric] by simp
  then show ?thesis by (auto dest: word_unat_eq_iff [THEN iffD2])
qed

lemma all_bytes:
  assumes "list_all P byte_values"
  shows "P ch"
  using assms mem_byte_values [of ch] by (simp add: list_all_iff)

lemma lower_bit_letter: "is_lower (lower_bit ch) \<longleftrightarrow> is_lower ch \<or> is_upper ch"
  by (rule all_bytes [of "\<lambda>ch. is_lower (lower_bit ch) \<longleftrightarrow> is_lower ch \<or> is_upper ch"])
    code_simp

section \<open>Little-endian 32-bit loads\<close>

text \<open>
  \<open>pack32 c0 c1 c2 c3\<close> is the constant \<open>(c3 << 24) | (c2 << 16) | (c1 << 8) | c0\<close> and
  \<open>load32 m p\<close> the value of \<open>*(uint32_t *) p\<close> on a little-endian machine.
\<close>

definition pack32 :: "byte \<Rightarrow> byte \<Rightarrow> byte \<Rightarrow> byte \<Rightarrow> uint32_t" where
  "pack32 c0 c1 c2 c3 =
     push_bit 24 (ucast c3) OR push_bit 16 (ucast c2) OR push_bit 8 (ucast c1) OR ucast c0"

definition load32 :: "mem \<Rightarrow> nat \<Rightarrow> uint32_t" where
  "load32 m p = pack32 (m p) (m (p + 1)) (m (p + 2)) (m (p + 3))"

lemma bit_pack32:
  "bit (pack32 c0 c1 c2 c3) n \<longleftrightarrow>
    (if n < 8 then bit c0 n else if n < 16 then bit c1 (n - 8)
     else if n < 24 then bit c2 (n - 16) else n < 32 \<and> bit c3 (n - 24))"
  by (auto simp: pack32_def bit_or_iff bit_push_bit_iff bit_ucast_iff dest: bit_imp_le_length)

lemma pack32_inject:
  "pack32 a b c d = pack32 a' b' c' d' \<longleftrightarrow> a = a' \<and> b = b' \<and> c = c' \<and> d = d'"
proof
  assume eq: "pack32 a b c d = pack32 a' b' c' d'"
  have "bit a n = bit a' n \<and> bit b n = bit b' n \<and> bit c n = bit c' n \<and> bit d n = bit d' n"
    if "n < 8" for n
    using bit_pack32 [of a b c d n] bit_pack32 [of a' b' c' d' n]
      bit_pack32 [of a b c d "n + 8"] bit_pack32 [of a' b' c' d' "n + 8"]
      bit_pack32 [of a b c d "n + 16"] bit_pack32 [of a' b' c' d' "n + 16"]
      bit_pack32 [of a b c d "n + 24"] bit_pack32 [of a' b' c' d' "n + 24"] that eq
    by auto
  then show "a = a' \<and> b = b' \<and> c = c' \<and> d = d'"
    by (auto intro!: bit_word_eqI)
qed simp

text \<open>Only the two low bytes of a load remain under the mask \<open>0xffff\<close>.\<close>

lemma pack32_mask16:
  "pack32 a b c d AND 0xffff = pack32 a b 0 0"
proof (rule bit_word_eqI)
  fix n
  have m: "(0xffff :: uint32_t) = mask 16" by (simp add: mask_eq_exp_minus_1)
  show "bit (pack32 a b c d AND 0xffff) n = bit (pack32 a b 0 0) n"
    unfolding m by (auto simp: bit_and_iff bit_mask_iff bit_pack32 dest: bit_imp_le_length)
qed

section \<open>Signed words\<close>

lemma sint_word_of_int:
  "- (2 ^ (LENGTH('a) - 1)) \<le> k \<Longrightarrow> k < 2 ^ (LENGTH('a) - 1) \<Longrightarrow> sint (word_of_int k :: 'a::len word) = k"
  by (simp add: signed_of_int signed_take_bit_int_eq_self)

lemma sint_plus [sint_arith]:
  fixes a b :: "'a::len word"
  assumes "- (2 ^ (LENGTH('a) - 1)) \<le> sint a + sint b" "sint a + sint b < 2 ^ (LENGTH('a) - 1)"
  shows "sint (a + b) = sint a + sint b"
  using sint_word_of_int [OF assms] by simp

lemma sint_diff [sint_arith]:
  fixes a b :: "'a::len word"
  assumes "- (2 ^ (LENGTH('a) - 1)) \<le> sint a - sint b" "sint a - sint b < 2 ^ (LENGTH('a) - 1)"
  shows "sint (a - b) = sint a - sint b"
  using sint_word_of_int [OF assms] by simp

lemma sint_unat_cases: "sint w = (if unat w < 2 ^ (LENGTH('a) - 1) then int (unat w) else int (unat w) - 2 ^ LENGTH('a))"
  for w :: "'a::len word"
proof (cases "unat w < 2 ^ (LENGTH('a) - 1)")
  case True
  then have "int (unat w) < 2 ^ (LENGTH('a) - 1)" by (metis of_nat_less_iff of_nat_numeral of_nat_power)
  then have "sint (word_of_int (int (unat w)) :: 'a word) = int (unat w)"
    by (intro sint_word_of_int) (auto intro: order_trans [of _ 0])
  with True show ?thesis by simp
next
  case False
  have lt: "int (unat w) < 2 ^ LENGTH('a)" using uint_lt2p [of w] by simp
  have ge: "2 ^ (LENGTH('a) - 1) \<le> int (unat w)" using False by (metis linorder_not_less of_nat_less_iff of_nat_numeral of_nat_power)
  have two: "(2::int) ^ LENGTH('a) = 2 * 2 ^ (LENGTH('a) - 1)" by (simp flip: power_Suc)
  have "sint (word_of_int (int (unat w) - 2 ^ LENGTH('a)) :: 'a word) = int (unat w) - 2 ^ LENGTH('a)"
    using lt ge two by (intro sint_word_of_int) linarith+
  moreover have "(word_of_int (int (unat w) - 2 ^ LENGTH('a)) :: 'a word) = w" by simp
  ultimately show ?thesis using False by simp
qed

end
