(* ===== verification/Scanner.thy ===== *)
theory Scanner
  imports Prelude
begin

text \<open>
  The loop all byte-at-a-time parsers of nginx share:
  \<^verbatim>\<open>for (p = b->pos; p < b->last; p++) { ch = *p; switch (state) { ... } }\<close>.
  A parser is a step function that reads memory at the current position and either
  moves to the next byte or leaves the loop (\<open>goto done\<close>, \<open>return\<close>). The locale
  \<open>scanner\<close> is the contract a step function gives (it looks at no byte past the current
  one), and its lemmas are what every parser gets from it: the outcome depends on
  received bytes only, and a parse cut anywhere by \<open>NGX_AGAIN\<close> and continued when more
  bytes arrive ends as the uninterrupted one. The locale \<open>scanner_inv\<close> adds an
  invariant kept by every step.
\<close>

section \<open>The loop\<close>

datatype ('x, 's) action = Next 's | Exit 'x 's

datatype ('x, 's) outcome = Again nat 's | Exited 'x nat 's

function scan ::
  "(mem \<Rightarrow> nat \<Rightarrow> 's \<Rightarrow> ('x, 's) action) \<Rightarrow> mem \<Rightarrow> nat \<Rightarrow> nat \<Rightarrow> 's \<Rightarrow> ('x, 's) outcome"
where
  "scan step m lim p s =
     (if p < lim
      then (case step m p s of
              Next s' \<Rightarrow> scan step m lim (Suc p) s'
            | Exit x s' \<Rightarrow> Exited x p s')
      else Again p s)"
  by pat_completeness auto
termination
  by (relation "measure (\<lambda>(step, m, lim, p, s). lim - p)") auto

declare scan.simps [simp del]

lemma scan_end: "lim \<le> p \<Longrightarrow> scan step m lim p s = Again p s"
  by (simp add: scan.simps)

lemma scan_Next:
  "p < lim \<Longrightarrow> step m p s = Next s' \<Longrightarrow> scan step m lim p s = scan step m lim (Suc p) s'"
  by (simp add: scan.simps)

lemma scan_Exit:
  "p < lim \<Longrightarrow> step m p s = Exit x s' \<Longrightarrow> scan step m lim p s = Exited x p s'"
  by (simp add: scan.simps)

text \<open>A run of steps whose states are known in advance.\<close>

lemma scan_run:
  assumes "p \<le> q" "q \<le> lim" "\<And>i. p \<le> i \<Longrightarrow> i < q \<Longrightarrow> step m i (f i) = Next (f (Suc i))"
  shows "scan step m lim p (f p) = scan step m lim q (f q)"
  using assms
proof (induction "q - p" arbitrary: p)
  case 0
  then show ?case by simp
next
  case (Suc n)
  then have "scan step m lim p (f p) = scan step m lim (Suc p) (f (Suc p))"
    by (intro scan_Next) auto
  also have "\<dots> = scan step m lim q (f q)"
    using Suc by (intro Suc.hyps(1)) auto
  finally show ?case .
qed

lemma scan_stutter:
  assumes "p \<le> q" "q \<le> lim" "\<And>i. p \<le> i \<Longrightarrow> i < q \<Longrightarrow> step m i s = Next s"
  shows "scan step m lim p s = scan step m lim q s"
  using scan_run [of p q lim step m "\<lambda>_. s"] assms by simp

text \<open>A run of steps of which only a property of the states is known.\<close>

lemma scan_while:
  assumes "p \<le> q" "q \<le> lim" "P p s"
    and "\<And>i t. p \<le> i \<Longrightarrow> i < q \<Longrightarrow> P i t \<Longrightarrow> \<exists>t'. step m i t = Next t' \<and> P (Suc i) t'"
  shows "\<exists>t. scan step m lim p s = scan step m lim q t \<and> P q t"
  using assms
proof (induction "q - p" arbitrary: p s)
  case 0
  then show ?case by auto
next
  case (Suc n)
  then have "p < q" by simp
  with Suc.prems obtain s' where s': "step m p s = Next s'" "P (Suc p) s'" by blast
  have "\<exists>t. scan step m lim (Suc p) s' = scan step m lim q t \<and> P q t"
    using Suc.hyps(2) \<open>p < q\<close> Suc.prems s' by (intro Suc.hyps(1)) auto
  with s' \<open>p < q\<close> Suc.prems(2) show ?case by (simp add: scan_Next)
qed

text \<open>A run over known bytes that accumulates a value.\<close>

lemma scan_foldl:
  assumes "mem_at m p xs" "p + length xs \<le> lim"
    and "\<And>i a. m i \<in> set xs \<Longrightarrow> step m i (g a) = Next (g (f a (m i)))"
  shows "scan step m lim p (g a) = scan step m lim (p + length xs) (g (foldl f a xs))"
  using assms
proof (induction xs arbitrary: p a)
  case (Cons x xs)
  then have "scan step m lim p (g a) = scan step m lim (Suc p) (g (f a x))"
    by (intro scan_Next) auto
  also have "\<dots> = scan step m lim (Suc p + length xs) (g (foldl f (f a x) xs))"
    using Cons.prems by (intro Cons.IH) auto
  finally show ?case by simp
qed simp

lemma scan_Again_pos: "scan step m lim p s = Again q s' \<Longrightarrow> q = max p lim"
proof (induction step m lim p s rule: scan.induct)
  case (1 step m lim p s)
  then show ?case
    by (cases "p < lim") (auto simp: scan.simps [of step m lim p s] split: action.splits)
qed

lemma scan_Exited_pos: "scan step m lim p s = Exited x q s' \<Longrightarrow> p \<le> q \<and> q < lim"
proof (induction step m lim p s rule: scan.induct)
  case (1 step m lim p s)
  then show ?case
    by (cases "p < lim")
      (fastforce simp: scan.simps [of step m lim p s] split: action.splits)+
qed

lemma scan_Exited_first: "scan step m lim p s = Exited x p s' \<Longrightarrow> step m p s = Exit x s'"
  using scan_Exited_pos [of step m lim "Suc p"]
  by (cases "p < lim"; cases "step m p s") (force simp: scan.simps [of step m lim p s])+

lemma scan_Exited_step: "scan step m lim p s = Exited x q s' \<Longrightarrow> \<exists>t. step m q t = Exit x s'"
proof (induction step m lim p s rule: scan.induct)
  case (1 step m lim p s)
  then show ?case
    by (cases "p < lim") (auto simp: scan.simps [of step m lim p s] split: action.splits)
qed

text \<open>Stopping at \<open>mid\<close> and continuing there is the same as not stopping.\<close>

lemma scan_resume:
  assumes "mid \<le> lim"
  shows "scan step m lim p s =
    (case scan step m mid p s of
       Again q s' \<Rightarrow> scan step m lim q s'
     | Exited x q s' \<Rightarrow> Exited x q s')"
  using assms
proof (induction step m mid p s rule: scan.induct)
  case (1 step m mid p s)
  show ?case
  proof (cases "p < mid")
    case True
    with "1" show ?thesis
      by (simp add: scan.simps [of step m lim p s] scan.simps [of step m mid p s]
          split: action.splits)
  next
    case False
    then show ?thesis by (simp add: scan_end)
  qed
qed

section \<open>The contract of a step function\<close>

locale scanner =
  fixes step :: "mem \<Rightarrow> nat \<Rightarrow> 's \<Rightarrow> ('x, 's) action"
  assumes step_local: "(\<And>i. i \<le> p \<Longrightarrow> m i = m' i) \<Longrightarrow> step m p s = step m' p s"
begin

text \<open>The outcome depends on the bytes below \<open>lim\<close> only.\<close>

lemma scan_local:
  assumes "\<And>i. i < lim \<Longrightarrow> m i = m' i"
  shows "scan step m lim p s = scan step m' lim p s"
proof (induction "lim - p" arbitrary: p s)
  case 0
  then show ?case by (simp add: scan_end)
next
  case (Suc n)
  then have "step m p s = step m' p s"
    by (intro step_local assms) simp
  with Suc show ?case
    by (simp add: scan.simps [of step m lim p s] scan.simps [of step m' lim p s]
        split: action.splits)
qed

text \<open>
  The first call runs when only the bytes below \<open>mid\<close> have arrived (memory \<open>m'\<close>), the
  second when those below \<open>lim\<close> have (memory \<open>m\<close>).
\<close>

lemma scan_resume_mem:
  assumes "mid \<le> lim" "\<And>i. i < mid \<Longrightarrow> m' i = m i"
  shows "scan step m lim p s =
    (case scan step m' mid p s of
       Again q s' \<Rightarrow> scan step m lim q s'
     | Exited x q s' \<Rightarrow> Exited x q s')"
  using scan_resume [of mid lim step m p s] scan_local [of mid m' m p s] assms by simp

end

text \<open>An invariant of the state at each position, and what it gives when the loop is left.\<close>

locale scanner_inv =
  fixes step :: "mem \<Rightarrow> nat \<Rightarrow> 's \<Rightarrow> ('x, 's) action"
    and inv :: "mem \<Rightarrow> nat \<Rightarrow> 's \<Rightarrow> bool"
    and post :: "mem \<Rightarrow> nat \<Rightarrow> 'x \<Rightarrow> 's \<Rightarrow> bool"
  assumes inv_Next: "inv m p s \<Longrightarrow> step m p s = Next s' \<Longrightarrow> inv m (Suc p) s'"
    and inv_Exit: "inv m p s \<Longrightarrow> step m p s = Exit x s' \<Longrightarrow> post m p x s'"
begin

lemma scan_inv:
  "inv m p s \<Longrightarrow>
     (case scan step m lim p s of
        Again q s' \<Rightarrow> inv m q s'
      | Exited x q s' \<Rightarrow> post m q x s')"
proof (induction "lim - p" arbitrary: p s)
  case 0
  then show ?case by (simp add: scan_end)
next
  case (Suc n)
  show ?case
  proof (cases "step m p s")
    case (Next s')
    with Suc have "inv m (Suc p) s'" by (blast intro: inv_Next)
    with Suc.hyps Next show ?thesis by (simp add: scan_Next)
  next
    case (Exit x s')
    with Suc have "post m p x s'" by (blast intro: inv_Exit)
    with Suc.hyps Exit show ?thesis by (simp add: scan_Exit)
  qed
qed

lemma scan_inv_Again: "inv m p s \<Longrightarrow> scan step m lim p s = Again q s' \<Longrightarrow> inv m q s'"
  using scan_inv [of m p s lim] by simp

lemma scan_inv_Exited: "inv m p s \<Longrightarrow> scan step m lim p s = Exited x q s' \<Longrightarrow> post m q x s'"
  using scan_inv [of m p s lim] by simp

end

text \<open>
  A change \<open>f\<close> of the state that the step function neither reads nor undoes (a field it
  does not use) commutes with the loop.
\<close>

locale scanner_frame =
  fixes step :: "mem \<Rightarrow> nat \<Rightarrow> 's \<Rightarrow> ('x, 's) action"
    and f :: "'s \<Rightarrow> 's"
  assumes step_frame: "step m p (f s) = map_action id f (step m p s)"
begin

lemma scan_frame: "scan step m lim p (f s) = map_outcome id f (scan step m lim p s)"
proof (induction "lim - p" arbitrary: p s)
  case 0
  then show ?case by (simp add: scan_end)
next
  case (Suc n)
  then show ?case
    by (cases "step m p s") (simp_all add: scan_Next scan_Exit step_frame)
qed

end

section \<open>Line parsers\<close>

text \<open>
  The functions around the loop: local variables \<open>'l\<close> (the state, a running hash) are
  loaded from the request structure \<open>'r\<close> at the start and saved in it with \<open>NGX_AGAIN\<close>;
  the code behind \<open>goto done\<close> and \<open>return\<close> is \<open>leave\<close>. \<open>final\<close> holds of the return codes
  after which the caller goes on with the structure; after the others it is dropped.
  \<open>view\<close> clears the fields the parser leaves undefined with a code.
\<close>

locale line_parser = scanner step
  for step :: "mem \<Rightarrow> nat \<Rightarrow> 'l \<times> 'r \<Rightarrow> ('x, 'l \<times> 'r) action" +
  fixes save :: "'l \<Rightarrow> 'r \<Rightarrow> 'r"
    and load :: "'r \<Rightarrow> 'l option"
    and leave :: "'x \<Rightarrow> nat \<Rightarrow> 'l \<Rightarrow> 'r \<Rightarrow> ngx_buf_t \<Rightarrow> ngx_rc \<times> 'r \<times> ngx_buf_t"
    and final :: "ngx_rc \<Rightarrow> bool"
    and view :: "ngx_rc \<Rightarrow> 'r \<Rightarrow> 'r"
    and parse :: "'r \<Rightarrow> ngx_buf_t \<Rightarrow> ngx_rc \<times> 'r \<times> ngx_buf_t"
  assumes step_save: "step m p (l, save k r) = map_action id (apsnd (save k)) (step m p (l, r))"
    and load_save: "load (save l r) = Some l"
    and save_save: "save l (save k r) = save l r"
    and leave_mem: "leave x p l r (b\<lparr>b_mem := m\<rparr>) = apsnd (apsnd (b_mem_update (\<lambda>_. m))) (leave x p l r b)"
    and leave_rc: "fst (leave x p l (save k r) (b\<lparr>b_pos := q\<rparr>)) = fst (leave x p l r b)"
    and leave_final: "step m' p' s = Exit x s' \<Longrightarrow> leave x p l r b = (rc, r1, b1) \<Longrightarrow> final rc \<Longrightarrow>
      leave x p l (save k r) (b\<lparr>b_pos := q\<rparr>) = (rc, r2, b2) \<Longrightarrow> view rc r2 = view rc r1 \<and> b2 = b1"
    and leave_again: "step m p s = Exit x s' \<Longrightarrow> fst (leave x q l r b) \<noteq> NGX_AGAIN"
    and parse_eq: "parse r b =
      (case load r of
         None \<Rightarrow> (NGX_AGAIN, r, b\<lparr>b_pos := max (b_pos b) (b_last b)\<rparr>)
       | Some l \<Rightarrow>
           (case scan step (b_mem b) (b_last b) (b_pos b) (l, r) of
              Again p (l', r') \<Rightarrow> (NGX_AGAIN, save l' r', b\<lparr>b_pos := p\<rparr>)
            | Exited x p (l', r') \<Rightarrow> leave x p l' r' b))"

sublocale line_parser \<subseteq> sv: scanner_frame step "apsnd (save k)" for k
  by unfold_locales (auto simp: step_save split: prod.splits)

context line_parser
begin

lemma parse_local:
  assumes "\<And>i. i < b_last b \<Longrightarrow> m i = b_mem b i"
  shows "parse r (b\<lparr>b_mem := m\<rparr>) =
    (case parse r b of (rc, r', b') \<Rightarrow> (rc, r', b'\<lparr>b_mem := m\<rparr>))"
proof (cases "load r")
  case None
  then show ?thesis by (simp add: parse_eq)
next
  case (Some l)
  have "scan step m (b_last b) (b_pos b) (l, r) = scan step (b_mem b) (b_last b) (b_pos b) (l, r)"
    using assms by (rule scan_local)
  with Some show ?thesis
    by (simp add: parse_eq leave_mem apsnd_def map_prod_def split: outcome.split prod.split)
qed

lemma exit_not_again:
  assumes "scan step m lim p s = Exited x q s'"
  shows "fst (leave x q' l r b) \<noteq> NGX_AGAIN"
  using scan_Exited_step [OF assms] leave_again by blast

lemma parse_resume:
  assumes first: "parse r b = (NGX_AGAIN, r', b')"
    and more: "b_last b \<le> n" "\<And>i. i < b_last b \<Longrightarrow> m i = b_mem b i"
    and whole: "parse r (b\<lparr>b_mem := m, b_last := n\<rparr>) = (rc1, r1, b1)"
    and rest: "parse r' (b'\<lparr>b_mem := m, b_last := n\<rparr>) = (rc2, r2, b2)"
  shows "rc1 = rc2 \<and> (rc1 = NGX_AGAIN \<longrightarrow> r1 = r2 \<and> b1 = b2) \<and>
    (final rc1 \<longrightarrow> view rc1 r1 = view rc1 r2 \<and> b1 = b2)"
proof (cases "load r")
  case None
  with assms show ?thesis by (auto simp: parse_eq)
next
  case (Some l)
  obtain q l' s where again: "scan step (b_mem b) (b_last b) (b_pos b) (l, r) = Again q (l', s)"
    and r': "r' = save l' s" and b': "b' = b\<lparr>b_pos := q\<rparr>"
  proof (cases "scan step (b_mem b) (b_last b) (b_pos b) (l, r)")
    case (Again q s')
    with first Some that show ?thesis by (auto simp: parse_eq split: prod.splits)
  next
    case (Exited x q s')
    with first Some exit_not_again [OF Exited, of q "fst s'" "snd s'" b] show ?thesis
      by (auto simp: parse_eq split: prod.splits)
  qed
  have "scan step m (b_last b) (b_pos b) (l, r) = Again q (l', s)"
    using more(2) again scan_local [of "b_last b" m "b_mem b"] by simp
  then have w: "scan step m n (b_pos b) (l, r) = scan step m n q (l', s)"
    using scan_resume [OF more(1), of step m "b_pos b" "(l, r)"] by simp
  have f: "scan step m n q (l', save l' s) = map_outcome id (apsnd (save l')) (scan step m n q (l', s))"
    using sv.scan_frame [where k = l' and s = "(l', s)"] by simp
  show ?thesis
  proof (cases "scan step m n q (l', s)")
    case (Again p t)
    with whole rest Some w f show ?thesis
      by (cases t) (auto simp: parse_eq r' b' load_save save_save)
  next
    case (Exited x p t)
    obtain l'' t' where t: "t = (l'', t')" by fastforce
    let ?b = "b\<lparr>b_mem := m, b_last := n\<rparr>"
    have 1: "leave x p l'' t' ?b = (rc1, r1, b1)"
      using whole Some w Exited t by (simp add: parse_eq)
    have upd: "b\<lparr>b_pos := q, b_mem := m, b_last := n\<rparr> = ?b\<lparr>b_pos := q\<rparr>" by simp
    have 2: "leave x p l'' (save l' t') (?b\<lparr>b_pos := q\<rparr>) = (rc2, r2, b2)"
      using rest f Exited t unfolding r' b' upd by (simp add: parse_eq load_save)
    have "rc2 = rc1"
      using leave_rc [where x = x and p = p and l = l'' and k = l' and r = t' and b = ?b and q = q] 1 2 by simp
    moreover have "rc1 \<noteq> NGX_AGAIN"
      using exit_not_again [OF Exited, of p l'' t' ?b] 1 by simp
    moreover obtain s' where "step m p s' = Exit x t"
      using scan_Exited_step [OF Exited] by blast
    then have "final rc1 \<Longrightarrow> view rc1 r2 = view rc1 r1 \<and> b2 = b1"
      using leave_final [OF _ 1 _ 2 [unfolded \<open>rc2 = rc1\<close>]] by blast
    ultimately show ?thesis by auto
  qed
qed

end

end
