(* ===== verification/Http_Request.thy ===== *)
theory Http_Request
  imports Scanner
begin

text \<open>
  The part of \<open>ngx_http_request_t\<close> (\<open>src/http/ngx_http_request.h\<close>) the parsers of
  \<open>ngx_http_parse.c\<close> read and write, the request as \<open>ngx_http_create_request\<close> leaves it,
  and the table \<open>usual\<close> of the bytes that need no attention in a URI.
\<close>

section \<open>The request structure\<close>

text \<open>
  A \<open>u_char *\<close> field is an offset, or \<open>None\<close> for \<open>NULL\<close>. \<open>r_state\<close> is the number each
  parser keeps its \<open>enum\<close> in between calls. \<open>r_upstream\<close> says whether \<open>r->upstream\<close> is
  set. The bit-fields \<open>http_minor:16\<close> and \<open>http_major:16\<close> have 16 bits. The strings
  \<open>uri\<close>, \<open>exten\<close>, \<open>args\<close> and \<open>unparsed_uri\<close> (\<open>ngx_str_t\<close>) are the bytes they point to.
\<close>

record ngx_http_request_t =
  r_upstream :: bool
  r_method :: ngx_uint_t
  r_http_version :: ngx_uint_t
  r_http_protocol_data :: ptr
  r_complex_uri :: bool
  r_quoted_uri :: bool
  r_plus_in_uri :: bool
  r_space_in_uri :: bool
  r_invalid_header :: bool
  r_state :: nat
  r_header_hash :: ngx_uint_t
  r_lowcase_index :: nat
  r_lowcase_header :: "byte list"
  r_header_name_start :: ptr
  r_header_name_end :: ptr
  r_header_start :: ptr
  r_header_end :: ptr
  r_uri_start :: ptr
  r_uri_end :: ptr
  r_uri_ext :: ptr
  r_args_start :: ptr
  r_request_start :: ptr
  r_request_end :: ptr
  r_method_end :: ptr
  r_schema_start :: ptr
  r_schema_end :: ptr
  r_host_start :: ptr
  r_host_end :: ptr
  r_port_end :: ptr
  r_http_minor :: uint16
  r_http_major :: uint16
  r_uri :: "byte list"
  r_exten :: "byte list"
  r_args :: "byte list"
  r_unparsed_uri :: "byte list"
  r_valid_unparsed_uri :: bool

abbreviation NGX_HTTP_UNKNOWN :: ngx_uint_t where "NGX_HTTP_UNKNOWN \<equiv> 0x0001"
abbreviation NGX_HTTP_GET :: ngx_uint_t where "NGX_HTTP_GET \<equiv> 0x0002"
abbreviation NGX_HTTP_HEAD :: ngx_uint_t where "NGX_HTTP_HEAD \<equiv> 0x0004"
abbreviation NGX_HTTP_POST :: ngx_uint_t where "NGX_HTTP_POST \<equiv> 0x0008"
abbreviation NGX_HTTP_PUT :: ngx_uint_t where "NGX_HTTP_PUT \<equiv> 0x0010"
abbreviation NGX_HTTP_DELETE :: ngx_uint_t where "NGX_HTTP_DELETE \<equiv> 0x0020"
abbreviation NGX_HTTP_MKCOL :: ngx_uint_t where "NGX_HTTP_MKCOL \<equiv> 0x0040"
abbreviation NGX_HTTP_COPY :: ngx_uint_t where "NGX_HTTP_COPY \<equiv> 0x0080"
abbreviation NGX_HTTP_MOVE :: ngx_uint_t where "NGX_HTTP_MOVE \<equiv> 0x0100"
abbreviation NGX_HTTP_OPTIONS :: ngx_uint_t where "NGX_HTTP_OPTIONS \<equiv> 0x0200"
abbreviation NGX_HTTP_PROPFIND :: ngx_uint_t where "NGX_HTTP_PROPFIND \<equiv> 0x0400"
abbreviation NGX_HTTP_PROPPATCH :: ngx_uint_t where "NGX_HTTP_PROPPATCH \<equiv> 0x0800"
abbreviation NGX_HTTP_LOCK :: ngx_uint_t where "NGX_HTTP_LOCK \<equiv> 0x1000"
abbreviation NGX_HTTP_UNLOCK :: ngx_uint_t where "NGX_HTTP_UNLOCK \<equiv> 0x2000"
abbreviation NGX_HTTP_PATCH :: ngx_uint_t where "NGX_HTTP_PATCH \<equiv> 0x4000"
abbreviation NGX_HTTP_TRACE :: ngx_uint_t where "NGX_HTTP_TRACE \<equiv> 0x8000"

abbreviation NGX_HTTP_LC_HEADER_LEN :: nat where "NGX_HTTP_LC_HEADER_LEN \<equiv> 32"

text \<open>
  The request of \<open>ngx_http_create_request\<close>: memory cleared by \<open>ngx_pcalloc\<close>, the method
  unknown, the version 1.0.
\<close>

definition ngx_http_create_request :: ngx_http_request_t where
  "ngx_http_create_request =
    \<lparr> r_upstream = False,
      r_method = NGX_HTTP_UNKNOWN,
      r_http_version = 1000,
      r_http_protocol_data = None,
      r_complex_uri = False,
      r_quoted_uri = False,
      r_plus_in_uri = False,
      r_space_in_uri = False,
      r_invalid_header = False,
      r_state = 0,
      r_header_hash = 0,
      r_lowcase_index = 0,
      r_lowcase_header = replicate NGX_HTTP_LC_HEADER_LEN 0,
      r_header_name_start = None,
      r_header_name_end = None,
      r_header_start = None,
      r_header_end = None,
      r_uri_start = None,
      r_uri_end = None,
      r_uri_ext = None,
      r_args_start = None,
      r_request_start = None,
      r_request_end = None,
      r_method_end = None,
      r_schema_start = None,
      r_schema_end = None,
      r_host_start = None,
      r_host_end = None,
      r_port_end = None,
      r_http_minor = 0,
      r_http_major = 0,
      r_uri = [],
      r_exten = [],
      r_args = [],
      r_unparsed_uri = [],
      r_valid_unparsed_uri = False \<rparr>"

text \<open>
  How a line parser leaves its loop: \<open>goto done\<close>, \<open>goto header_done\<close> or a \<open>return\<close>.
\<close>

datatype parse_exit = Goto_done | Goto_header_done | Return ngx_rc

text \<open>\<open>r_state\<close> is written by no state of a parser: its updates move outwards.\<close>

lemma r_state_commute:
  "r\<lparr>r_state := k, r_method := v0\<rparr> = r\<lparr>r_method := v0, r_state := k\<rparr>"
  "r\<lparr>r_state := k, r_http_protocol_data := v1\<rparr> = r\<lparr>r_http_protocol_data := v1, r_state := k\<rparr>"
  "r\<lparr>r_state := k, r_complex_uri := v2\<rparr> = r\<lparr>r_complex_uri := v2, r_state := k\<rparr>"
  "r\<lparr>r_state := k, r_quoted_uri := v3\<rparr> = r\<lparr>r_quoted_uri := v3, r_state := k\<rparr>"
  "r\<lparr>r_state := k, r_plus_in_uri := v4\<rparr> = r\<lparr>r_plus_in_uri := v4, r_state := k\<rparr>"
  "r\<lparr>r_state := k, r_space_in_uri := v5\<rparr> = r\<lparr>r_space_in_uri := v5, r_state := k\<rparr>"
  "r\<lparr>r_state := k, r_invalid_header := v6\<rparr> = r\<lparr>r_invalid_header := v6, r_state := k\<rparr>"
  "r\<lparr>r_state := k, r_header_hash := v7\<rparr> = r\<lparr>r_header_hash := v7, r_state := k\<rparr>"
  "r\<lparr>r_state := k, r_lowcase_index := v8\<rparr> = r\<lparr>r_lowcase_index := v8, r_state := k\<rparr>"
  "r\<lparr>r_state := k, r_lowcase_header := v9\<rparr> = r\<lparr>r_lowcase_header := v9, r_state := k\<rparr>"
  "r\<lparr>r_state := k, r_header_name_start := v10\<rparr> = r\<lparr>r_header_name_start := v10, r_state := k\<rparr>"
  "r\<lparr>r_state := k, r_header_name_end := v11\<rparr> = r\<lparr>r_header_name_end := v11, r_state := k\<rparr>"
  "r\<lparr>r_state := k, r_header_start := v12\<rparr> = r\<lparr>r_header_start := v12, r_state := k\<rparr>"
  "r\<lparr>r_state := k, r_header_end := v13\<rparr> = r\<lparr>r_header_end := v13, r_state := k\<rparr>"
  "r\<lparr>r_state := k, r_uri_start := v14\<rparr> = r\<lparr>r_uri_start := v14, r_state := k\<rparr>"
  "r\<lparr>r_state := k, r_uri_end := v15\<rparr> = r\<lparr>r_uri_end := v15, r_state := k\<rparr>"
  "r\<lparr>r_state := k, r_uri_ext := v16\<rparr> = r\<lparr>r_uri_ext := v16, r_state := k\<rparr>"
  "r\<lparr>r_state := k, r_args_start := v17\<rparr> = r\<lparr>r_args_start := v17, r_state := k\<rparr>"
  "r\<lparr>r_state := k, r_request_start := v18\<rparr> = r\<lparr>r_request_start := v18, r_state := k\<rparr>"
  "r\<lparr>r_state := k, r_request_end := v19\<rparr> = r\<lparr>r_request_end := v19, r_state := k\<rparr>"
  "r\<lparr>r_state := k, r_method_end := v20\<rparr> = r\<lparr>r_method_end := v20, r_state := k\<rparr>"
  "r\<lparr>r_state := k, r_schema_start := v21\<rparr> = r\<lparr>r_schema_start := v21, r_state := k\<rparr>"
  "r\<lparr>r_state := k, r_schema_end := v22\<rparr> = r\<lparr>r_schema_end := v22, r_state := k\<rparr>"
  "r\<lparr>r_state := k, r_host_start := v23\<rparr> = r\<lparr>r_host_start := v23, r_state := k\<rparr>"
  "r\<lparr>r_state := k, r_host_end := v24\<rparr> = r\<lparr>r_host_end := v24, r_state := k\<rparr>"
  "r\<lparr>r_state := k, r_port_end := v25\<rparr> = r\<lparr>r_port_end := v25, r_state := k\<rparr>"
  "r\<lparr>r_state := k, r_http_minor := v26\<rparr> = r\<lparr>r_http_minor := v26, r_state := k\<rparr>"
  "r\<lparr>r_state := k, r_http_major := v27\<rparr> = r\<lparr>r_http_major := v27, r_state := k\<rparr>"
  by simp_all

section \<open>The table of usual URI bytes\<close>

definition usual_tab :: "uint32_t list" where
  "usual_tab = [0xffffdbfe, 0x7fff37d6, 0xffffffff, 0xffffffff,
                0xffffffff, 0xffffffff, 0xffffffff, 0xffffffff]"

text \<open>The test \<open>usual[ch >> 5] & (1 << (ch & 0x1f))\<close>.\<close>

definition usual :: "byte \<Rightarrow> bool" where
  "usual ch \<longleftrightarrow> usual_tab ! unat (drop_bit 5 ch) AND push_bit (unat (ch AND 0x1f)) 1 \<noteq> 0"

abbreviation unusual_bytes :: "byte set" where
  "unusual_bytes \<equiv>
     {NUL, LF, CR, c_sp, c_hash, c_percent, c_plus, c_dot, c_slash, c_quest}"

lemma usual_iff: "usual ch \<longleftrightarrow> ch \<notin> unusual_bytes"
  by (rule all_bytes [of "\<lambda>ch. usual ch \<longleftrightarrow> ch \<notin> unusual_bytes"]) code_simp

end
