(* ===== verification/Digits.thy ===== *)
theory Digits
  imports Prelude
begin

text \<open>
  Decimal and hexadecimal numerals in ASCII: their value as a number, and the accumulator
  loops \<open>n = n * 10 + ch - '0'\<close> of the code on words of any width.
\<close>

section \<open>Decimal\<close>

definition digits :: "byte list \<Rightarrow> bool" where
  "digits ds \<longleftrightarrow> ds \<noteq> [] \<and> (\<forall>d\<in>set ds. is_digit d)"

definition dec_acc :: "nat \<Rightarrow> byte list \<Rightarrow> nat" where
  "dec_acc a ds = foldl (\<lambda>a d. a * 10 + (unat d - 48)) a ds"

definition dec_val :: "byte list \<Rightarrow> nat" where
  "dec_val ds = dec_acc 0 ds"

definition dec_word :: "'a::len word \<Rightarrow> byte list \<Rightarrow> 'a word" where
  "dec_word a ds = foldl (\<lambda>a d. a * 10 + ucast d - 0x30) a ds"

lemma dec_acc_simps [simp]:
  "dec_acc a [] = a" "dec_acc a (d # ds) = dec_acc (a * 10 + (unat d - 48)) ds"
  "dec_acc a (xs @ ys) = dec_acc (dec_acc a xs) ys"
  by (simp_all add: dec_acc_def)

lemma dec_word_simps [simp]:
  "dec_word a [] = a" "dec_word a (d # ds) = dec_word (a * 10 + ucast d - 0x30) ds"
  "dec_word a (xs @ ys) = dec_word (dec_word a xs) ys"
  by (simp_all add: dec_word_def)

lemma digit_unat: "is_digit d \<Longrightarrow> 48 \<le> unat d \<and> unat d \<le> 57"
  by (simp add: word_le_nat_alt)

lemma ucast_digit: "is_digit d \<Longrightarrow> ucast d - 0x30 = (of_nat (unat d - 48) :: 'a::len word)"
  using digit_unat [of d] by (simp add: of_nat_diff)

lemma unat_of_nat_small: "n < 2 ^ LENGTH('a) \<Longrightarrow> unat (of_nat n :: 'a::len word) = n"
  by (simp add: unat_of_nat take_bit_nat_eq_self)

text \<open>One step of the loop, when it does not wrap around.\<close>

lemma unat_dec_step:
  fixes a :: "'a::len word"
  assumes "is_digit d" "unat a * 10 + (unat d - 48) < 2 ^ LENGTH('a)"
  shows "unat (a * 10 + ucast d - 0x30) = unat a * 10 + (unat d - 48)"
proof -
  have "a * 10 + ucast d - 0x30 = of_nat (unat a * 10 + (unat d - 48))"
    using ucast_digit [OF assms(1), where 'a = 'a] by (simp add: add_diff_eq [symmetric])
  then show ?thesis using assms(2) by (simp only: unat_of_nat_small)
qed

lemma dec_word_acc: "\<forall>d\<in>set ds. is_digit d \<Longrightarrow> dec_word (of_nat a) ds = of_nat (dec_acc a ds)"
proof (induction ds arbitrary: a)
  case (Cons d ds)
  then have eq: "of_nat a * 10 + ucast d - 0x30 = (of_nat (a * 10 + (unat d - 48)) :: 'a word)"
    using ucast_digit [of d, where 'a = 'a] by (simp add: add_diff_eq [symmetric])
  show ?case
    unfolding dec_word_simps dec_acc_simps eq using Cons.prems by (intro Cons.IH) simp
qed simp

lemma dec_word_val: "digits ds \<Longrightarrow> dec_word 0 ds = of_nat (dec_val ds)"
  using dec_word_acc [of ds 0] by (simp add: digits_def dec_val_def)

lemma dec_acc_mono: "a \<le> dec_acc a ds"
proof (induction ds arbitrary: a)
  case (Cons d ds)
  have "a \<le> a * 10 + (unat d - 48)" by simp
  also have "\<dots> \<le> dec_acc (a * 10 + (unat d - 48)) ds" by (rule Cons)
  finally show ?case by simp
qed simp

lemma dec_val_pos: "digits ds \<Longrightarrow> hd ds \<noteq> c_0 \<Longrightarrow> 0 < dec_val ds"
proof -
  assume "digits ds" "hd ds \<noteq> c_0"
  then obtain d xs where ds: "ds = d # xs" "is_digit d" "d \<noteq> c_0"
    by (cases ds) (auto simp: digits_def)
  then have "48 < unat d" by unat_arith
  with dec_acc_mono [of "unat d - 48" xs] show ?thesis by (simp add: ds dec_val_def)
qed

lemma dec_acc_bound: "\<forall>d\<in>set ds. is_digit d \<Longrightarrow> dec_acc a ds < (a + 1) * 10 ^ length ds"
proof (induction ds arbitrary: a)
  case (Cons d ds)
  have "dec_acc a (d # ds) < (a * 10 + (unat d - 48) + 1) * 10 ^ length ds"
    using Cons.IH [of "a * 10 + (unat d - 48)"] Cons.prems by simp
  also have "\<dots> \<le> ((a + 1) * 10) * 10 ^ length ds"
    using Cons.prems digit_unat [of d] by (intro mult_right_mono) auto
  finally show ?case by (simp add: algebra_simps)
qed simp

section \<open>Hexadecimal\<close>

definition is_xdigit :: "byte \<Rightarrow> bool" where
  "is_xdigit ch \<longleftrightarrow> is_digit ch \<or> c_a \<le> lower_bit ch \<and> lower_bit ch \<le> c_f"

definition xdigit :: "byte \<Rightarrow> nat" where
  "xdigit ch = (if is_digit ch then unat ch - 48 else unat (lower_bit ch) - 87)"

definition hex_acc :: "nat \<Rightarrow> byte list \<Rightarrow> nat" where
  "hex_acc a ds = foldl (\<lambda>a d. a * 16 + xdigit d) a ds"

definition hex_val :: "byte list \<Rightarrow> nat" where
  "hex_val ds = hex_acc 0 ds"

lemma hex_acc_simps [simp]:
  "hex_acc a [] = a" "hex_acc a (d # ds) = hex_acc (a * 16 + xdigit d) ds"
  "hex_acc a (xs @ ys) = hex_acc (hex_acc a xs) ys"
  by (simp_all add: hex_acc_def)

lemma xdigit_less: "is_xdigit ch \<Longrightarrow> xdigit ch < 16"
proof -
  have "is_xdigit ch \<longrightarrow> xdigit ch < 16" by (rule all_bytes) code_simp
  then show "is_xdigit ch \<Longrightarrow> xdigit ch < 16" by blast
qed

text \<open>The value as the parsers compute it on bytes.\<close>

lemma xdigit_byte:
  "is_xdigit ch \<Longrightarrow> (if c_0 \<le> ch \<and> ch \<le> c_9 then ch - c_0 else lower_bit ch - c_a + 10) = of_nat (xdigit ch)"
proof -
  have "is_xdigit ch \<longrightarrow>
      (if c_0 \<le> ch \<and> ch \<le> c_9 then ch - c_0 else lower_bit ch - c_a + 10) = of_nat (xdigit ch)"
    by (rule all_bytes) code_simp
  then show "is_xdigit ch \<Longrightarrow> ?thesis" by blast
qed

lemma hex_acc_bound: "\<forall>d\<in>set ds. is_xdigit d \<Longrightarrow> hex_acc a ds < (a + 1) * 16 ^ length ds"
proof (induction ds arbitrary: a)
  case (Cons d ds)
  have "hex_acc a (d # ds) < (a * 16 + xdigit d + 1) * 16 ^ length ds"
    using Cons.IH [of "a * 16 + xdigit d"] Cons.prems by simp
  also have "\<dots> \<le> ((a + 1) * 16) * 16 ^ length ds"
    using Cons.prems xdigit_less [of d] by (intro mult_right_mono) auto
  finally show ?case by (simp add: algebra_simps)
qed simp

lemma hex_acc_mono: "a \<le> hex_acc a ds"
proof (induction ds arbitrary: a)
  case (Cons d ds)
  have "a \<le> a * 16 + xdigit d" by simp
  also have "\<dots> \<le> hex_acc (a * 16 + xdigit d) ds" by (rule Cons)
  finally show ?case by simp
qed simp

end
