(* ===== verification/Http_Request_Line.thy ===== *)
theory Http_Request_Line
  imports Http_Request Digits
begin

text \<open>
  \<open>ngx_http_parse_request_line\<close> of \<open>src/http/ngx_http_parse.c\<close>: the state machine for
  \<open>METHOD SP URI SP HTTP/x.y CRLF\<close>. One definition per state (in the order of the
  \<open>switch\<close>), the step function that dispatches on the state, the loop and the epilogues
  behind \<open>NGX_AGAIN\<close> and \<open>done\<close>.
\<close>

section \<open>States\<close>

datatype rl_state =
    rl_sw_start
  | rl_sw_method
  | rl_sw_spaces_before_uri
  | rl_sw_schema
  | rl_sw_schema_slash
  | rl_sw_schema_slash_slash
  | rl_sw_host_start
  | rl_sw_host
  | rl_sw_host_end
  | rl_sw_host_ip_literal
  | rl_sw_port
  | rl_sw_host_http_09
  | rl_sw_after_slash_in_uri
  | rl_sw_check_uri
  | rl_sw_check_uri_http_09
  | rl_sw_uri
  | rl_sw_http_09
  | rl_sw_http_H
  | rl_sw_http_HT
  | rl_sw_http_HTT
  | rl_sw_http_HTTP
  | rl_sw_first_major_digit
  | rl_sw_major_digit
  | rl_sw_first_minor_digit
  | rl_sw_minor_digit
  | rl_sw_spaces_after_digit
  | rl_sw_almost_done

text \<open>The numbers of the \<open>enum\<close>, under which \<open>r->state\<close> keeps a state between calls.\<close>

definition rl_enum :: "rl_state list" where
  "rl_enum =
    [rl_sw_start, rl_sw_method, rl_sw_spaces_before_uri, rl_sw_schema, rl_sw_schema_slash,
     rl_sw_schema_slash_slash, rl_sw_host_start, rl_sw_host, rl_sw_host_end,
     rl_sw_host_ip_literal, rl_sw_port, rl_sw_host_http_09, rl_sw_after_slash_in_uri,
     rl_sw_check_uri, rl_sw_check_uri_http_09, rl_sw_uri, rl_sw_http_09, rl_sw_http_H,
     rl_sw_http_HT, rl_sw_http_HTT, rl_sw_http_HTTP, rl_sw_first_major_digit,
     rl_sw_major_digit, rl_sw_first_minor_digit, rl_sw_minor_digit,
     rl_sw_spaces_after_digit, rl_sw_almost_done]"

fun rl_code :: "rl_state \<Rightarrow> nat" where
  "rl_code rl_sw_start = 0"
| "rl_code rl_sw_method = 1"
| "rl_code rl_sw_spaces_before_uri = 2"
| "rl_code rl_sw_schema = 3"
| "rl_code rl_sw_schema_slash = 4"
| "rl_code rl_sw_schema_slash_slash = 5"
| "rl_code rl_sw_host_start = 6"
| "rl_code rl_sw_host = 7"
| "rl_code rl_sw_host_end = 8"
| "rl_code rl_sw_host_ip_literal = 9"
| "rl_code rl_sw_port = 10"
| "rl_code rl_sw_host_http_09 = 11"
| "rl_code rl_sw_after_slash_in_uri = 12"
| "rl_code rl_sw_check_uri = 13"
| "rl_code rl_sw_check_uri_http_09 = 14"
| "rl_code rl_sw_uri = 15"
| "rl_code rl_sw_http_09 = 16"
| "rl_code rl_sw_http_H = 17"
| "rl_code rl_sw_http_HT = 18"
| "rl_code rl_sw_http_HTT = 19"
| "rl_code rl_sw_http_HTTP = 20"
| "rl_code rl_sw_first_major_digit = 21"
| "rl_code rl_sw_major_digit = 22"
| "rl_code rl_sw_first_minor_digit = 23"
| "rl_code rl_sw_minor_digit = 24"
| "rl_code rl_sw_spaces_after_digit = 25"
| "rl_code rl_sw_almost_done = 26"

definition rl_decode :: "nat \<Rightarrow> rl_state option" where
  "rl_decode n = (if n < length rl_enum then Some (rl_enum ! n) else None)"

lemma rl_decode_code [simp]: "rl_decode (rl_code st) = Some st"
  by (cases st) (simp_all add: rl_decode_def rl_enum_def)

type_synonym rl_action = "(parse_exit, rl_state \<times> ngx_http_request_t) action"

section \<open>Method names\<close>

text \<open>
  The comparison macros of the little-endian configuration, which load four bytes at
  once. \<open>ngx_str6cmp\<close> loads two bytes more than it compares and masks them out.
\<close>

definition ngx_str4cmp :: "mem \<Rightarrow> nat \<Rightarrow> byte \<Rightarrow> byte \<Rightarrow> byte \<Rightarrow> byte \<Rightarrow> bool" where
  "ngx_str4cmp mm m c0 c1 c2 c3 \<longleftrightarrow> load32 mm m = pack32 c0 c1 c2 c3"

definition ngx_str3_cmp :: "mem \<Rightarrow> nat \<Rightarrow> byte \<Rightarrow> byte \<Rightarrow> byte \<Rightarrow> byte \<Rightarrow> bool" where
  "ngx_str3_cmp mm m c0 c1 c2 c3 \<longleftrightarrow> load32 mm m = pack32 c0 c1 c2 c3"

definition ngx_str3Ocmp :: "mem \<Rightarrow> nat \<Rightarrow> byte \<Rightarrow> byte \<Rightarrow> byte \<Rightarrow> byte \<Rightarrow> bool" where
  "ngx_str3Ocmp mm m c0 c1 c2 c3 \<longleftrightarrow> load32 mm m = pack32 c0 c1 c2 c3"

definition ngx_str5cmp :: "mem \<Rightarrow> nat \<Rightarrow> byte \<Rightarrow> byte \<Rightarrow> byte \<Rightarrow> byte \<Rightarrow> byte \<Rightarrow> bool" where
  "ngx_str5cmp mm m c0 c1 c2 c3 c4 \<longleftrightarrow>
     load32 mm m = pack32 c0 c1 c2 c3 \<and> mm (m + 4) = c4"

definition ngx_str6cmp ::
  "mem \<Rightarrow> nat \<Rightarrow> byte \<Rightarrow> byte \<Rightarrow> byte \<Rightarrow> byte \<Rightarrow> byte \<Rightarrow> byte \<Rightarrow> bool" where
  "ngx_str6cmp mm m c0 c1 c2 c3 c4 c5 \<longleftrightarrow>
     load32 mm m = pack32 c0 c1 c2 c3
     \<and> load32 mm (m + 4) AND 0xffff = push_bit 8 (ucast c5) OR ucast c4"

definition ngx_str7_cmp ::
  "mem \<Rightarrow> nat \<Rightarrow> byte \<Rightarrow> byte \<Rightarrow> byte \<Rightarrow> byte \<Rightarrow> byte \<Rightarrow> byte \<Rightarrow> byte \<Rightarrow> byte \<Rightarrow> bool" where
  "ngx_str7_cmp mm m c0 c1 c2 c3 c4 c5 c6 c7 \<longleftrightarrow>
     load32 mm m = pack32 c0 c1 c2 c3 \<and> load32 mm (m + 4) = pack32 c4 c5 c6 c7"

definition ngx_str8cmp ::
  "mem \<Rightarrow> nat \<Rightarrow> byte \<Rightarrow> byte \<Rightarrow> byte \<Rightarrow> byte \<Rightarrow> byte \<Rightarrow> byte \<Rightarrow> byte \<Rightarrow> byte \<Rightarrow> bool" where
  "ngx_str8cmp mm m c0 c1 c2 c3 c4 c5 c6 c7 \<longleftrightarrow>
     load32 mm m = pack32 c0 c1 c2 c3 \<and> load32 mm (m + 4) = pack32 c4 c5 c6 c7"

definition ngx_str9cmp ::
  "mem \<Rightarrow> nat \<Rightarrow> byte \<Rightarrow> byte \<Rightarrow> byte \<Rightarrow> byte \<Rightarrow> byte \<Rightarrow> byte \<Rightarrow> byte \<Rightarrow> byte \<Rightarrow> byte \<Rightarrow> bool"
where
  "ngx_str9cmp mm m c0 c1 c2 c3 c4 c5 c6 c7 c8 \<longleftrightarrow>
     load32 mm m = pack32 c0 c1 c2 c3 \<and> load32 mm (m + 4) = pack32 c4 c5 c6 c7
     \<and> mm (m + 8) = c8"

text \<open>
  The \<open>switch (p - m)\<close> of the state \<open>sw_method\<close>: the method of a name of \<open>len\<close> bytes at
  \<open>m\<close>, \<open>None\<close> where \<open>r->method\<close> is left alone.
\<close>

definition rl_find_method :: "mem \<Rightarrow> nat \<Rightarrow> nat \<Rightarrow> ngx_uint_t option" where
  "rl_find_method mm m len =
    (if len = 3 then
       (if ngx_str3_cmp mm m c_G c_E c_T c_sp then Some NGX_HTTP_GET
        else if ngx_str3_cmp mm m c_P c_U c_T c_sp then Some NGX_HTTP_PUT
        else None)
     else if len = 4 then
       (if mm (m + 1) = c_O then
          (if ngx_str3Ocmp mm m c_P c_O c_S c_T then Some NGX_HTTP_POST
           else if ngx_str3Ocmp mm m c_C c_O c_P c_Y then Some NGX_HTTP_COPY
           else if ngx_str3Ocmp mm m c_M c_O c_V c_E then Some NGX_HTTP_MOVE
           else if ngx_str3Ocmp mm m c_L c_O c_C c_K then Some NGX_HTTP_LOCK
           else None)
        else if ngx_str4cmp mm m c_H c_E c_A c_D then Some NGX_HTTP_HEAD
        else None)
     else if len = 5 then
       (if ngx_str5cmp mm m c_M c_K c_C c_O c_L then Some NGX_HTTP_MKCOL
        else if ngx_str5cmp mm m c_P c_A c_T c_C c_H then Some NGX_HTTP_PATCH
        else if ngx_str5cmp mm m c_T c_R c_A c_C c_E then Some NGX_HTTP_TRACE
        else None)
     else if len = 6 then
       (if ngx_str6cmp mm m c_D c_E c_L c_E c_T c_E then Some NGX_HTTP_DELETE
        else if ngx_str6cmp mm m c_U c_N c_L c_O c_C c_K then Some NGX_HTTP_UNLOCK
        else None)
     else if len = 7 then
       (if ngx_str7_cmp mm m c_O c_P c_T c_I c_O c_N c_S c_sp then Some NGX_HTTP_OPTIONS
        else None)
     else if len = 8 then
       (if ngx_str8cmp mm m c_P c_R c_O c_P c_F c_I c_N c_D then Some NGX_HTTP_PROPFIND
        else None)
     else if len = 9 then
       (if ngx_str9cmp mm m c_P c_R c_O c_P c_P c_A c_T c_C c_H then Some NGX_HTTP_PROPPATCH
        else None)
     else None)"

section \<open>One definition per state\<close>

text \<open>
  Each handler gets the memory, the position \<open>p\<close> and the request, and reads \<open>ch = *p\<close>.
  \<open>break\<close> is \<open>Next\<close> with the local variable \<open>state\<close>, \<open>return\<close> and \<open>goto\<close> are \<open>Exit\<close>.
\<close>

abbreviation rl_invalid :: "rl_state \<Rightarrow> ngx_http_request_t \<Rightarrow> rl_action" where
  "rl_invalid st r \<equiv> Exit (Return NGX_HTTP_PARSE_INVALID_REQUEST) (st, r)"

definition rl_start :: "mem \<Rightarrow> nat \<Rightarrow> ngx_http_request_t \<Rightarrow> rl_action" where
  "rl_start mm p r =
    (let ch = mm p; r = r\<lparr>r_request_start := Some p\<rparr> in
     if ch = CR \<or> ch = LF then Next (rl_sw_start, r)
     else if (ch < c_A \<or> ch > c_Z) \<and> ch \<noteq> c_under
     then Exit (Return NGX_HTTP_PARSE_INVALID_METHOD) (rl_sw_start, r)
     else Next (rl_sw_method, r))"

definition rl_set_method :: "mem \<Rightarrow> nat \<Rightarrow> ngx_http_request_t \<Rightarrow> ngx_http_request_t" where
  "rl_set_method mm p r =
    (case r_request_start r of
       None \<Rightarrow> r
     | Some m \<Rightarrow>
         (case rl_find_method mm m (p - m) of
            None \<Rightarrow> r
          | Some v \<Rightarrow> r\<lparr>r_method := v\<rparr>))"

definition rl_method :: "mem \<Rightarrow> nat \<Rightarrow> ngx_http_request_t \<Rightarrow> rl_action" where
  "rl_method mm p r =
    (let ch = mm p in
     if ch = c_sp then
       Next (rl_sw_spaces_before_uri, rl_set_method mm p (r\<lparr>r_method_end := Some (p - 1)\<rparr>))
     else if (ch < c_A \<or> ch > c_Z) \<and> ch \<noteq> c_under
     then Exit (Return NGX_HTTP_PARSE_INVALID_METHOD) (rl_sw_method, r)
     else Next (rl_sw_method, r))"

definition rl_spaces_before_uri :: "mem \<Rightarrow> nat \<Rightarrow> ngx_http_request_t \<Rightarrow> rl_action" where
  "rl_spaces_before_uri mm p r =
    (let ch = mm p; c = lower_bit ch in
     if ch = c_slash then Next (rl_sw_after_slash_in_uri, r\<lparr>r_uri_start := Some p\<rparr>)
     else if c_a \<le> c \<and> c \<le> c_z then Next (rl_sw_schema, r\<lparr>r_schema_start := Some p\<rparr>)
     else if ch = c_sp then Next (rl_sw_spaces_before_uri, r)
     else rl_invalid rl_sw_spaces_before_uri r)"

definition rl_schema :: "mem \<Rightarrow> nat \<Rightarrow> ngx_http_request_t \<Rightarrow> rl_action" where
  "rl_schema mm p r =
    (let ch = mm p; c = lower_bit ch in
     if c_a \<le> c \<and> c \<le> c_z then Next (rl_sw_schema, r)
     else if ch = c_colon then Next (rl_sw_schema_slash, r\<lparr>r_schema_end := Some p\<rparr>)
     else rl_invalid rl_sw_schema r)"

definition rl_schema_slash :: "mem \<Rightarrow> nat \<Rightarrow> ngx_http_request_t \<Rightarrow> rl_action" where
  "rl_schema_slash mm p r =
    (if mm p = c_slash then Next (rl_sw_schema_slash_slash, r)
     else rl_invalid rl_sw_schema_slash r)"

definition rl_schema_slash_slash :: "mem \<Rightarrow> nat \<Rightarrow> ngx_http_request_t \<Rightarrow> rl_action" where
  "rl_schema_slash_slash mm p r =
    (if mm p = c_slash then Next (rl_sw_host_start, r)
     else rl_invalid rl_sw_schema_slash_slash r)"

text \<open>
  The single \<open>/\<close> of \<open>http://\<close> stands for the missing path: \<open>uri_start\<close> and \<open>uri_end\<close> are
  taken from \<open>schema_end\<close>.
\<close>

definition rl_host_space :: "ngx_http_request_t \<Rightarrow> rl_action" where
  "rl_host_space r =
     Next (rl_sw_host_http_09,
       r\<lparr>r_uri_start := map_option (\<lambda>e. e + 1) (r_schema_end r),
         r_uri_end := map_option (\<lambda>e. e + 2) (r_schema_end r)\<rparr>)"

definition rl_host_end :: "mem \<Rightarrow> nat \<Rightarrow> ngx_http_request_t \<Rightarrow> rl_action" where
  "rl_host_end mm p r =
    (let ch = mm p; r = r\<lparr>r_host_end := Some p\<rparr> in
     if ch = c_colon then Next (rl_sw_port, r)
     else if ch = c_slash then Next (rl_sw_after_slash_in_uri, r\<lparr>r_uri_start := Some p\<rparr>)
     else if ch = c_sp then rl_host_space r
     else rl_invalid rl_sw_host_end r)"

text \<open>The state \<open>sw_host\<close> falls through to \<open>sw_host_end\<close>.\<close>

definition rl_host :: "mem \<Rightarrow> nat \<Rightarrow> ngx_http_request_t \<Rightarrow> rl_action" where
  "rl_host mm p r =
    (let ch = mm p; c = lower_bit ch in
     if c_a \<le> c \<and> c \<le> c_z then Next (rl_sw_host, r)
     else if (c_0 \<le> ch \<and> ch \<le> c_9) \<or> ch = c_dot \<or> ch = c_dash then Next (rl_sw_host, r)
     else rl_host_end mm p r)"

text \<open>The state \<open>sw_host_start\<close> falls through to \<open>sw_host\<close>.\<close>

definition rl_host_start :: "mem \<Rightarrow> nat \<Rightarrow> ngx_http_request_t \<Rightarrow> rl_action" where
  "rl_host_start mm p r =
    (let r = r\<lparr>r_host_start := Some p\<rparr> in
     if mm p = c_lbr then Next (rl_sw_host_ip_literal, r)
     else rl_host mm p r)"

definition rl_host_ip_literal :: "mem \<Rightarrow> nat \<Rightarrow> ngx_http_request_t \<Rightarrow> rl_action" where
  "rl_host_ip_literal mm p r =
    (let ch = mm p; c = lower_bit ch in
     if c_0 \<le> ch \<and> ch \<le> c_9 then Next (rl_sw_host_ip_literal, r)
     else if c_a \<le> c \<and> c \<le> c_z then Next (rl_sw_host_ip_literal, r)
     else if ch = c_colon then Next (rl_sw_host_ip_literal, r)
     else if ch = c_rbr then Next (rl_sw_host_end, r)
     else if ch = c_dash \<or> ch = c_dot \<or> ch = c_under \<or> ch = c_tilde
     then Next (rl_sw_host_ip_literal, r)
     else if ch = c_excl \<or> ch = c_dollar \<or> ch = c_amp \<or> ch = c_quote \<or> ch = c_lpar
       \<or> ch = c_rpar \<or> ch = c_star \<or> ch = c_plus \<or> ch = c_comma \<or> ch = c_semi \<or> ch = c_eq
     then Next (rl_sw_host_ip_literal, r)
     else rl_invalid rl_sw_host_ip_literal r)"

definition rl_port :: "mem \<Rightarrow> nat \<Rightarrow> ngx_http_request_t \<Rightarrow> rl_action" where
  "rl_port mm p r =
    (let ch = mm p in
     if c_0 \<le> ch \<and> ch \<le> c_9 then Next (rl_sw_port, r)
     else if ch = c_slash
     then Next (rl_sw_after_slash_in_uri, r\<lparr>r_port_end := Some p, r_uri_start := Some p\<rparr>)
     else if ch = c_sp then rl_host_space (r\<lparr>r_port_end := Some p\<rparr>)
     else rl_invalid rl_sw_port r)"

definition rl_host_http_09 :: "mem \<Rightarrow> nat \<Rightarrow> ngx_http_request_t \<Rightarrow> rl_action" where
  "rl_host_http_09 mm p r =
    (let ch = mm p in
     if ch = c_sp then Next (rl_sw_host_http_09, r)
     else if ch = CR then Next (rl_sw_almost_done, r\<lparr>r_http_minor := 9\<rparr>)
     else if ch = LF then Exit Goto_done (rl_sw_host_http_09, r\<lparr>r_http_minor := 9\<rparr>)
     else if ch = c_H then Next (rl_sw_http_H, r\<lparr>r_http_protocol_data := Some p\<rparr>)
     else rl_invalid rl_sw_host_http_09 r)"

definition rl_after_slash_in_uri :: "mem \<Rightarrow> nat \<Rightarrow> ngx_http_request_t \<Rightarrow> rl_action" where
  "rl_after_slash_in_uri mm p r =
    (let ch = mm p in
     if usual ch then Next (rl_sw_check_uri, r)
     else if ch = c_sp then Next (rl_sw_check_uri_http_09, r\<lparr>r_uri_end := Some p\<rparr>)
     else if ch = CR then Next (rl_sw_almost_done, r\<lparr>r_uri_end := Some p, r_http_minor := 9\<rparr>)
     else if ch = LF
     then Exit Goto_done (rl_sw_after_slash_in_uri, r\<lparr>r_uri_end := Some p, r_http_minor := 9\<rparr>)
     else if ch = c_dot then Next (rl_sw_uri, r\<lparr>r_complex_uri := True\<rparr>)
     else if ch = c_percent then Next (rl_sw_uri, r\<lparr>r_quoted_uri := True\<rparr>)
     else if ch = c_slash then Next (rl_sw_uri, r\<lparr>r_complex_uri := True\<rparr>)
     else if ch = c_quest then Next (rl_sw_uri, r\<lparr>r_args_start := Some (p + 1)\<rparr>)
     else if ch = c_hash then Next (rl_sw_uri, r\<lparr>r_complex_uri := True\<rparr>)
     else if ch = c_plus then Next (rl_sw_after_slash_in_uri, r\<lparr>r_plus_in_uri := True\<rparr>)
     else if ch = NUL then rl_invalid rl_sw_after_slash_in_uri r
     else Next (rl_sw_check_uri, r))"

definition rl_check_uri :: "mem \<Rightarrow> nat \<Rightarrow> ngx_http_request_t \<Rightarrow> rl_action" where
  "rl_check_uri mm p r =
    (let ch = mm p in
     if usual ch then Next (rl_sw_check_uri, r)
     else if ch = c_slash then Next (rl_sw_after_slash_in_uri, r\<lparr>r_uri_ext := None\<rparr>)
     else if ch = c_dot then Next (rl_sw_check_uri, r\<lparr>r_uri_ext := Some (p + 1)\<rparr>)
     else if ch = c_sp then Next (rl_sw_check_uri_http_09, r\<lparr>r_uri_end := Some p\<rparr>)
     else if ch = CR then Next (rl_sw_almost_done, r\<lparr>r_uri_end := Some p, r_http_minor := 9\<rparr>)
     else if ch = LF
     then Exit Goto_done (rl_sw_check_uri, r\<lparr>r_uri_end := Some p, r_http_minor := 9\<rparr>)
     else if ch = c_percent then Next (rl_sw_uri, r\<lparr>r_quoted_uri := True\<rparr>)
     else if ch = c_quest then Next (rl_sw_uri, r\<lparr>r_args_start := Some (p + 1)\<rparr>)
     else if ch = c_hash then Next (rl_sw_uri, r\<lparr>r_complex_uri := True\<rparr>)
     else if ch = c_plus then Next (rl_sw_check_uri, r\<lparr>r_plus_in_uri := True\<rparr>)
     else if ch = NUL then rl_invalid rl_sw_check_uri r
     else Next (rl_sw_check_uri, r))"

text \<open>
  In the default case \<open>p--\<close> makes the loop read the same byte again, now in the state
  \<open>sw_check_uri\<close>.
\<close>

definition rl_check_uri_http_09 :: "mem \<Rightarrow> nat \<Rightarrow> ngx_http_request_t \<Rightarrow> rl_action" where
  "rl_check_uri_http_09 mm p r =
    (let ch = mm p in
     if ch = c_sp then Next (rl_sw_check_uri_http_09, r)
     else if ch = CR then Next (rl_sw_almost_done, r\<lparr>r_http_minor := 9\<rparr>)
     else if ch = LF then Exit Goto_done (rl_sw_check_uri_http_09, r\<lparr>r_http_minor := 9\<rparr>)
     else if ch = c_H then Next (rl_sw_http_H, r\<lparr>r_http_protocol_data := Some p\<rparr>)
     else rl_check_uri mm p (r\<lparr>r_space_in_uri := True\<rparr>))"

definition rl_uri :: "mem \<Rightarrow> nat \<Rightarrow> ngx_http_request_t \<Rightarrow> rl_action" where
  "rl_uri mm p r =
    (let ch = mm p in
     if usual ch then Next (rl_sw_uri, r)
     else if ch = c_sp then Next (rl_sw_http_09, r\<lparr>r_uri_end := Some p\<rparr>)
     else if ch = CR then Next (rl_sw_almost_done, r\<lparr>r_uri_end := Some p, r_http_minor := 9\<rparr>)
     else if ch = LF
     then Exit Goto_done (rl_sw_uri, r\<lparr>r_uri_end := Some p, r_http_minor := 9\<rparr>)
     else if ch = c_hash then Next (rl_sw_uri, r\<lparr>r_complex_uri := True\<rparr>)
     else if ch = NUL then rl_invalid rl_sw_uri r
     else Next (rl_sw_uri, r))"

text \<open>As in \<open>sw_check_uri_http_09\<close>, \<open>p--\<close> gives the byte to the state \<open>sw_uri\<close>.\<close>

definition rl_http_09 :: "mem \<Rightarrow> nat \<Rightarrow> ngx_http_request_t \<Rightarrow> rl_action" where
  "rl_http_09 mm p r =
    (let ch = mm p in
     if ch = c_sp then Next (rl_sw_http_09, r)
     else if ch = CR then Next (rl_sw_almost_done, r\<lparr>r_http_minor := 9\<rparr>)
     else if ch = LF then Exit Goto_done (rl_sw_http_09, r\<lparr>r_http_minor := 9\<rparr>)
     else if ch = c_H then Next (rl_sw_http_H, r\<lparr>r_http_protocol_data := Some p\<rparr>)
     else rl_uri mm p (r\<lparr>r_space_in_uri := True\<rparr>))"

definition rl_expect ::
  "byte \<Rightarrow> rl_state \<Rightarrow> rl_state \<Rightarrow> mem \<Rightarrow> nat \<Rightarrow> ngx_http_request_t \<Rightarrow> rl_action" where
  "rl_expect c st st' mm p r = (if mm p = c then Next (st', r) else rl_invalid st r)"

definition rl_first_major_digit :: "mem \<Rightarrow> nat \<Rightarrow> ngx_http_request_t \<Rightarrow> rl_action" where
  "rl_first_major_digit mm p r =
    (let ch = mm p in
     if ch < c_1 \<or> ch > c_9 then rl_invalid rl_sw_first_major_digit r
     else Next (rl_sw_major_digit, r\<lparr>r_http_major := ucast (ch - c_0)\<rparr>))"

definition rl_major_digit :: "mem \<Rightarrow> nat \<Rightarrow> ngx_http_request_t \<Rightarrow> rl_action" where
  "rl_major_digit mm p r =
    (let ch = mm p in
     if ch = c_dot then Next (rl_sw_first_minor_digit, r)
     else if ch < c_0 \<or> ch > c_9 then rl_invalid rl_sw_major_digit r
     else Next (rl_sw_major_digit, r\<lparr>r_http_major := r_http_major r * 10 + ucast ch - 0x30\<rparr>))"

definition rl_first_minor_digit :: "mem \<Rightarrow> nat \<Rightarrow> ngx_http_request_t \<Rightarrow> rl_action" where
  "rl_first_minor_digit mm p r =
    (let ch = mm p in
     if ch < c_0 \<or> ch > c_9 then rl_invalid rl_sw_first_minor_digit r
     else Next (rl_sw_minor_digit, r\<lparr>r_http_minor := ucast (ch - c_0)\<rparr>))"

definition rl_minor_digit :: "mem \<Rightarrow> nat \<Rightarrow> ngx_http_request_t \<Rightarrow> rl_action" where
  "rl_minor_digit mm p r =
    (let ch = mm p in
     if ch = CR then Next (rl_sw_almost_done, r)
     else if ch = LF then Exit Goto_done (rl_sw_minor_digit, r)
     else if ch = c_sp then Next (rl_sw_spaces_after_digit, r)
     else if ch < c_0 \<or> ch > c_9 then rl_invalid rl_sw_minor_digit r
     else Next (rl_sw_minor_digit, r\<lparr>r_http_minor := r_http_minor r * 10 + ucast ch - 0x30\<rparr>))"

definition rl_spaces_after_digit :: "mem \<Rightarrow> nat \<Rightarrow> ngx_http_request_t \<Rightarrow> rl_action" where
  "rl_spaces_after_digit mm p r =
    (let ch = mm p in
     if ch = c_sp then Next (rl_sw_spaces_after_digit, r)
     else if ch = CR then Next (rl_sw_almost_done, r)
     else if ch = LF then Exit Goto_done (rl_sw_spaces_after_digit, r)
     else rl_invalid rl_sw_spaces_after_digit r)"

definition rl_almost_done :: "mem \<Rightarrow> nat \<Rightarrow> ngx_http_request_t \<Rightarrow> rl_action" where
  "rl_almost_done mm p r =
    (let r = r\<lparr>r_request_end := Some (p - 1)\<rparr> in
     if mm p = LF then Exit Goto_done (rl_sw_almost_done, r)
     else rl_invalid rl_sw_almost_done r)"

section \<open>The loop\<close>

fun rl_step :: "mem \<Rightarrow> nat \<Rightarrow> rl_state \<times> ngx_http_request_t \<Rightarrow> rl_action" where
  "rl_step mm p (st, r) =
    (case st of
       rl_sw_start \<Rightarrow> rl_start mm p r
     | rl_sw_method \<Rightarrow> rl_method mm p r
     | rl_sw_spaces_before_uri \<Rightarrow> rl_spaces_before_uri mm p r
     | rl_sw_schema \<Rightarrow> rl_schema mm p r
     | rl_sw_schema_slash \<Rightarrow> rl_schema_slash mm p r
     | rl_sw_schema_slash_slash \<Rightarrow> rl_schema_slash_slash mm p r
     | rl_sw_host_start \<Rightarrow> rl_host_start mm p r
     | rl_sw_host \<Rightarrow> rl_host mm p r
     | rl_sw_host_end \<Rightarrow> rl_host_end mm p r
     | rl_sw_host_ip_literal \<Rightarrow> rl_host_ip_literal mm p r
     | rl_sw_port \<Rightarrow> rl_port mm p r
     | rl_sw_host_http_09 \<Rightarrow> rl_host_http_09 mm p r
     | rl_sw_after_slash_in_uri \<Rightarrow> rl_after_slash_in_uri mm p r
     | rl_sw_check_uri \<Rightarrow> rl_check_uri mm p r
     | rl_sw_check_uri_http_09 \<Rightarrow> rl_check_uri_http_09 mm p r
     | rl_sw_uri \<Rightarrow> rl_uri mm p r
     | rl_sw_http_09 \<Rightarrow> rl_http_09 mm p r
     | rl_sw_http_H \<Rightarrow> rl_expect c_T rl_sw_http_H rl_sw_http_HT mm p r
     | rl_sw_http_HT \<Rightarrow> rl_expect c_T rl_sw_http_HT rl_sw_http_HTT mm p r
     | rl_sw_http_HTT \<Rightarrow> rl_expect c_P rl_sw_http_HTT rl_sw_http_HTTP mm p r
     | rl_sw_http_HTTP \<Rightarrow> rl_expect c_slash rl_sw_http_HTTP rl_sw_first_major_digit mm p r
     | rl_sw_first_major_digit \<Rightarrow> rl_first_major_digit mm p r
     | rl_sw_major_digit \<Rightarrow> rl_major_digit mm p r
     | rl_sw_first_minor_digit \<Rightarrow> rl_first_minor_digit mm p r
     | rl_sw_minor_digit \<Rightarrow> rl_minor_digit mm p r
     | rl_sw_spaces_after_digit \<Rightarrow> rl_spaces_after_digit mm p r
     | rl_sw_almost_done \<Rightarrow> rl_almost_done mm p r)"

declare rl_step.simps [simp del]

text \<open>The code behind the label \<open>done\<close>, for the position \<open>p\<close> of the line feed.\<close>

definition rl_done :: "nat \<Rightarrow> ngx_http_request_t \<Rightarrow> ngx_buf_t \<Rightarrow>
    ngx_rc \<times> ngx_http_request_t \<times> ngx_buf_t" where
  "rl_done p r b =
    (let b = b\<lparr>b_pos := p + 1\<rparr>;
         r = (if r_request_end r = None then r\<lparr>r_request_end := Some p\<rparr> else r);
         r = r\<lparr>r_http_version := ucast (r_http_major r) * 1000 + ucast (r_http_minor r)\<rparr>;
         r = r\<lparr>r_state := rl_code rl_sw_start\<rparr>
     in if r_http_version r = 9 \<and> r_method r \<noteq> NGX_HTTP_GET
        then (NGX_HTTP_PARSE_INVALID_09_METHOD, r, b)
        else (NGX_OK, r, b))"

text \<open>
  Between calls the state lives in \<open>r->state\<close>. A number there that is no state matches
  no case of the \<open>switch\<close>: the loop runs to the end of the buffer without effect.
\<close>

definition rl_save :: "rl_state \<Rightarrow> ngx_http_request_t \<Rightarrow> ngx_http_request_t" where
  "rl_save st r = r\<lparr>r_state := rl_code st\<rparr>"

definition rl_load :: "ngx_http_request_t \<Rightarrow> rl_state option" where
  "rl_load r = rl_decode (r_state r)"

fun rl_leave :: "parse_exit \<Rightarrow> nat \<Rightarrow> rl_state \<Rightarrow> ngx_http_request_t \<Rightarrow> ngx_buf_t \<Rightarrow>
    ngx_rc \<times> ngx_http_request_t \<times> ngx_buf_t" where
  "rl_leave Goto_done p st r b = rl_done p r b"
| "rl_leave (Return rc) p st r b = (rc, r, b)"
| "rl_leave Goto_header_done p st r b = (NGX_ERROR, r, b)"

definition ngx_http_parse_request_line ::
  "ngx_http_request_t \<Rightarrow> ngx_buf_t \<Rightarrow> ngx_rc \<times> ngx_http_request_t \<times> ngx_buf_t" where
  "ngx_http_parse_request_line r b =
    (case rl_load r of
       None \<Rightarrow> (NGX_AGAIN, r, b\<lparr>b_pos := max (b_pos b) (b_last b)\<rparr>)
     | Some st \<Rightarrow>
         (case scan rl_step (b_mem b) (b_last b) (b_pos b) (st, r) of
            Again p (st', r') \<Rightarrow> (NGX_AGAIN, rl_save st' r', b\<lparr>b_pos := p\<rparr>)
          | Exited x p (st', r') \<Rightarrow> rl_leave x p st' r' b))"

section \<open>Method names: the word comparisons and a table\<close>

definition http_methods :: "(byte list \<times> ngx_uint_t) list" where
  "http_methods =
    [(bytes ''GET'', NGX_HTTP_GET), (bytes ''PUT'', NGX_HTTP_PUT),
     (bytes ''POST'', NGX_HTTP_POST), (bytes ''COPY'', NGX_HTTP_COPY),
     (bytes ''MOVE'', NGX_HTTP_MOVE), (bytes ''LOCK'', NGX_HTTP_LOCK),
     (bytes ''HEAD'', NGX_HTTP_HEAD), (bytes ''MKCOL'', NGX_HTTP_MKCOL),
     (bytes ''PATCH'', NGX_HTTP_PATCH), (bytes ''TRACE'', NGX_HTTP_TRACE),
     (bytes ''DELETE'', NGX_HTTP_DELETE), (bytes ''UNLOCK'', NGX_HTTP_UNLOCK),
     (bytes ''OPTIONS'', NGX_HTTP_OPTIONS), (bytes ''PROPFIND'', NGX_HTTP_PROPFIND),
     (bytes ''PROPPATCH'', NGX_HTTP_PROPPATCH)]"

lemmas ngx_strcmp_defs =
  ngx_str3_cmp_def ngx_str3Ocmp_def ngx_str4cmp_def ngx_str5cmp_def ngx_str7_cmp_def
  ngx_str8cmp_def ngx_str9cmp_def

lemma load32_4:
  "load32 mm (m + 4) = pack32 (mm (m + 4)) (mm (m + 5)) (mm (m + 6)) (mm (m + 7))"
proof -
  have "m + 4 + 1 = m + 5" "m + 4 + 2 = m + 6" "m + 4 + 3 = m + 7" by simp_all
  then show ?thesis by (simp only: load32_def)
qed

lemma ngx_str6cmp_bytes:
  "ngx_str6cmp mm m c0 c1 c2 c3 c4 c5 \<longleftrightarrow>
     load32 mm m = pack32 c0 c1 c2 c3 \<and> mm (m + 4) = c4 \<and> mm (m + 5) = c5"
proof -
  have "push_bit 8 (ucast c5) OR ucast c4 = pack32 c4 c5 0 0"
    by (simp add: pack32_def)
  then show ?thesis
    by (simp add: ngx_str6cmp_def load32_4 pack32_mask16 pack32_inject)
qed

lemma ngx_strcmp_bytes:
  "ngx_str3_cmp mm m c0 c1 c2 c3 \<longleftrightarrow>
     mm m = c0 \<and> mm (m + 1) = c1 \<and> mm (m + 2) = c2 \<and> mm (m + 3) = c3"
  "ngx_str3Ocmp mm m c0 c1 c2 c3 \<longleftrightarrow>
     mm m = c0 \<and> mm (m + 1) = c1 \<and> mm (m + 2) = c2 \<and> mm (m + 3) = c3"
  "ngx_str4cmp mm m c0 c1 c2 c3 \<longleftrightarrow>
     mm m = c0 \<and> mm (m + 1) = c1 \<and> mm (m + 2) = c2 \<and> mm (m + 3) = c3"
  "ngx_str5cmp mm m c0 c1 c2 c3 c4 \<longleftrightarrow>
     mm m = c0 \<and> mm (m + 1) = c1 \<and> mm (m + 2) = c2 \<and> mm (m + 3) = c3 \<and> mm (m + 4) = c4"
  "ngx_str6cmp mm m c0 c1 c2 c3 c4 c5 \<longleftrightarrow>
     mm m = c0 \<and> mm (m + 1) = c1 \<and> mm (m + 2) = c2 \<and> mm (m + 3) = c3 \<and> mm (m + 4) = c4
     \<and> mm (m + 5) = c5"
  "ngx_str7_cmp mm m c0 c1 c2 c3 c4 c5 c6 c7 \<longleftrightarrow>
     mm m = c0 \<and> mm (m + 1) = c1 \<and> mm (m + 2) = c2 \<and> mm (m + 3) = c3 \<and> mm (m + 4) = c4
     \<and> mm (m + 5) = c5 \<and> mm (m + 6) = c6 \<and> mm (m + 7) = c7"
  "ngx_str8cmp mm m c0 c1 c2 c3 c4 c5 c6 c7 \<longleftrightarrow>
     mm m = c0 \<and> mm (m + 1) = c1 \<and> mm (m + 2) = c2 \<and> mm (m + 3) = c3 \<and> mm (m + 4) = c4
     \<and> mm (m + 5) = c5 \<and> mm (m + 6) = c6 \<and> mm (m + 7) = c7"
  "ngx_str9cmp mm m c0 c1 c2 c3 c4 c5 c6 c7 c8 \<longleftrightarrow>
     mm m = c0 \<and> mm (m + 1) = c1 \<and> mm (m + 2) = c2 \<and> mm (m + 3) = c3 \<and> mm (m + 4) = c4
     \<and> mm (m + 5) = c5 \<and> mm (m + 6) = c6 \<and> mm (m + 7) = c7 \<and> mm (m + 8) = c8"
  by (simp_all only: ngx_strcmp_defs ngx_str6cmp_bytes load32_4 load32_def [of mm m] pack32_inject conj_assoc)

lemma mslice_offset: "mslice mm m (m + n) = map (\<lambda>i. mm (m + i)) [0..<n]"
  by (simp add: mslice_def list_eq_iff_nth_eq)

lemma rl_find_method_table:
  assumes "mm (m + len) = c_sp"
  shows "rl_find_method mm m len = map_of http_methods (mslice mm m (m + len))"
proof (cases "len \<in> {3, 4, 5, 6, 7, 8, 9}")
  case True
  have upts: "[0..<3] = [0, 1, 2::nat]" "[0..<4] = [0, 1, 2, 3::nat]"
    "[0..<5] = [0, 1, 2, 3, 4::nat]" "[0..<6] = [0, 1, 2, 3, 4, 5::nat]"
    "[0..<7] = [0, 1, 2, 3, 4, 5, 6::nat]" "[0..<8] = [0, 1, 2, 3, 4, 5, 6, 7::nat]"
    "[0..<9] = [0, 1, 2, 3, 4, 5, 6, 7, 8::nat]"
    by (simp_all add: upt_conv_Cons)
  from True assms show ?thesis
    by (elim insertE emptyE)
      (auto simp: rl_find_method_def ngx_strcmp_bytes http_methods_def bytes_def mslice_offset upts)
next
  case False
  then have "length (mslice mm m (m + len)) \<notin> length ` fst ` set http_methods"
    by (auto simp: http_methods_def bytes_def)
  then have "map_of http_methods (mslice mm m (m + len)) = None"
    by (force simp: map_of_eq_None_iff)
  with False show ?thesis
    by (simp add: rl_find_method_def)
qed

lemma rl_find_method_local:
  assumes "\<And>i. i \<le> m + len \<Longrightarrow> mm i = mm' i"
  shows "rl_find_method mm m len = rl_find_method mm' m len"
proof (cases "len \<in> {3, 4, 5, 6, 7, 8, 9}")
  case True
  then show ?thesis
    using assms by (elim insertE emptyE) (simp_all add: rl_find_method_def ngx_strcmp_bytes)
qed (simp add: rl_find_method_def)


lemma rl_set_method_local:
  assumes "\<And>i. i \<le> p \<Longrightarrow> mm i = mm' i" 
  shows "rl_set_method mm p r = rl_set_method mm' p r"
proof (cases "r_request_start r")
  case (Some m)
  show ?thesis
  proof (cases "m \<le> p")
    case True
    then have "rl_find_method mm m (p - m) = rl_find_method mm' m (p - m)"
      by (intro rl_find_method_local assms) simp
    with Some show ?thesis by (simp add: rl_set_method_def)
  next
    case False
    with Some show ?thesis by (simp add: rl_set_method_def rl_find_method_def)
  qed
qed (simp add: rl_set_method_def)

lemmas rl_defs =
  rl_start_def rl_method_def rl_spaces_before_uri_def rl_schema_def rl_schema_slash_def
  rl_schema_slash_slash_def rl_host_space_def rl_host_end_def rl_host_def rl_host_start_def
  rl_host_ip_literal_def rl_port_def rl_host_http_09_def rl_after_slash_in_uri_def
  rl_check_uri_def rl_check_uri_http_09_def rl_uri_def rl_http_09_def rl_expect_def
  rl_first_major_digit_def rl_major_digit_def rl_first_minor_digit_def rl_minor_digit_def
  rl_spaces_after_digit_def rl_almost_done_def

lemma rl_step_local:
  assumes "\<And>i. i \<le> p \<Longrightarrow> mm i = mm' i"
  shows "rl_step mm p s = rl_step mm' p s"
proof -
  obtain st r where s: "s = (st, r)" by fastforce
  have "mm p = mm' p" by (simp add: assms)
  moreover have "\<And>r. rl_set_method mm p r = rl_set_method mm' p r" 
    by (rule rl_set_method_local) (rule assms)
  ultimately show ?thesis
    unfolding s by (cases st) (simp_all only: rl_step.simps rl_state.case rl_defs)
qed

section \<open>Where the pointers lie\<close>

definition method_char :: "byte \<Rightarrow> bool" where
  "method_char ch \<longleftrightarrow> is_upper ch \<or> ch = c_under"

abbreviation line_clean :: "mem \<Rightarrow> nat \<Rightarrow> nat \<Rightarrow> bool" where
  "line_clean \<equiv> span line_byte"

definition rl_no_uri :: "ngx_http_request_t \<Rightarrow> bool" where
  "rl_no_uri r \<longleftrightarrow> r_args_start r = None \<and> r_uri_ext r = None"

definition rl_in_method :: "mem \<Rightarrow> nat \<Rightarrow> ngx_http_request_t \<Rightarrow> bool" where
  "rl_in_method mm p r \<longleftrightarrow>
    (\<exists>s. r_request_start r = Some s \<and> s < p \<and> (\<forall>i. s \<le> i \<and> i < p \<longrightarrow> method_char (mm i)))"

definition rl_head :: "mem \<Rightarrow> nat \<Rightarrow> ngx_http_request_t \<Rightarrow> bool" where
  "rl_head mm p r \<longleftrightarrow>
    (\<exists>s e. r_request_start r = Some s \<and> r_method_end r = Some e \<and> s \<le> e \<and> Suc e < p
       \<and> (\<forall>i. s \<le> i \<and> i \<le> e \<longrightarrow> method_char (mm i)) \<and> mm (Suc e) = c_sp
       \<and> line_clean mm s p)"

definition rl_schema_at :: "nat \<Rightarrow> mem \<Rightarrow> nat \<Rightarrow> ngx_http_request_t \<Rightarrow> bool" where
  "rl_schema_at k mm p r \<longleftrightarrow>
    (\<exists>e f. r_method_end r = Some e \<and> r_schema_end r = Some f \<and> Suc e < f \<and> p = f + Suc k
       \<and> (\<forall>i. f < i \<and> i < p \<longrightarrow> mm i = c_slash))"

definition rl_schema_seen :: "mem \<Rightarrow> nat \<Rightarrow> ngx_http_request_t \<Rightarrow> bool" where
  "rl_schema_seen mm p r \<longleftrightarrow>
    (\<exists>e f. r_method_end r = Some e \<and> r_schema_end r = Some f \<and> Suc e < f \<and> f + 2 < p
       \<and> mm (f + 1) = c_slash)"

definition rl_uri_open :: "mem \<Rightarrow> nat \<Rightarrow> ngx_http_request_t \<Rightarrow> bool" where
  "rl_uri_open mm p r \<longleftrightarrow>
    (\<exists>e u. r_method_end r = Some e \<and> r_uri_start r = Some u \<and> Suc e < u \<and> u < p
       \<and> mm u = c_slash
       \<and> (\<forall>a. r_args_start r = Some a \<longrightarrow> u < a \<and> a \<le> p)
       \<and> (\<forall>x. r_uri_ext r = Some x \<longrightarrow> u < x \<and> x \<le> p))"

definition rl_uri_closed :: "mem \<Rightarrow> nat \<Rightarrow> ngx_http_request_t \<Rightarrow> bool" where
  "rl_uri_closed mm q r \<longleftrightarrow>
    (\<exists>e u v. r_method_end r = Some e \<and> r_uri_start r = Some u \<and> r_uri_end r = Some v
       \<and> Suc e < u \<and> u < v \<and> v \<le> q \<and> mm u = c_slash
       \<and> (\<forall>a. r_args_start r = Some a \<longrightarrow> u < a \<and> a \<le> v)
       \<and> (\<forall>x. r_uri_ext r = Some x \<longrightarrow> u < x \<and> x \<le> v))"

definition rl_almost :: "mem \<Rightarrow> nat \<Rightarrow> ngx_http_request_t \<Rightarrow> bool" where
  "rl_almost mm p r \<longleftrightarrow> 0 < p \<and> mm (p - 1) = CR \<and> rl_head mm (p - 1) r \<and> rl_uri_closed mm (p - 1) r"

fun rl_inv :: "mem \<Rightarrow> nat \<Rightarrow> rl_state \<times> ngx_http_request_t \<Rightarrow> bool" where
  "rl_inv mm p (st, r) \<longleftrightarrow> r_request_end r = None \<and>
    (case st of
       rl_sw_start \<Rightarrow> rl_no_uri r
     | rl_sw_method \<Rightarrow> rl_no_uri r \<and> rl_in_method mm p r
     | rl_sw_spaces_before_uri \<Rightarrow> rl_no_uri r \<and> rl_head mm p r
     | rl_sw_schema \<Rightarrow> rl_no_uri r \<and> rl_head mm p r
     | rl_sw_schema_slash \<Rightarrow> rl_no_uri r \<and> rl_head mm p r \<and> rl_schema_at 0 mm p r
     | rl_sw_schema_slash_slash \<Rightarrow> rl_no_uri r \<and> rl_head mm p r \<and> rl_schema_at 1 mm p r
     | rl_sw_host_start \<Rightarrow> rl_no_uri r \<and> rl_head mm p r \<and> rl_schema_seen mm p r
     | rl_sw_host \<Rightarrow> rl_no_uri r \<and> rl_head mm p r \<and> rl_schema_seen mm p r
     | rl_sw_host_end \<Rightarrow> rl_no_uri r \<and> rl_head mm p r \<and> rl_schema_seen mm p r
     | rl_sw_host_ip_literal \<Rightarrow> rl_no_uri r \<and> rl_head mm p r \<and> rl_schema_seen mm p r
     | rl_sw_port \<Rightarrow> rl_no_uri r \<and> rl_head mm p r \<and> rl_schema_seen mm p r
     | rl_sw_after_slash_in_uri \<Rightarrow> rl_head mm p r \<and> rl_uri_open mm p r
     | rl_sw_check_uri \<Rightarrow> rl_head mm p r \<and> rl_uri_open mm p r
     | rl_sw_uri \<Rightarrow> rl_head mm p r \<and> rl_uri_open mm p r
     | rl_sw_almost_done \<Rightarrow> rl_almost mm p r
     | _ \<Rightarrow> rl_head mm p r \<and> rl_uri_closed mm (p - 1) r)"

definition rl_end :: "mem \<Rightarrow> nat \<Rightarrow> nat \<Rightarrow> ngx_http_request_t \<Rightarrow> bool" where
  "rl_end mm p q r \<longleftrightarrow> mm p = LF \<and> rl_head mm q r \<and> rl_uri_closed mm q r"

fun rl_post :: "mem \<Rightarrow> nat \<Rightarrow> parse_exit \<Rightarrow> rl_state \<times> ngx_http_request_t \<Rightarrow> bool" where
  "rl_post mm p Goto_done (st, r) \<longleftrightarrow>
     mm p = LF \<and>
     (r_request_end r = None \<and> rl_head mm p r \<and> rl_uri_closed mm p r
      \<or> r_request_end r = Some (p - 1) \<and> rl_almost mm p r)"
| "rl_post mm p Goto_header_done (st, r) \<longleftrightarrow> False"
| "rl_post mm p (Return rc) (st, r) \<longleftrightarrow>
     rc \<in> {NGX_HTTP_PARSE_INVALID_METHOD, NGX_HTTP_PARSE_INVALID_REQUEST}"

lemma rl_head_Suc:
  "rl_head mm p r \<Longrightarrow> mm p \<noteq> NUL \<Longrightarrow> mm p \<noteq> CR \<Longrightarrow> mm p \<noteq> LF \<Longrightarrow> rl_head mm (Suc p) r"
  by (fastforce simp: rl_head_def span_def line_byte_def less_Suc_eq)

lemma rl_schema_seen_Suc: "rl_schema_seen mm p r \<Longrightarrow> rl_schema_seen mm (Suc p) r"
  by (fastforce simp: rl_schema_seen_def)

lemma rl_uri_open_Suc: "rl_uri_open mm p r \<Longrightarrow> rl_uri_open mm (Suc p) r"
  by (fastforce simp: rl_uri_open_def)

lemma rl_uri_closed_mono: "rl_uri_closed mm q r \<Longrightarrow> q \<le> q' \<Longrightarrow> rl_uri_closed mm q' r"
  by (fastforce simp: rl_uri_closed_def)

lemma rl_uri_close: "rl_uri_open mm p r \<Longrightarrow> rl_uri_closed mm p (r\<lparr>r_uri_end := Some p\<rparr>)"
  by (fastforce simp: rl_uri_closed_def rl_uri_open_def)

lemma rl_uri_reopen: "rl_uri_closed mm (p - 1) r \<Longrightarrow> rl_head mm p r \<Longrightarrow> rl_uri_open mm p r"
  by (fastforce simp: rl_uri_closed_def rl_uri_open_def rl_head_def)

text \<open>Updates of fields an invariant does not mention.\<close>

lemma rl_head_upd [simp]:
  "rl_head mm p (r\<lparr>r_method := v\<rparr>) = rl_head mm p r"
  "rl_head mm p (r\<lparr>r_uri_start := q\<rparr>) = rl_head mm p r"
  "rl_head mm p (r\<lparr>r_uri_end := q\<rparr>) = rl_head mm p r"
  "rl_head mm p (r\<lparr>r_uri_ext := q\<rparr>) = rl_head mm p r"
  "rl_head mm p (r\<lparr>r_args_start := q\<rparr>) = rl_head mm p r"
  "rl_head mm p (r\<lparr>r_schema_start := q\<rparr>) = rl_head mm p r"
  "rl_head mm p (r\<lparr>r_schema_end := q\<rparr>) = rl_head mm p r"
  "rl_head mm p (r\<lparr>r_host_start := q\<rparr>) = rl_head mm p r"
  "rl_head mm p (r\<lparr>r_host_end := q\<rparr>) = rl_head mm p r"
  "rl_head mm p (r\<lparr>r_port_end := q\<rparr>) = rl_head mm p r"
  "rl_head mm p (r\<lparr>r_request_end := q\<rparr>) = rl_head mm p r"
  "rl_head mm p (r\<lparr>r_http_protocol_data := q\<rparr>) = rl_head mm p r"
  "rl_head mm p (r\<lparr>r_http_minor := w\<rparr>) = rl_head mm p r"
  "rl_head mm p (r\<lparr>r_http_major := w\<rparr>) = rl_head mm p r"
  "rl_head mm p (r\<lparr>r_complex_uri := f\<rparr>) = rl_head mm p r"
  "rl_head mm p (r\<lparr>r_quoted_uri := f\<rparr>) = rl_head mm p r"
  "rl_head mm p (r\<lparr>r_plus_in_uri := f\<rparr>) = rl_head mm p r"
  "rl_head mm p (r\<lparr>r_space_in_uri := f\<rparr>) = rl_head mm p r"
  by (simp_all add: rl_head_def)

lemma rl_closed_upd [simp]:
  "rl_uri_closed mm p (r\<lparr>r_request_end := q\<rparr>) = rl_uri_closed mm p r"
  "rl_uri_closed mm p (r\<lparr>r_http_protocol_data := q\<rparr>) = rl_uri_closed mm p r"
  "rl_uri_closed mm p (r\<lparr>r_http_minor := w\<rparr>) = rl_uri_closed mm p r"
  "rl_uri_closed mm p (r\<lparr>r_http_major := w\<rparr>) = rl_uri_closed mm p r"
  "rl_uri_closed mm p (r\<lparr>r_space_in_uri := f\<rparr>) = rl_uri_closed mm p r"
  by (simp_all add: rl_uri_closed_def)

lemma rl_open_upd [simp]:
  "rl_uri_open mm p (r\<lparr>r_complex_uri := f\<rparr>) = rl_uri_open mm p r"
  "rl_uri_open mm p (r\<lparr>r_quoted_uri := f\<rparr>) = rl_uri_open mm p r"
  "rl_uri_open mm p (r\<lparr>r_plus_in_uri := f\<rparr>) = rl_uri_open mm p r"
  "rl_uri_open mm p (r\<lparr>r_space_in_uri := f\<rparr>) = rl_uri_open mm p r"
  by (simp_all add: rl_uri_open_def)

lemma rl_open_args: "rl_uri_open mm p r \<Longrightarrow> rl_uri_open mm (Suc p) (r\<lparr>r_args_start := Some (Suc p)\<rparr>)"
  by (fastforce simp: rl_uri_open_def)

lemma rl_open_ext: "rl_uri_open mm p r \<Longrightarrow> rl_uri_open mm (Suc p) (r\<lparr>r_uri_ext := Some (Suc p)\<rparr>)"
  by (fastforce simp: rl_uri_open_def)

lemma rl_open_ext_None: "rl_uri_open mm p r \<Longrightarrow> rl_uri_open mm (Suc p) (r\<lparr>r_uri_ext := None\<rparr>)"
  by (fastforce simp: rl_uri_open_def)

lemma rl_open_start:
  "rl_head mm p r \<Longrightarrow> rl_no_uri r \<Longrightarrow> mm p = c_slash \<Longrightarrow>
     rl_uri_open mm (Suc p) (r\<lparr>r_uri_start := Some p\<rparr>)"
  by (fastforce simp: rl_head_def rl_no_uri_def rl_uri_open_def)

lemma rl_schema_upd [simp]:
  "rl_schema_seen mm p (r\<lparr>r_host_start := q\<rparr>) = rl_schema_seen mm p r"
  "rl_schema_seen mm p (r\<lparr>r_host_end := q\<rparr>) = rl_schema_seen mm p r"
  "rl_schema_seen mm p (r\<lparr>r_port_end := q\<rparr>) = rl_schema_seen mm p r"
  by (simp_all add: rl_schema_seen_def)

lemma rl_no_uri_upd [simp]:
  "rl_no_uri (r\<lparr>r_method := v\<rparr>) = rl_no_uri r"
  "rl_no_uri (r\<lparr>r_method_end := q\<rparr>) = rl_no_uri r"
  "rl_no_uri (r\<lparr>r_request_start := q\<rparr>) = rl_no_uri r"
  "rl_no_uri (r\<lparr>r_schema_start := q\<rparr>) = rl_no_uri r"
  "rl_no_uri (r\<lparr>r_schema_end := q\<rparr>) = rl_no_uri r"
  "rl_no_uri (r\<lparr>r_host_start := q\<rparr>) = rl_no_uri r"
  "rl_no_uri (r\<lparr>r_host_end := q\<rparr>) = rl_no_uri r"
  "rl_no_uri (r\<lparr>r_port_end := q\<rparr>) = rl_no_uri r"
  by (simp_all add: rl_no_uri_def)

definition rl_ok :: "mem \<Rightarrow> nat \<Rightarrow> rl_action \<Rightarrow> bool" where
  "rl_ok mm p a \<longleftrightarrow>
    (case a of Next s \<Rightarrow> rl_inv mm (Suc p) s | Exit x s \<Rightarrow> rl_post mm p x s)"

lemma rl_ok_simps [simp]:
  "rl_ok mm p (Next s) = rl_inv mm (Suc p) s"
  "rl_ok mm p (Exit x s) = rl_post mm p x s"
  by (simp_all add: rl_ok_def)

lemma rl_ok_if: "(c \<Longrightarrow> rl_ok mm p a) \<Longrightarrow> (\<not> c \<Longrightarrow> rl_ok mm p b) \<Longrightarrow> rl_ok mm p (if c then a else b)"
  by simp

lemma rl_almost_Suc [simp]:
  "rl_almost mm (Suc p) r \<longleftrightarrow> mm p = CR \<and> rl_head mm p r \<and> rl_uri_closed mm p r"
  by (simp add: rl_almost_def)

lemma rl_schema_at_0:
  "rl_head mm p r \<Longrightarrow> rl_schema_at 0 mm (Suc p) (r\<lparr>r_schema_end := Some p\<rparr>)"
  by (auto simp: rl_head_def rl_schema_at_def)

lemma rl_schema_at_1: "rl_schema_at 0 mm p r \<Longrightarrow> mm p = c_slash \<Longrightarrow> rl_schema_at 1 mm (Suc p) r"
  by (auto simp: rl_schema_at_def less_Suc_eq)

lemma rl_schema_seenI: "rl_schema_at 1 mm p r \<Longrightarrow> rl_schema_seen mm (Suc p) r"
  by (auto simp: rl_schema_at_def rl_schema_seen_def)

lemma rl_host_space_closed:
  "rl_schema_seen mm p r \<Longrightarrow> rl_no_uri r \<Longrightarrow>
     rl_uri_closed mm p (r\<lparr>r_uri_start := map_option (\<lambda>e. e + 1) (r_schema_end r),
         r_uri_end := map_option (\<lambda>e. e + 2) (r_schema_end r)\<rparr>)"
  by (auto simp: rl_schema_seen_def rl_no_uri_def rl_uri_closed_def)

lemma rl_start_ok: "rl_inv mm p (rl_sw_start, r) \<Longrightarrow> rl_ok mm p (rl_start mm p r)"
  by (auto simp: rl_start_def Let_def rl_in_method_def less_Suc_eq method_char_def not_less)

lemma rl_set_method_frame [simp]:
  "r_request_end (rl_set_method mm p r) = r_request_end r"
  "rl_no_uri (rl_set_method mm p r) = rl_no_uri r"
  "rl_head mm q (rl_set_method mm p r) = rl_head mm q r"
  by (simp_all add: rl_set_method_def split: option.split)

lemma rl_in_method_head:
  "rl_in_method mm p r \<Longrightarrow> mm p = c_sp \<Longrightarrow> rl_head mm (Suc p) (r\<lparr>r_method_end := Some (p - Suc 0)\<rparr>)"
  apply (auto simp: rl_in_method_def rl_head_def span_def line_byte_def less_Suc_eq)
  apply (auto simp: method_char_def)
  done

lemma rl_method_ok: "rl_inv mm p (rl_sw_method, r) \<Longrightarrow> rl_ok mm p (rl_method mm p r)"
  unfolding rl_method_def Let_def
  by (intro rl_ok_if) (auto simp: rl_in_method_head, auto simp: rl_in_method_def less_Suc_eq method_char_def not_less)

lemma letter_clean: "c_a \<le> lower_bit ch \<Longrightarrow> lower_bit ch \<le> c_z \<Longrightarrow> ch \<noteq> NUL \<and> ch \<noteq> CR \<and> ch \<noteq> LF"
  by auto

lemma digit_clean: "c_0 \<le> ch \<Longrightarrow> ch \<le> c_9 \<Longrightarrow> ch \<noteq> NUL \<and> ch \<noteq> CR \<and> ch \<noteq> LF"
  by auto

lemma usual_clean: "usual ch \<Longrightarrow> ch \<noteq> NUL \<and> ch \<noteq> CR \<and> ch \<noteq> LF"
  by (simp add: usual_iff)

lemma rl_spaces_before_uri_ok:
  "rl_inv mm p (rl_sw_spaces_before_uri, r) \<Longrightarrow> rl_ok mm p (rl_spaces_before_uri mm p r)"
  unfolding rl_spaces_before_uri_def Let_def
  by (intro rl_ok_if) (auto intro: rl_head_Suc rl_open_start dest: letter_clean)

lemma rl_schema_ok: "rl_inv mm p (rl_sw_schema, r) \<Longrightarrow> rl_ok mm p (rl_schema mm p r)"
  unfolding rl_schema_def Let_def
  by (intro rl_ok_if) (auto intro: rl_head_Suc rl_schema_at_0 dest: letter_clean)

lemma rl_schema_slash_ok:
  "rl_inv mm p (rl_sw_schema_slash, r) \<Longrightarrow> rl_ok mm p (rl_schema_slash mm p r)"
  unfolding rl_schema_slash_def
  by (intro rl_ok_if) (auto intro: rl_head_Suc rl_schema_at_1 [unfolded One_nat_def])

lemma rl_schema_slash_slash_ok:
  "rl_inv mm p (rl_sw_schema_slash_slash, r) \<Longrightarrow> rl_ok mm p (rl_schema_slash_slash mm p r)"
  unfolding rl_schema_slash_slash_def
  by (intro rl_ok_if) (auto intro: rl_head_Suc rl_schema_seenI [unfolded One_nat_def])

lemma rl_host_space_ok:
  "r_request_end r = None \<Longrightarrow> rl_head mm p r \<Longrightarrow> rl_schema_seen mm p r \<Longrightarrow> rl_no_uri r \<Longrightarrow>
     mm p = c_sp \<Longrightarrow> rl_ok mm p (rl_host_space r)"
  using rl_host_space_closed [of mm p r]
  by (simp add: rl_host_space_def rl_head_Suc)

lemma rl_host_end_ok:
  "r_request_end r = None \<Longrightarrow> rl_head mm p r \<Longrightarrow> rl_schema_seen mm p r \<Longrightarrow> rl_no_uri r \<Longrightarrow>
     rl_ok mm p (rl_host_end mm p r)"
  unfolding rl_host_end_def Let_def
  by (intro rl_ok_if rl_host_space_ok)
    (auto intro: rl_head_Suc rl_open_start rl_schema_seen_Suc)

lemma rl_host_ok:
  "r_request_end r = None \<Longrightarrow> rl_head mm p r \<Longrightarrow> rl_schema_seen mm p r \<Longrightarrow> rl_no_uri r \<Longrightarrow>
     rl_ok mm p (rl_host mm p r)"
  unfolding rl_host_def Let_def
  by (intro rl_ok_if rl_host_end_ok)
    (auto intro: rl_head_Suc rl_schema_seen_Suc dest: letter_clean digit_clean)

lemma rl_host_start_ok:
  "rl_inv mm p (rl_sw_host_start, r) \<Longrightarrow> rl_ok mm p (rl_host_start mm p r)"
  unfolding rl_host_start_def Let_def
  by (intro rl_ok_if rl_host_ok) (auto intro: rl_head_Suc rl_schema_seen_Suc)

lemma rl_host_ip_literal_ok:
  "rl_inv mm p (rl_sw_host_ip_literal, r) \<Longrightarrow> rl_ok mm p (rl_host_ip_literal mm p r)"
  unfolding rl_host_ip_literal_def Let_def
  by (intro rl_ok_if)
    (auto intro: rl_head_Suc rl_schema_seen_Suc dest: letter_clean digit_clean)

lemma rl_port_ok: "rl_inv mm p (rl_sw_port, r) \<Longrightarrow> rl_ok mm p (rl_port mm p r)"
  unfolding rl_port_def Let_def
  by (intro rl_ok_if rl_host_space_ok)
    (auto intro: rl_head_Suc rl_schema_seen_Suc rl_open_start dest: digit_clean)

lemma rl_after_slash_in_uri_ok:
  "rl_inv mm p (rl_sw_after_slash_in_uri, r) \<Longrightarrow> rl_ok mm p (rl_after_slash_in_uri mm p r)"
  unfolding rl_after_slash_in_uri_def Let_def
  by (intro rl_ok_if)
    (auto intro: rl_head_Suc rl_uri_open_Suc rl_uri_close rl_open_args
       simp: usual_iff)

lemma rl_check_uri_ok:
  "rl_inv mm p (rl_sw_check_uri, r) \<Longrightarrow> rl_ok mm p (rl_check_uri mm p r)"
  unfolding rl_check_uri_def Let_def
  by (intro rl_ok_if)
    (auto intro: rl_head_Suc rl_uri_open_Suc rl_uri_close rl_open_args rl_open_ext
       rl_open_ext_None simp: usual_iff)

lemma rl_uri_ok: "rl_inv mm p (rl_sw_uri, r) \<Longrightarrow> rl_ok mm p (rl_uri mm p r)"
  unfolding rl_uri_def Let_def
  by (intro rl_ok_if)
    (auto intro: rl_head_Suc rl_uri_open_Suc rl_uri_close simp: usual_iff)

lemma rl_closed_step:
  "rl_uri_closed mm (p - Suc 0) r \<Longrightarrow> rl_uri_closed mm p r"
  by (erule rl_uri_closed_mono) simp

lemma rl_check_uri_http_09_ok:
  "rl_inv mm p (rl_sw_check_uri_http_09, r) \<Longrightarrow> rl_ok mm p (rl_check_uri_http_09 mm p r)"
  unfolding rl_check_uri_http_09_def Let_def
  by (intro rl_ok_if rl_check_uri_ok)
    (auto intro: rl_head_Suc rl_closed_step rl_uri_reopen [unfolded One_nat_def])

lemma rl_http_09_ok:
  "rl_inv mm p (rl_sw_http_09, r) \<Longrightarrow> rl_ok mm p (rl_http_09 mm p r)"
  unfolding rl_http_09_def Let_def
  by (intro rl_ok_if rl_uri_ok)
    (auto intro: rl_head_Suc rl_closed_step rl_uri_reopen [unfolded One_nat_def])

lemma rl_host_http_09_ok:
  "rl_inv mm p (rl_sw_host_http_09, r) \<Longrightarrow> rl_ok mm p (rl_host_http_09 mm p r)"
  unfolding rl_host_http_09_def Let_def
  by (intro rl_ok_if) (auto intro: rl_head_Suc rl_closed_step)

lemma rl_version_ok:
  "rl_inv mm p (rl_sw_first_major_digit, r) \<Longrightarrow> rl_ok mm p (rl_first_major_digit mm p r)"
  "rl_inv mm p (rl_sw_major_digit, r) \<Longrightarrow> rl_ok mm p (rl_major_digit mm p r)"
  "rl_inv mm p (rl_sw_first_minor_digit, r) \<Longrightarrow> rl_ok mm p (rl_first_minor_digit mm p r)"
  "rl_inv mm p (rl_sw_minor_digit, r) \<Longrightarrow> rl_ok mm p (rl_minor_digit mm p r)"
  "rl_inv mm p (rl_sw_spaces_after_digit, r) \<Longrightarrow> rl_ok mm p (rl_spaces_after_digit mm p r)"
  unfolding rl_first_major_digit_def rl_major_digit_def rl_first_minor_digit_def
    rl_minor_digit_def rl_spaces_after_digit_def Let_def
  by (intro rl_ok_if; force intro: rl_head_Suc rl_closed_step)+

lemma rl_almost_upd [simp]: "rl_almost mm p (r\<lparr>r_request_end := q\<rparr>) = rl_almost mm p r"
  by (simp add: rl_almost_def)

lemma rl_almost_done_ok:
  "rl_inv mm p (rl_sw_almost_done, r) \<Longrightarrow> rl_ok mm p (rl_almost_done mm p r)"
  by (simp add: rl_almost_done_def Let_def)

lemma rl_expect_ok:
  "c \<notin> {NUL, CR, LF} \<Longrightarrow> r_request_end r = None \<Longrightarrow> rl_head mm p r \<Longrightarrow>
     rl_uri_closed mm (p - 1) r \<Longrightarrow>
     st' \<in> {rl_sw_http_HT, rl_sw_http_HTT, rl_sw_http_HTTP, rl_sw_first_major_digit} \<Longrightarrow>
     rl_ok mm p (rl_expect c st st' mm p r)"
  by (auto simp: rl_expect_def intro: rl_head_Suc rl_closed_step)

lemma rl_step_ok:
  assumes "rl_inv mm p s"
  shows "rl_ok mm p (rl_step mm p s)"
proof -
  obtain st r where s: "s = (st, r)" by fastforce
  note oks = rl_start_ok rl_method_ok rl_spaces_before_uri_ok rl_schema_ok rl_schema_slash_ok
    rl_schema_slash_slash_ok rl_host_start_ok rl_host_ok rl_host_end_ok rl_host_ip_literal_ok
    rl_port_ok rl_host_http_09_ok rl_after_slash_in_uri_ok rl_check_uri_ok
    rl_check_uri_http_09_ok rl_uri_ok rl_http_09_ok rl_version_ok rl_almost_done_ok
  show ?thesis
    using assms unfolding s
    by (cases st)
      (simp_all add: rl_step.simps oks rl_expect_ok del: rl_inv.simps, (simp add: oks rl_expect_ok)+)
qed

interpretation rli: scanner_inv rl_step rl_inv rl_post
proof
  show "rl_inv m (Suc p) s'" if "rl_inv m p s" "rl_step m p s = Next s'" for m p s s'
    using rl_step_ok [OF that(1)] that(2) by simp
  show "rl_post m p x s'" if "rl_inv m p s" "rl_step m p s = Exit x s'" for m p s x s'
    using rl_step_ok [OF that(1)] that(2) by simp
qed

section \<open>The contract of a line parser\<close>

lemma rl_set_method_state:
  "rl_set_method mm p (r\<lparr>r_state := k\<rparr>) = (rl_set_method mm p r)\<lparr>r_state := k\<rparr>"
  by (simp add: rl_set_method_def split: option.split)

lemma rl_step_save:
  "rl_step mm p (st, rl_save k r) = map_action id (apsnd (rl_save k)) (rl_step mm p (st, r))"
  unfolding rl_save_def
  by (cases st; simp only: rl_step.simps rl_state.case)
    (simp_all add: rl_defs Let_def rl_set_method_state r_state_commute
      if_distrib [of "map_action id (apsnd (r_state_update (\<lambda>_. rl_code k)))"]
      split del: if_split cong: if_cong)

text \<open>The parser leaves its loop by \<open>done\<close> or with one of two error codes.\<close>

lemma rl_step_exit:
  "rl_step mm p s = Exit x s' \<Longrightarrow>
     x \<in> {Goto_done, Return NGX_HTTP_PARSE_INVALID_METHOD, Return NGX_HTTP_PARSE_INVALID_REQUEST}"
  apply (cases s, cases "fst s"; simp only: rl_step.simps rl_state.case prod.sel)
  apply (auto simp: rl_defs Let_def split: if_splits)
  done

lemma rl_done_rc: "fst (rl_done p r b) \<in> {NGX_OK, NGX_HTTP_PARSE_INVALID_09_METHOD}"
  by (simp add: rl_done_def Let_def)

definition rl_final :: "ngx_rc \<Rightarrow> bool" where
  "rl_final rc \<longleftrightarrow> rc = NGX_OK \<or> rc = NGX_HTTP_PARSE_INVALID_09_METHOD"

lemma rl_done_save [simp]: "rl_done p (rl_save k r) (b\<lparr>b_pos := q\<rparr>) = rl_done p r b"
  by (simp add: rl_done_def rl_save_def Let_def)

interpretation rl:
  line_parser rl_step rl_save rl_load rl_leave rl_final "\<lambda>rc r. r" ngx_http_parse_request_line
proof
  show "rl_step m p s = rl_step m' p s" if "\<And>i. i \<le> p \<Longrightarrow> m i = m' i" for p m m' s
    using that by (rule rl_step_local)
  show "rl_leave x p l r (b\<lparr>b_mem := m\<rparr>) = apsnd (apsnd (b_mem_update (\<lambda>_. m))) (rl_leave x p l r b)"
    for x p l r b m
    by (cases x) (simp_all add: rl_done_def Let_def)
  show "fst (rl_leave x p l (rl_save k r) (b\<lparr>b_pos := q\<rparr>)) = fst (rl_leave x p l r b)" for x p l k r b q
    by (cases x) simp_all
  show "r2 = r1 \<and> b2 = b1"
    if "rl_step m' p' s = Exit x s'" "rl_leave x p l r b = (rc, r1, b1)" "rl_final rc"
      "rl_leave x p l (rl_save k r) (b\<lparr>b_pos := q\<rparr>) = (rc, r2, b2)"
    for m' p' s x s' p l r b k q rc r1 r2 b1 b2
    using rl_step_exit [OF that(1)] that(2-4) by (auto simp: rl_final_def)
  show "fst (rl_leave x q l r b) \<noteq> NGX_AGAIN" if "rl_step m p s = Exit x s'" for m p s x s' q l r b
    using rl_step_exit [OF that] rl_done_rc [of q r b] by auto
  show "rl_step m p (l, rl_save k r) = map_action id (apsnd (rl_save k)) (rl_step m p (l, r))"
    for m p l k r
    by (rule rl_step_save)
qed (simp_all add: rl_save_def rl_load_def ngx_http_parse_request_line_def)

section \<open>The pointers after a successful parse\<close>

lemma rl_step_request_start:
  assumes "rl_step mm p (st, r) = Next (st', r') \<or> rl_step mm p (st, r) = Exit x (st', r')"
  shows "r_request_start r' = r_request_start r \<or> r_request_start r' = Some p"
proof -
  have "r_request_start (rl_set_method mm p r) = r_request_start r" for r
    by (simp add: rl_set_method_def split: option.split)
  with assms show ?thesis
    by (cases st; simp only: rl_step.simps rl_state.case)
      (auto simp: rl_defs Let_def split: if_splits)
qed

fun rl_from :: "nat \<Rightarrow> mem \<Rightarrow> nat \<Rightarrow> rl_state \<times> ngx_http_request_t \<Rightarrow> bool" where
  "rl_from p0 mm p (st, r) \<longleftrightarrow> p0 \<le> p \<and> (\<forall>s. r_request_start r = Some s \<longrightarrow> p0 \<le> s)"

interpretation rls: scanner_inv rl_step "rl_from p0" "\<lambda>mm p x. rl_from p0 mm p" for p0
proof
  show "rl_from p0 m (Suc p) s'" if "rl_from p0 m p s" "rl_step m p s = Next s'" for m p s s'
    using that rl_step_request_start [of m p "fst s" "snd s" "fst s'" "snd s'"]
    by (cases s; cases s') auto
  show "rl_from p0 m p s'" if "rl_from p0 m p s" "rl_step m p s = Exit x s'" for m p s x s'
    using that rl_step_request_start [of m p "fst s" "snd s" "fst s'" "snd s'" x]
    by (cases s; cases s') auto
qed

definition rl_layout :: "ngx_buf_t \<Rightarrow> ngx_http_request_t \<Rightarrow> nat \<Rightarrow> bool" where
  "rl_layout b r pos \<longleftrightarrow>
    (\<exists>s e u v q.
       r_request_start r = Some s \<and> r_method_end r = Some e \<and>
       r_uri_start r = Some u \<and> r_uri_end r = Some v \<and> r_request_end r = Some q \<and>
       b_pos b \<le> s \<and> s \<le> e \<and> Suc e < u \<and> u < v \<and> v \<le> q \<and> q < pos \<and> pos \<le> b_last b \<and>
       (\<forall>a. r_args_start r = Some a \<longrightarrow> u < a \<and> a \<le> v) \<and>
       (\<forall>x. r_uri_ext r = Some x \<longrightarrow> u < x \<and> x \<le> v) \<and>
       (\<forall>i. s \<le> i \<and> i \<le> e \<longrightarrow> method_char (b_mem b i)) \<and>
       b_mem b (Suc e) = c_sp \<and> b_mem b u = c_slash \<and> b_mem b (pos - 1) = LF \<and>
       (\<forall>i. s \<le> i \<and> i < q \<longrightarrow> b_mem b i \<notin> {NUL, CR, LF}))"

lemma rl_layoutI:
  assumes "rl_head mm q r" "rl_uri_closed mm q r" "r_request_end r = Some q" "mm p = LF"
    "q \<le> p" "p < b_last b" "mm = b_mem b" "rl_from (b_pos b) mm p (st, r)"
  shows "rl_layout b r (Suc p)"
  using assms by (auto simp: rl_head_def rl_uri_closed_def rl_layout_def span_def line_byte_def)

lemma rl_layout_upd [simp]:
  "rl_layout b (r\<lparr>r_state := k\<rparr>) pos = rl_layout b r pos"
  "rl_layout b (r\<lparr>r_http_version := w\<rparr>) pos = rl_layout b r pos"
  by (simp_all add: rl_layout_def)

lemma request_line_okD:
  assumes "ngx_http_parse_request_line r b = (NGX_OK, r', b')" "rl_load r = Some st"
  shows "\<exists>p st' r1. scan rl_step (b_mem b) (b_last b) (b_pos b) (st, r) = Exited Goto_done p (st', r1)
    \<and> rl_done p r1 b = (NGX_OK, r', b')"
proof (cases "scan rl_step (b_mem b) (b_last b) (b_pos b) (st, r)")
  case (Again q s)
  with assms show ?thesis by (auto simp: ngx_http_parse_request_line_def split: prod.splits)
next
  case (Exited x q s)
  obtain t where "rl_step (b_mem b) q t = Exit x s"
    using scan_Exited_step [OF Exited] by blast
  from rl_step_exit [OF this] Exited assms show ?thesis
    by (cases s) (auto simp: ngx_http_parse_request_line_def)
qed

section \<open>Well-formed request lines\<close>

definition request_line :: "byte list \<Rightarrow> byte list \<Rightarrow> byte list \<Rightarrow> byte list \<Rightarrow> byte list" where
  "request_line meth uri major minor =
     meth @ c_sp # uri @ c_sp # [c_H, c_T, c_T, c_P, c_slash] @ major @ c_dot # minor @ [CR, LF]"

definition uri_bytes :: "byte list \<Rightarrow> bool" where
  "uri_bytes uri \<longleftrightarrow>
     (\<exists>rest. uri = c_slash # rest \<and> (\<forall>c\<in>set rest. c \<notin> {NUL, CR, LF, c_sp}))"

lemma scan_method:
  assumes "mem_at mm p meth" "\<forall>c\<in>set meth. method_char c" "p + length meth \<le> lim"
  shows "scan rl_step mm lim p (rl_sw_method, r) = scan rl_step mm lim (p + length meth) (rl_sw_method, r)"
proof (rule scan_stutter)
  fix i assume i: "p \<le> i" "i < p + length meth"
  then have "mm i = meth ! (i - p)" using assms(1) by (auto simp: mem_at_nth dest: spec [of _ "i - p"])
  with i assms(2) have "method_char (mm i)" by simp
  then show "rl_step mm i (rl_sw_method, r) = Next (rl_sw_method, r)"
    by (auto simp: method_char_def rl_step.simps rl_method_def Let_def)
qed (use assms in auto)

definition rl_strip :: "ngx_http_request_t \<Rightarrow> ngx_http_request_t" where
  "rl_strip r = r\<lparr>r_complex_uri := False, r_quoted_uri := False, r_plus_in_uri := False,
     r_args_start := None, r_uri_ext := None\<rparr>"

lemma rl_strip_upd [simp]:
  "rl_strip (r\<lparr>r_complex_uri := f\<rparr>) = rl_strip r"
  "rl_strip (r\<lparr>r_quoted_uri := f\<rparr>) = rl_strip r"
  "rl_strip (r\<lparr>r_plus_in_uri := f\<rparr>) = rl_strip r"
  "rl_strip (r\<lparr>r_args_start := q\<rparr>) = rl_strip r"
  "rl_strip (r\<lparr>r_uri_ext := q\<rparr>) = rl_strip r"
  by (simp_all add: rl_strip_def)

abbreviation rl_uri_states :: "rl_state set" where
  "rl_uri_states \<equiv> {rl_sw_after_slash_in_uri, rl_sw_check_uri, rl_sw_uri}"

lemma rl_uri_step:
  assumes "st \<in> rl_uri_states" "mm p \<notin> {NUL, CR, LF, c_sp}"
  shows "\<exists>st' r'. rl_step mm p (st, r) = Next (st', r') \<and> st' \<in> rl_uri_states \<and> rl_strip r' = rl_strip r"
  using assms
  by (elim insertE emptyE; simp only: rl_step.simps rl_state.case)
    (simp_all add: rl_after_slash_in_uri_def rl_check_uri_def rl_uri_def Let_def)

lemma scan_uri:
  assumes "mem_at mm p cs" "\<forall>c\<in>set cs. c \<notin> {NUL, CR, LF, c_sp}" "p + length cs \<le> lim"
    "st \<in> rl_uri_states"
  shows "\<exists>st' r'. scan rl_step mm lim p (st, r) = scan rl_step mm lim (p + length cs) (st', r')
    \<and> st' \<in> rl_uri_states \<and> rl_strip r' = rl_strip r"
  using assms
proof (induction cs arbitrary: p st r)
  case Nil
  then show ?case by auto
next
  case (Cons c cs)
  then obtain st1 r1 where 1: "rl_step mm p (st, r) = Next (st1, r1)" "st1 \<in> rl_uri_states"
      "rl_strip r1 = rl_strip r"
    using rl_uri_step [of st mm p r] by auto
  obtain st' r' where 2: "scan rl_step mm lim (Suc p) (st1, r1) =
      scan rl_step mm lim (Suc p + length cs) (st', r')"
      "st' \<in> rl_uri_states" "rl_strip r' = rl_strip r1"
    using Cons.IH [of "Suc p" st1 r1] Cons.prems 1(2) by auto
  have "scan rl_step mm lim p (st, r) = scan rl_step mm lim (Suc p) (st1, r1)"
    using Cons.prems 1(1) by (intro scan_Next) auto
  with 1(3) 2 show ?case by (intro exI [of _ st'] exI [of _ r']) simp
qed

lemma rl_uri_space:
  "st \<in> rl_uri_states \<Longrightarrow> mm p = c_sp \<Longrightarrow>
     \<exists>st'. rl_step mm p (st, r) = Next (st', r\<lparr>r_uri_end := Some p\<rparr>) \<and>
       st' \<in> {rl_sw_check_uri_http_09, rl_sw_http_09}"
  by (elim insertE emptyE; simp only: rl_step.simps rl_state.case)
    (simp_all add: rl_after_slash_in_uri_def rl_check_uri_def rl_uri_def Let_def usual_iff)

lemma rl_proto:
  "st \<in> {rl_sw_check_uri_http_09, rl_sw_http_09} \<Longrightarrow> mm p = c_H \<Longrightarrow>
     rl_step mm p (st, r) = Next (rl_sw_http_H, r\<lparr>r_http_protocol_data := Some p\<rparr>)"
  by (auto simp: rl_step.simps rl_check_uri_http_09_def rl_http_09_def Let_def)

lemma scan_http:
  "mem_at mm p [c_T, c_T, c_P, c_slash] \<Longrightarrow> p + 4 \<le> lim \<Longrightarrow>
     scan rl_step mm lim p (rl_sw_http_H, r) = scan rl_step mm lim (Suc (Suc (Suc (Suc p)))) (rl_sw_first_major_digit, r)"
  by (simp add: scan_Next rl_step.simps rl_expect_def)

lemma scan_major:
  assumes "mem_at mm p ds" "\<forall>d\<in>set ds. is_digit d" "p + length ds \<le> lim"
  shows "scan rl_step mm lim p (rl_sw_major_digit, r\<lparr>r_http_major := a\<rparr>) =
    scan rl_step mm lim (p + length ds) (rl_sw_major_digit, r\<lparr>r_http_major := dec_word a ds\<rparr>)"
  unfolding dec_word_def
proof (rule scan_foldl [OF assms(1,3), where g = "\<lambda>a. (rl_sw_major_digit, r\<lparr>r_http_major := a\<rparr>)"])
  fix i a assume "mm i \<in> set ds"
  then have d: "is_digit (mm i)" using assms(2) by blast
  moreover have "mm i \<noteq> c_dot" using d by auto
  ultimately show "rl_step mm i (rl_sw_major_digit, r\<lparr>r_http_major := a\<rparr>) =
      Next (rl_sw_major_digit, r\<lparr>r_http_major := a * 10 + ucast (mm i) - 0x30\<rparr>)"
    by (simp add: rl_step.simps rl_major_digit_def Let_def not_less)
qed

lemma scan_minor:
  assumes "mem_at mm p ds" "\<forall>d\<in>set ds. is_digit d" "p + length ds \<le> lim"
  shows "scan rl_step mm lim p (rl_sw_minor_digit, r\<lparr>r_http_minor := a\<rparr>) =
    scan rl_step mm lim (p + length ds) (rl_sw_minor_digit, r\<lparr>r_http_minor := dec_word a ds\<rparr>)"
  unfolding dec_word_def
proof (rule scan_foldl [OF assms(1,3), where g = "\<lambda>a. (rl_sw_minor_digit, r\<lparr>r_http_minor := a\<rparr>)"])
  fix i a assume "mm i \<in> set ds"
  then have d: "is_digit (mm i)" using assms(2) by blast
  moreover have "mm i \<noteq> CR" "mm i \<noteq> LF" "mm i \<noteq> c_sp" using d by auto
  ultimately show "rl_step mm i (rl_sw_minor_digit, r\<lparr>r_http_minor := a\<rparr>) =
      Next (rl_sw_minor_digit, r\<lparr>r_http_minor := a * 10 + ucast (mm i) - 0x30\<rparr>)"
    by (simp add: rl_step.simps rl_minor_digit_def Let_def not_less)
qed

lemma ucast_digit8: "is_digit d \<Longrightarrow> ucast (d - c_0) = (ucast d - 0x30 :: uint16)"
  using all_bytes [of "\<lambda>d. is_digit d \<longrightarrow> ucast (d - c_0) = (ucast d - 0x30 :: uint16)" d]
  by (rule mp) code_simp

lemma scan_version:
  assumes "mem_at mm p (major @ c_dot # minor @ [CR, LF])" "p + length major + length minor + 3 \<le> lim"
    "digits major" "hd major \<noteq> c_0" "digits minor"
  shows "scan rl_step mm lim p (rl_sw_first_major_digit, r) =
    Exited Goto_done (p + length major + length minor + 2)
      (rl_sw_almost_done, r\<lparr>r_http_major := dec_word 0 major, r_http_minor := dec_word 0 minor,
          r_request_end := Some (p + length major + length minor + 1)\<rparr>)"
proof -
  obtain d ds where major: "major = d # ds" using assms(3) by (cases major) (auto simp: digits_def)
  obtain e es where minor: "minor = e # es" using assms(5) by (cases minor) (auto simp: digits_def)
  have d: "is_digit d" "d \<noteq> c_0" "\<forall>d\<in>set ds. is_digit d" and e: "is_digit e" "\<forall>d\<in>set es. is_digit d"
    using assms by (auto simp: major minor digits_def)
  let ?q = "Suc p + length ds"
  let ?r1 = "r\<lparr>r_http_major := dec_word 0 major\<rparr>"
  let ?r2 = "?r1\<lparr>r_http_minor := dec_word 0 minor\<rparr>"
  have "scan rl_step mm lim p (rl_sw_first_major_digit, r) =
      scan rl_step mm lim (Suc p) (rl_sw_major_digit, r\<lparr>r_http_major := ucast d - 0x30\<rparr>)"
  proof (rule scan_Next)
    have "c_1 \<le> d" using d by unat_arith
    then show "rl_step mm p (rl_sw_first_major_digit, r) =
        Next (rl_sw_major_digit, r\<lparr>r_http_major := ucast d - 0x30\<rparr>)"
      using assms(1) d ucast_digit8 [OF d(1)] by (simp add: major rl_step.simps rl_first_major_digit_def not_less)
  qed (use assms in \<open>simp add: major\<close>)
  also have "\<dots> = scan rl_step mm lim ?q (rl_sw_major_digit, ?r1)"
    using assms d by (subst scan_major [of mm "Suc p" ds]) (auto simp: major minor)
  also have "\<dots> = scan rl_step mm lim (Suc ?q) (rl_sw_first_minor_digit, ?r1)"
    using assms by (intro scan_Next) (auto simp: major rl_step.simps rl_major_digit_def Let_def)
  also have "\<dots> = scan rl_step mm lim (Suc (Suc ?q))
      (rl_sw_minor_digit, ?r1\<lparr>r_http_minor := ucast e - 0x30\<rparr>)"
    using assms e ucast_digit8 [OF e(1)]
    by (intro scan_Next) (auto simp: major minor rl_step.simps rl_first_minor_digit_def Let_def not_less)
  also have "\<dots> = scan rl_step mm lim (Suc (Suc ?q) + length es) (rl_sw_minor_digit, ?r2)"
    using assms e by (subst scan_minor [of mm "Suc (Suc ?q)" es]) (auto simp: major minor)
  also have "\<dots> = scan rl_step mm lim (Suc (Suc (Suc ?q) + length es)) (rl_sw_almost_done, ?r2)"
    using assms by (intro scan_Next) (auto simp: major minor rl_step.simps rl_minor_digit_def)
  also have "\<dots> = Exited Goto_done (Suc (Suc (Suc ?q) + length es)) (rl_sw_almost_done, 
     ?r2\<lparr>r_request_end := Some (Suc (Suc ?q) + length es)\<rparr>)"
    using assms by (intro scan_Exit) (auto simp: major minor rl_step.simps rl_almost_done_def Let_def)
  finally show ?thesis by (simp add: major minor)
qed

text \<open>From the method to the first byte of the URI.\<close>

lemma scan_head:
  assumes at: "mem_at mm p (meth @ c_sp # c_slash # us)" and lim: "p + length meth + 2 \<le> lim"
    and meth: "meth \<noteq> []" "\<forall>c\<in>set meth. method_char c"
  shows "\<exists>r'. scan rl_step mm lim p (rl_sw_start, r) =
      scan rl_step mm lim (Suc (Suc (p + length meth))) (rl_sw_after_slash_in_uri, r') \<and>
    r_request_start r' = Some p \<and> r_method_end r' = Some (p + length meth - 1) \<and>
    r_uri_start r' = Some (p + length meth + 1) \<and>
    r_method r' = (case map_of http_methods meth of None \<Rightarrow> r_method r | Some v \<Rightarrow> v)"
proof -
  obtain c cs where m: "meth = c # cs" using meth(1) by (cases meth) auto
  let ?pm = "p + length meth"
  let ?r1 = "r\<lparr>r_request_start := Some p\<rparr>"
  let ?r2 = "rl_set_method mm ?pm (?r1\<lparr>r_method_end := Some (?pm - 1)\<rparr>)"
  let ?r3 = "?r2\<lparr>r_uri_start := Some (Suc ?pm)\<rparr>"
  have ch: "method_char c" using meth m by simp
  have sp: "mm ?pm = c_sp" "mm (Suc ?pm) = c_slash" using at by simp_all
  have "scan rl_step mm lim p (rl_sw_start, r) = scan rl_step mm lim (Suc p) (rl_sw_method, ?r1)"
    using at lim ch
    by (intro scan_Next) (auto simp: m rl_step.simps rl_start_def Let_def method_char_def)
  also have "\<dots> = scan rl_step mm lim ?pm (rl_sw_method, ?r1)"
    using at lim meth by (subst scan_method [of mm "Suc p" cs]) (auto simp: m)
  also have "\<dots> = scan rl_step mm lim (Suc ?pm) (rl_sw_spaces_before_uri, ?r2)"
    using sp lim by (intro scan_Next) (auto simp: rl_step.simps rl_method_def)
  also have "\<dots> = scan rl_step mm lim (Suc (Suc ?pm)) (rl_sw_after_slash_in_uri, ?r3)"
    using sp lim by (intro scan_Next) (auto simp: rl_step.simps rl_spaces_before_uri_def)
  finally have "scan rl_step mm lim p (rl_sw_start, r) = \<dots>" .
  moreover have "r_method ?r2 = (case map_of http_methods meth of None \<Rightarrow> r_method r | Some v \<Rightarrow> v)"
    using rl_find_method_table [of mm p "length meth"] sp(1) mem_at_mslice [of mm p meth] at
    by (simp add: rl_set_method_def split: option.split)
  moreover have "r_request_start ?r2 = Some p" "r_method_end ?r2 = Some (?pm - 1)"
    by (simp_all add: rl_set_method_def split: option.split)
  ultimately show ?thesis by (intro exI [of _ ?r3]) simp
qed

text \<open>From the space after the URI to the line feed.\<close>

lemma scan_tail:
  assumes at: "mem_at mm p (c_sp # [c_H, c_T, c_T, c_P, c_slash] @ major @ c_dot # minor @ [CR, LF])"
    and lim: "p + length major + length minor + 9 \<le> lim" and st: "st \<in> rl_uri_states"
    and ver: "digits major" "hd major \<noteq> c_0" "digits minor"
  shows "scan rl_step mm lim p (st, r) =
    Exited Goto_done (p + length major + length minor + 8)
      (rl_sw_almost_done,
       r\<lparr>r_uri_end := Some p, r_http_protocol_data := Some (Suc p),
         r_http_major := dec_word 0 major, r_http_minor := dec_word 0 minor,
         r_request_end := Some (p + length major + length minor + 7)\<rparr>)"
proof -
  let ?r1 = "r\<lparr>r_uri_end := Some p\<rparr>"
  let ?r2 = "?r1\<lparr>r_http_protocol_data := Some (Suc p)\<rparr>"
  let ?q = "Suc (Suc (Suc (Suc (Suc (Suc p)))))"
  obtain st' where st': "rl_step mm p (st, r) = Next (st', ?r1)"
      "st' \<in> {rl_sw_check_uri_http_09, rl_sw_http_09}"
    using rl_uri_space [of st mm p r] st at by auto
  have "scan rl_step mm lim p (st, r) = scan rl_step mm lim (Suc p) (st', ?r1)"
    using lim st' by (intro scan_Next) auto
  also have "\<dots> = scan rl_step mm lim (Suc (Suc p)) (rl_sw_http_H, ?r2)"
    using lim at rl_proto [of st' mm "Suc p" ?r1] st'(2) by (intro scan_Next) auto
  also have "\<dots> = scan rl_step mm lim ?q (rl_sw_first_major_digit, ?r2)"
    using lim at by (intro scan_http) auto
  also have "\<dots> = Exited Goto_done (?q + length major + length minor + 2)
      (rl_sw_almost_done, ?r2\<lparr>r_http_major := dec_word 0 major, r_http_minor := dec_word 0 minor,
          r_request_end := Some (?q + length major + length minor + 1)\<rparr>)"
    using lim ver at by (intro scan_version) auto
  finally show ?thesis by simp
qed

lemma scan_request_line:
  assumes at: "mem_at mm p (request_line meth uri major minor)"
    and lim: "p + length (request_line meth uri major minor) \<le> lim"
    and meth: "meth \<noteq> []" "\<forall>c\<in>set meth. method_char c" and uri: "uri_bytes uri"
    and ver: "digits major" "hd major \<noteq> c_0" "digits minor"
  shows "\<exists>r' q. scan rl_step mm lim p (rl_sw_start, r) = Exited Goto_done q (rl_sw_almost_done, r') \<and>
    q + 1 = p + length (request_line meth uri major minor) \<and>
    r_request_start r' = Some p \<and> r_method_end r' = Some (p + length meth - 1) \<and>
    r_uri_start r' = Some (p + length meth + 1) \<and>
    r_uri_end r' = Some (p + length meth + 1 + length uri) \<and>
    r_request_end r' = Some (q - 1) \<and>
    r_method r' = (case map_of http_methods meth of None \<Rightarrow> r_method r | Some v \<Rightarrow> v) \<and>
    r_http_major r' = dec_word 0 major \<and> r_http_minor r' = dec_word 0 minor"
proof -
  obtain us where u: "uri = c_slash # us" "\<forall>c\<in>set us. c \<notin> {NUL, CR, LF, c_sp}"
    using uri by (auto simp: uri_bytes_def)
  let ?pu = "Suc (p + length meth)"
  let ?pe = "?pu + length uri"
  obtain r3 where 1: "scan rl_step mm lim p (rl_sw_start, r) =
      scan rl_step mm lim (Suc ?pu) (rl_sw_after_slash_in_uri, r3)"
    and r3: "r_request_start r3 = Some p" "r_method_end r3 = Some (p + length meth - 1)"
      "r_uri_start r3 = Some (p + length meth + 1)"
      "r_method r3 = (case map_of http_methods meth of None \<Rightarrow> r_method r | Some v \<Rightarrow> v)"
    using scan_head [of mm p meth us lim r] at lim meth by (auto simp: request_line_def u)
  obtain st4 r4 where 2: "scan rl_step mm lim (Suc ?pu) (rl_sw_after_slash_in_uri, r3) =
      scan rl_step mm lim ?pe (st4, r4)"
      "st4 \<in> rl_uri_states" "rl_strip r4 = rl_strip r3"
    using scan_uri [of mm "Suc ?pu" us lim rl_sw_after_slash_in_uri r3] at lim u
    by (auto simp: request_line_def)
  have "mem_at mm ?pe (c_sp # [c_H, c_T, c_T, c_P, c_slash] @ major @ c_dot # minor @ [CR, LF])"
    "?pe + length major + length minor + 9 \<le> lim"
    using at lim by (simp_all add: request_line_def)
  note 3 = scan_tail [OF this 2(2) ver]
  have eq: "f (rl_strip r4) = f (rl_strip r3)" for f :: "ngx_http_request_t \<Rightarrow> 'a"
    using 2(3) by simp
  show ?thesis
    using 1 2(1) 3 [of r4] r3 eq [of r_request_start] eq [of r_method_end] eq [of r_uri_start]
    using 2(3) [THEN arg_cong, of r_method]
    by (simp add: rl_strip_def request_line_def)
qed

lemma of_nat_neq_9: "n < 2 ^ 32 \<Longrightarrow> 9 < n \<Longrightarrow> (of_nat n :: ngx_uint_t) \<noteq> 9"
  by (auto simp: word_unat_eq_iff unat_of_nat take_bit_nat_eq_self)

section \<open>Properties\<close>

text \<open>A buffer to evaluate the parser on: a request line of 16 bytes, received up to \<open>n\<close>.\<close>

definition request_line_example :: "nat \<Rightarrow> ngx_buf_t" where
  "request_line_example n =
     \<lparr>b_mem = mem_of (bytes ''GET /a HTTP/1.1'' @ [CR, LF]), b_pos = 0, b_last = n\<rparr>"

text \<open>
  C33. The request-line parser reads received bytes only: its return code, the request it
  leaves and the buffer position do not depend on what memory holds from \<open>b->last\<close> on,
  although \<open>ngx_str6cmp\<close> loads bytes beyond the current one.
\<close>

theorem request_line_local:
  assumes "\<And>i. i < b_last b \<Longrightarrow> mm i = b_mem b i"
  shows "ngx_http_parse_request_line r (b\<lparr>b_mem := mm\<rparr>) =
    (case ngx_http_parse_request_line r b of (rc, r', b') \<Rightarrow> (rc, r', b'\<lparr>b_mem := mm\<rparr>))"
  using assms by (rule rl.parse_local)

theorem request_line_local_witness:
  "ngx_http_parse_request_line ngx_http_create_request
      ((request_line_example 17)\<lparr>b_mem := (b_mem (request_line_example 17))(17 := 7)\<rparr>) =
    (case ngx_http_parse_request_line ngx_http_create_request (request_line_example 17) of
       (rc, r', b') \<Rightarrow> (rc, r', b'\<lparr>b_mem := (b_mem (request_line_example 17))(17 := 7)\<rparr>))"
  by (rule request_line_local) (simp add: request_line_example_def)

text \<open>
  C13. A request line may arrive in pieces: a call that returns \<open>NGX_AGAIN\<close>, continued by a
  second call when more bytes are there, returns the code the call on all the bytes
  returns, and with \<open>NGX_OK\<close>, \<open>NGX_AGAIN\<close> or the 0.9 method error leaves the same
  request and buffer position.
\<close>

theorem request_line_resume:
  assumes "ngx_http_parse_request_line r b = (NGX_AGAIN, r', b')"
    and "b_last b \<le> n" "\<And>i. i < b_last b \<Longrightarrow> mm i = b_mem b i"
    and "ngx_http_parse_request_line r (b\<lparr>b_mem := mm, b_last := n\<rparr>) = (rc1, r1, b1)"
    and "ngx_http_parse_request_line r' (b'\<lparr>b_mem := mm, b_last := n\<rparr>) = (rc2, r2, b2)"
  shows "rc1 = rc2 \<and>
    (rc1 \<in> {NGX_AGAIN, NGX_OK, NGX_HTTP_PARSE_INVALID_09_METHOD} \<longrightarrow> r1 = r2 \<and> b1 = b2)"
  using rl.parse_resume [OF assms] by (auto simp: rl_final_def)

theorem request_line_resume_witness:
  "let p = ngx_http_parse_request_line; r0 = ngx_http_create_request;
       (rc, r, b) = p r0 (request_line_example 6);
       (rc1, r1, b1) = p r0 (request_line_example 17);
       (rc2, r2, b2) = p r (b\<lparr>b_mem := b_mem (request_line_example 17), b_last := 17\<rparr>)
   in rc = NGX_AGAIN \<and> rc1 = NGX_OK \<and> rc2 = NGX_OK \<and> r1 = r2 \<and> b1 = b2"
proof -
  let ?p = ngx_http_parse_request_line and ?r0 = ngx_http_create_request
  obtain rc r b where 0: "?p ?r0 (request_line_example 6) = (rc, r, b)" by (metis prod_cases3)
  obtain rc1 r1 b1 where 1: "?p ?r0 (request_line_example 17) = (rc1, r1, b1)" by (metis prod_cases3)
  let ?b = "b\<lparr>b_mem := b_mem (request_line_example 17), b_last := 17\<rparr>"
  obtain rc2 r2 b2 where 2: "?p r ?b = (rc2, r2, b2)" by (metis prod_cases3)
  have rc: "rc = NGX_AGAIN"
  proof -
    have "fst (?p ?r0 (request_line_example 6)) = NGX_AGAIN" by code_simp
    with 0 show ?thesis by simp
  qed
  have rc1: "rc1 = NGX_OK"
  proof -
    have "fst (?p ?r0 (request_line_example 17)) = NGX_OK" by code_simp
    with 1 show ?thesis by simp
  qed
  have "(request_line_example 6)\<lparr>b_mem := b_mem (request_line_example 17), b_last := 17\<rparr> =
      request_line_example 17"
    by (simp add: request_line_example_def)
  with 1 have "?p ?r0 ((request_line_example 6)\<lparr>b_mem := b_mem (request_line_example 17),
      b_last := 17\<rparr>) = (rc1, r1, b1)" by simp
  moreover have "b_last (request_line_example 6) \<le> 17"
    "\<And>i. i < b_last (request_line_example 6) \<Longrightarrow>
      b_mem (request_line_example 17) i = b_mem (request_line_example 6) i"
    by (simp_all add: request_line_example_def)
  ultimately have "rc1 = rc2 \<and> (rc1 \<in> {NGX_AGAIN, NGX_OK, NGX_HTTP_PARSE_INVALID_09_METHOD} \<longrightarrow>
      r1 = r2 \<and> b1 = b2)"
    using request_line_resume [OF 0 [unfolded rc]] 2 by blast
  then show ?thesis by (simp add: 0 1 2 rc rc1 Let_def)
qed

text \<open>
  C12. After \<open>NGX_OK\<close> on a fresh request the pointers are in order inside the received
  bytes: the method, one space, the URI that starts with \<open>/\<close>, its arguments and extension
  inside it, the end of the line before the line feed that \<open>b->pos\<close> has passed. The method
  consists of capitals and underscores, and there is no NUL, CR or LF in the line.
\<close>

theorem request_line_layout:
  assumes "ngx_http_parse_request_line ngx_http_create_request b = (NGX_OK, r, b')"
  shows "rl_layout b r (b_pos b')"
proof -
  let ?m = "b_mem b" and ?r0 = "ngx_http_create_request"
  have load: "rl_load ?r0 = Some rl_sw_start"
    by (simp add: rl_load_def ngx_http_create_request_def rl_decode_def rl_enum_def)
  have i0: "rl_inv ?m (b_pos b) (rl_sw_start, ?r0)" "rl_from (b_pos b) ?m (b_pos b) (rl_sw_start, ?r0)"
    by (simp_all add: ngx_http_create_request_def rl_no_uri_def)
  obtain p st r1 where
    ex: "scan rl_step ?m (b_last b) (b_pos b) (rl_sw_start, ?r0) = Exited Goto_done p (st, r1)"
    and fin: "rl_done p r1 b = (NGX_OK, r, b')"
    using request_line_okD [OF assms load] by blast
  have pos: "p < b_last b" using scan_Exited_pos [OF ex] by simp
  have post: "rl_post ?m p Goto_done (st, r1)" using rli.scan_inv_Exited [OF i0(1) ex] .
  have frm: "rl_from (b_pos b) ?m p (st, r1)" using rls.scan_inv_Exited [OF i0(2) ex] .
  from post show ?thesis
    using fin frm pos
    apply (auto simp: rl_done_def Let_def rl_almost_def split: if_splits intro!: rl_layoutI)
    done
qed

theorem request_line_layout_witness:
  "let (rc, r, b) = ngx_http_parse_request_line ngx_http_create_request (request_line_example 17)
   in rc = NGX_OK \<and> rl_layout (request_line_example 17) r (b_pos b)"
proof -
  let ?x = "ngx_http_parse_request_line ngx_http_create_request (request_line_example 17)"
  have "fst ?x = NGX_OK" by code_simp
  then have "?x = (NGX_OK, fst (snd ?x), snd (snd ?x))" by (metis prod.collapse)
  from request_line_layout [OF this] \<open>fst ?x = NGX_OK\<close> show ?thesis
    by (simp add: case_prod_beta Let_def)
qed

text \<open>
  C11. Every well-formed request line is parsed to its parts: for a method of capitals and
  underscores, a URI of bytes other than NUL, CR, LF and space that starts with \<open>/\<close>, and
  a version whose numbers fit their 16 bits, the parser returns \<open>NGX_OK\<close>, consumes exactly
  the line, and method, URI and version are read back from the request.
\<close>

theorem request_line_parse:
  assumes at: "mem_at (b_mem b) (b_pos b) (request_line meth uri major minor)"
    and lim: "b_pos b + length (request_line meth uri major minor) \<le> b_last b"
    and meth: "meth \<noteq> []" "\<forall>c\<in>set meth. method_char c" and uri: "uri_bytes uri"
    and ver: "digits major" "hd major \<noteq> c_0" "digits minor"
    and small: "dec_val major < 2 ^ 16" "dec_val minor < 2 ^ 16"
  shows "\<exists>r s e u v. ngx_http_parse_request_line ngx_http_create_request b =
      (NGX_OK, r, b\<lparr>b_pos := b_pos b + length (request_line meth uri major minor)\<rparr>) \<and>
    r_request_start r = Some s \<and> r_method_end r = Some e \<and> mslice (b_mem b) s (Suc e) = meth \<and>
    r_uri_start r = Some u \<and> r_uri_end r = Some v \<and> mslice (b_mem b) u v = uri \<and>
    r_method r = (case map_of http_methods meth of None \<Rightarrow> NGX_HTTP_UNKNOWN | Some w \<Rightarrow> w) \<and>
    r_http_version r = of_nat (1000 * dec_val major + dec_val minor)"
proof -
  let ?r0 = ngx_http_create_request
  obtain r' q where sc: "scan rl_step (b_mem b) (b_last b) (b_pos b) (rl_sw_start, ?r0) =
      Exited Goto_done q (rl_sw_almost_done, r')"
    and q: "q + 1 = b_pos b + length (request_line meth uri major minor)"
    and r': "r_request_start r' = Some (b_pos b)" "r_method_end r' = Some (b_pos b + length meth - 1)"
      "r_uri_start r' = Some (b_pos b + length meth + 1)"
      "r_uri_end r' = Some (b_pos b + length meth + 1 + length uri)"
      "r_request_end r' = Some (q - 1)"
      "r_method r' = (case map_of http_methods meth of None \<Rightarrow> r_method ?r0 | Some v \<Rightarrow> v)"
      "r_http_major r' = dec_word 0 major" "r_http_minor r' = dec_word 0 minor"
    using scan_request_line [OF at lim meth uri ver] by blast
  have v: "ucast (r_http_major r') * 1000 + ucast (r_http_minor r') =
      (of_nat (1000 * dec_val major + dec_val minor) :: ngx_uint_t)"
    using small ver by (simp add: r' dec_word_val unsigned_of_nat take_bit_nat_eq_self)
  have "1000 * dec_val major + dec_val minor < 2 ^ 32" "9 < 1000 * dec_val major + dec_val minor"
    using small dec_val_pos [OF ver(1,2)] by simp_all
  then have v9: "(ucast (r_http_major r') * 1000 + ucast (r_http_minor r') :: ngx_uint_t) \<noteq> 9"
    unfolding v by (rule of_nat_neq_9)
  have fin: "ngx_http_parse_request_line ?r0 b = rl_done q r' b"
    using sc by (simp add: ngx_http_parse_request_line_def rl_load_def ngx_http_create_request_def rl_decode_def rl_enum_def)
  have m: "r_method r' = (case map_of http_methods meth of None \<Rightarrow> NGX_HTTP_UNKNOWN | Some w \<Rightarrow> w)"
    using r'(6) by (simp add: ngx_http_create_request_def split: option.split)
  have sl: "mslice (b_mem b) (b_pos b) (b_pos b + length meth) = meth"
    "mslice (b_mem b) (b_pos b + length meth + 1) (b_pos b + length meth + 1 + length uri) = uri"
    using at by (auto simp: request_line_def intro!: mem_at_mslice)
  show ?thesis
    unfolding fin using r'(1-5,7-) m q v v9 sl meth(1)
    by (simp add: rl_done_def Let_def)
qed

theorem request_line_parse_witness:
  "\<exists>r s e u v. ngx_http_parse_request_line ngx_http_create_request (request_line_example 17) =
      (NGX_OK, r, (request_line_example 17)\<lparr>b_pos := 17\<rparr>) \<and>
    r_request_start r = Some s \<and> r_method_end r = Some e \<and>
    mslice (b_mem (request_line_example 17)) s (Suc e) = bytes ''GET'' \<and>
    r_uri_start r = Some u \<and> r_uri_end r = Some v \<and>
    mslice (b_mem (request_line_example 17)) u v = bytes ''/a'' \<and>
    r_method r = NGX_HTTP_GET \<and> r_http_version r = 1001"
proof -
  let ?l = "request_line (bytes ''GET'') (bytes ''/a'') (bytes ''1'') (bytes ''1'')"
  have l: "bytes ''GET /a HTTP/1.1'' @ [CR, LF] = ?l"
    by (simp add: request_line_def bytes_def)
  have len: "length ?l = 17" by (simp add: request_line_def bytes_def)
  have "mem_at (b_mem (request_line_example 17)) (b_pos (request_line_example 17)) ?l"
    using mem_at_mem_of [of ?l] by (simp add: request_line_example_def l)
  from request_line_parse [OF this] len show ?thesis
    by (simp add: request_line_example_def bytes_def method_char_def uri_bytes_def digits_def
        dec_val_def http_methods_def)
qed


text \<open>
  C28. The comparisons of four bytes at a time find the method the table of names gives:
  for a name followed by a space, the word comparisons of the little-endian configuration
  agree with comparing the name byte by byte.
\<close>

theorem find_method_table:
  assumes "mm (m + len) = c_sp"
  shows "rl_find_method mm m len = map_of http_methods (mslice mm m (m + len))"
  using assms by (rule rl_find_method_table)

theorem find_method_table_witness:
  "rl_find_method (mem_of (bytes ''DELETE '')) 0 6 = Some NGX_HTTP_DELETE"
proof -
  have "mem_of (bytes ''DELETE '') (0 + 6) = c_sp" by (simp add: mem_of_def bytes_def)
  from find_method_table [of "mem_of (bytes ''DELETE '')" 0 6, OF this] show ?thesis
    by (simp add: http_methods_def bytes_def mslice_def mem_of_def upt_conv_Cons)
qed

end
