(* ===== verification/Ngx_String.thy ===== *)
theory Ngx_String
  imports Prelude
begin

text \<open>
  Byte strings: lower case, hash keys (\<open>src/core/ngx_string.c\<close>, \<open>ngx_hash.c\<close>). A string
  \<open>(data, len)\<close> is the list of its bytes.
\<close>

section \<open>Lower case and hash keys\<close>

definition ngx_tolower :: "byte \<Rightarrow> byte" where
  "ngx_tolower c = (if c_A \<le> c \<and> c \<le> c_Z then c OR 0x20 else c)"

definition ngx_strlow :: "byte list \<Rightarrow> byte list" where
  "ngx_strlow src = map ngx_tolower src"

definition ngx_hash :: "ngx_uint_t \<Rightarrow> byte \<Rightarrow> ngx_uint_t" where
  "ngx_hash key c = key * 31 + ucast c"

definition ngx_hash_key :: "byte list \<Rightarrow> ngx_uint_t" where
  "ngx_hash_key data = foldl ngx_hash 0 data"

definition ngx_hash_key_lc :: "byte list \<Rightarrow> ngx_uint_t" where
  "ngx_hash_key_lc data = foldl (\<lambda>key c. ngx_hash key (ngx_tolower c)) 0 data"

text \<open>\<open>ngx_hash_strlow\<close> returns the hash and fills \<open>dst\<close>.\<close>

fun ngx_hash_strlow_loop :: "ngx_uint_t \<Rightarrow> byte list \<Rightarrow> ngx_uint_t \<times> byte list" where
  "ngx_hash_strlow_loop key [] = (key, [])"
| "ngx_hash_strlow_loop key (c # src) =
    (let d = ngx_tolower c; key = ngx_hash key d; (key', dst) = ngx_hash_strlow_loop key src
     in (key', d # dst))"

definition ngx_hash_strlow :: "byte list \<Rightarrow> ngx_uint_t \<times> byte list" where
  "ngx_hash_strlow src = ngx_hash_strlow_loop 0 src"

lemma ngx_tolower_idem [simp]: "ngx_tolower (ngx_tolower c) = ngx_tolower c"
  by (rule all_bytes) code_simp

lemma ngx_strlow_append [simp]: "ngx_strlow (xs @ ys) = ngx_strlow xs @ ngx_strlow ys"
  by (simp add: ngx_strlow_def)

lemma ngx_hash_key_snoc [simp]: "ngx_hash_key (xs @ [c]) = ngx_hash (ngx_hash_key xs) c"
  by (simp add: ngx_hash_key_def)

lemma ngx_hash_key_lc_eq: "ngx_hash_key_lc data = ngx_hash_key (ngx_strlow data)"
  by (simp add: ngx_hash_key_lc_def ngx_hash_key_def ngx_strlow_def foldl_map)

lemma ngx_hash_strlow_loop_eq:
  "ngx_hash_strlow_loop key src = (foldl ngx_hash key (ngx_strlow src), ngx_strlow src)"
  by (induction src arbitrary: key) (simp_all add: ngx_strlow_def Let_def)

lemma ngx_hash_strlow_eq: "ngx_hash_strlow src = (ngx_hash_key_lc src, ngx_strlow src)"
  by (simp add: ngx_hash_strlow_def ngx_hash_strlow_loop_eq ngx_hash_key_lc_eq ngx_hash_key_def)

end
