(* ===== verification/Http_Header_Line.thy ===== *)
theory Http_Header_Line
  imports Http_Request Ngx_String
begin

text \<open>
  \<open>ngx_http_parse_header_line\<close> of \<open>src/http/ngx_http_parse.c\<close>, the state machine for
  \<open>Name: value CRLF\<close>, with the running hash and the lower-case copy of the name that
  \<open>ngx_http_process_request_headers\<close> (\<open>ngx_http_request.c\<close>) looks the header up by.
\<close>

section \<open>States and tables\<close>

datatype hl_state =
    hl_sw_start
  | hl_sw_name
  | hl_sw_space_before_value
  | hl_sw_value
  | hl_sw_space_after_value
  | hl_sw_ignore_line
  | hl_sw_almost_done
  | hl_sw_header_almost_done

definition hl_enum :: "hl_state list" where
  "hl_enum =
    [hl_sw_start, hl_sw_name, hl_sw_space_before_value, hl_sw_value, hl_sw_space_after_value,
     hl_sw_ignore_line, hl_sw_almost_done, hl_sw_header_almost_done]"

fun hl_code :: "hl_state \<Rightarrow> nat" where
  "hl_code hl_sw_start = 0"
| "hl_code hl_sw_name = 1"
| "hl_code hl_sw_space_before_value = 2"
| "hl_code hl_sw_value = 3"
| "hl_code hl_sw_space_after_value = 4"
| "hl_code hl_sw_ignore_line = 5"
| "hl_code hl_sw_almost_done = 6"
| "hl_code hl_sw_header_almost_done = 7"

definition hl_decode :: "nat \<Rightarrow> hl_state option" where
  "hl_decode n = (if n < length hl_enum then Some (hl_enum ! n) else None)"

lemma hl_decode_code [simp]: "hl_decode (hl_code st) = Some st"
  by (cases st) (simp_all add: hl_decode_def hl_enum_def)

text \<open>The table \<open>lowcase\<close>, row by row.\<close>

definition lowcase_tab :: "byte list" where
  "lowcase_tab =
    replicate 32 0 @
    replicate 13 0 @ [c_dash, 0, 0] @ bytes ''0123456789'' @ replicate 6 0 @
    [0] @ bytes ''abcdefghijklmnopqrstuvwxyz'' @ replicate 5 0 @
    [0] @ bytes ''abcdefghijklmnopqrstuvwxyz'' @ replicate 5 0 @
    replicate 32 0 @ replicate 32 0 @ replicate 32 0 @ replicate 32 0"

definition lowcase :: "byte \<Rightarrow> byte" where
  "lowcase ch = lowcase_tab ! unat ch"

section \<open>One definition per state\<close>

text \<open>The local variables \<open>state\<close>, \<open>hash\<close> and \<open>i\<close>.\<close>

type_synonym hl_locals = "hl_state \<times> ngx_uint_t \<times> nat"
type_synonym hl_action = "(parse_exit, hl_locals \<times> ngx_http_request_t) action"

abbreviation hl_invalid :: "hl_locals \<Rightarrow> ngx_http_request_t \<Rightarrow> hl_action" where
  "hl_invalid l r \<equiv> Exit (Return NGX_HTTP_PARSE_INVALID_HEADER) (l, r)"

definition hl_start ::
  "bool \<Rightarrow> mem \<Rightarrow> nat \<Rightarrow> ngx_uint_t \<Rightarrow> nat \<Rightarrow> ngx_http_request_t \<Rightarrow> hl_action" where
  "hl_start allow_underscores mm p hash i r =
    (let ch = mm p; r = r\<lparr>r_header_name_start := Some p, r_invalid_header := False\<rparr>; c = lowcase ch in
     if ch = CR then Next ((hl_sw_header_almost_done, hash, i), r\<lparr>r_header_end := Some p\<rparr>)
     else if ch = LF then Exit Goto_header_done ((hl_sw_start, hash, i), r\<lparr>r_header_end := Some p\<rparr>)
     else if c \<noteq> 0
     then Next ((hl_sw_name, ngx_hash 0 c, 1), r\<lparr>r_lowcase_header := (r_lowcase_header r)[0 := c]\<rparr>)
     else if ch = c_under
     then (if allow_underscores
           then Next ((hl_sw_name, ngx_hash 0 ch, 1), r\<lparr>r_lowcase_header := (r_lowcase_header r)[0 := ch]\<rparr>)
           else Next ((hl_sw_name, hash, i), r\<lparr>r_invalid_header := True\<rparr>))
     else if ch = NUL then hl_invalid (hl_sw_name, hash, i) r
     else Next ((hl_sw_name, hash, i), r\<lparr>r_invalid_header := True\<rparr>))"

text \<open>\<open>r->lowcase_header[i++] = c; i &= (NGX_HTTP_LC_HEADER_LEN - 1);\<close>\<close>

definition hl_push ::
  "byte \<Rightarrow> ngx_uint_t \<Rightarrow> nat \<Rightarrow> ngx_http_request_t \<Rightarrow> hl_action" where
  "hl_push c hash i r =
    Next ((hl_sw_name, ngx_hash hash c, (i + 1) AND (NGX_HTTP_LC_HEADER_LEN - 1)),
          r\<lparr>r_lowcase_header := (r_lowcase_header r)[i := c]\<rparr>)"

text \<open>The duplicate status lines IIS may send: \<open>HTTP/\<close> at the start of a header line.\<close>

definition hl_iis_line :: "mem \<Rightarrow> nat \<Rightarrow> ngx_http_request_t \<Rightarrow> bool" where
  "hl_iis_line mm p r \<longleftrightarrow> mm p = c_slash \<and> r_upstream r \<and>
     (case r_header_name_start r of
        None \<Rightarrow> False
      | Some s \<Rightarrow> p = s + 4 \<and> mm s = c_H \<and> mm (s + 1) = c_T \<and> mm (s + 2) = c_T \<and> mm (s + 3) = c_P)"

definition hl_name ::
  "bool \<Rightarrow> mem \<Rightarrow> nat \<Rightarrow> ngx_uint_t \<Rightarrow> nat \<Rightarrow> ngx_http_request_t \<Rightarrow> hl_action" where
  "hl_name allow_underscores mm p hash i r =
    (let ch = mm p; c = lowcase ch in
     if c \<noteq> 0 then hl_push c hash i r
     else if ch = c_under
     then (if allow_underscores then hl_push ch hash i r
           else Next ((hl_sw_name, hash, i), r\<lparr>r_invalid_header := True\<rparr>))
     else if ch = c_colon
     then Next ((hl_sw_space_before_value, hash, i), r\<lparr>r_header_name_end := Some p\<rparr>)
     else if ch = CR
     then Next ((hl_sw_almost_done, hash, i),
            r\<lparr>r_header_name_end := Some p, r_header_start := Some p, r_header_end := Some p\<rparr>)
     else if ch = LF
     then Exit Goto_done ((hl_sw_name, hash, i),
            r\<lparr>r_header_name_end := Some p, r_header_start := Some p, r_header_end := Some p\<rparr>)
     else if hl_iis_line mm p r then Next ((hl_sw_ignore_line, hash, i), r)
     else if ch = NUL then hl_invalid (hl_sw_name, hash, i) r
     else Next ((hl_sw_name, hash, i), r\<lparr>r_invalid_header := True\<rparr>))"

definition hl_space_before_value ::
  "mem \<Rightarrow> nat \<Rightarrow> ngx_uint_t \<Rightarrow> nat \<Rightarrow> ngx_http_request_t \<Rightarrow> hl_action" where
  "hl_space_before_value mm p hash i r =
    (let ch = mm p in
     if ch = c_sp then Next ((hl_sw_space_before_value, hash, i), r)
     else if ch = CR
     then Next ((hl_sw_almost_done, hash, i), r\<lparr>r_header_start := Some p, r_header_end := Some p\<rparr>)
     else if ch = LF
     then Exit Goto_done ((hl_sw_space_before_value, hash, i),
            r\<lparr>r_header_start := Some p, r_header_end := Some p\<rparr>)
     else if ch = NUL then hl_invalid (hl_sw_space_before_value, hash, i) r
     else Next ((hl_sw_value, hash, i), r\<lparr>r_header_start := Some p\<rparr>))"

definition hl_value ::
  "mem \<Rightarrow> nat \<Rightarrow> ngx_uint_t \<Rightarrow> nat \<Rightarrow> ngx_http_request_t \<Rightarrow> hl_action" where
  "hl_value mm p hash i r =
    (let ch = mm p in
     if ch = c_sp then Next ((hl_sw_space_after_value, hash, i), r\<lparr>r_header_end := Some p\<rparr>)
     else if ch = CR then Next ((hl_sw_almost_done, hash, i), r\<lparr>r_header_end := Some p\<rparr>)
     else if ch = LF then Exit Goto_done ((hl_sw_value, hash, i), r\<lparr>r_header_end := Some p\<rparr>)
     else if ch = NUL then hl_invalid (hl_sw_value, hash, i) r
     else Next ((hl_sw_value, hash, i), r))"

definition hl_space_after_value ::
  "mem \<Rightarrow> nat \<Rightarrow> ngx_uint_t \<Rightarrow> nat \<Rightarrow> ngx_http_request_t \<Rightarrow> hl_action" where
  "hl_space_after_value mm p hash i r =
    (let ch = mm p in
     if ch = c_sp then Next ((hl_sw_space_after_value, hash, i), r)
     else if ch = CR then Next ((hl_sw_almost_done, hash, i), r)
     else if ch = LF then Exit Goto_done ((hl_sw_space_after_value, hash, i), r)
     else if ch = NUL then hl_invalid (hl_sw_space_after_value, hash, i) r
     else Next ((hl_sw_value, hash, i), r))"

definition hl_ignore_line ::
  "mem \<Rightarrow> nat \<Rightarrow> ngx_uint_t \<Rightarrow> nat \<Rightarrow> ngx_http_request_t \<Rightarrow> hl_action" where
  "hl_ignore_line mm p hash i r =
    (if mm p = LF then Next ((hl_sw_start, hash, i), r) else Next ((hl_sw_ignore_line, hash, i), r))"

definition hl_almost_done ::
  "mem \<Rightarrow> nat \<Rightarrow> ngx_uint_t \<Rightarrow> nat \<Rightarrow> ngx_http_request_t \<Rightarrow> hl_action" where
  "hl_almost_done mm p hash i r =
    (let ch = mm p in
     if ch = LF then Exit Goto_done ((hl_sw_almost_done, hash, i), r)
     else if ch = CR then Next ((hl_sw_almost_done, hash, i), r)
     else hl_invalid (hl_sw_almost_done, hash, i) r)"

definition hl_header_almost_done ::
  "mem \<Rightarrow> nat \<Rightarrow> ngx_uint_t \<Rightarrow> nat \<Rightarrow> ngx_http_request_t \<Rightarrow> hl_action" where
  "hl_header_almost_done mm p hash i r =
    (if mm p = LF then Exit Goto_header_done ((hl_sw_header_almost_done, hash, i), r)
     else hl_invalid (hl_sw_header_almost_done, hash, i) r)"

fun hl_step :: "bool \<Rightarrow> mem \<Rightarrow> nat \<Rightarrow> hl_locals \<times> ngx_http_request_t \<Rightarrow> hl_action" where
  "hl_step allow_underscores mm p ((st, hash, i), r) =
    (case st of
       hl_sw_start \<Rightarrow> hl_start allow_underscores mm p hash i r
     | hl_sw_name \<Rightarrow> hl_name allow_underscores mm p hash i r
     | hl_sw_space_before_value \<Rightarrow> hl_space_before_value mm p hash i r
     | hl_sw_value \<Rightarrow> hl_value mm p hash i r
     | hl_sw_space_after_value \<Rightarrow> hl_space_after_value mm p hash i r
     | hl_sw_ignore_line \<Rightarrow> hl_ignore_line mm p hash i r
     | hl_sw_almost_done \<Rightarrow> hl_almost_done mm p hash i r
     | hl_sw_header_almost_done \<Rightarrow> hl_header_almost_done mm p hash i r)"

declare hl_step.simps [simp del]

section \<open>The function\<close>

text \<open>
  With \<open>NGX_AGAIN\<close> and \<open>done\<close> the hash and the index are stored in the request; the code
  behind \<open>header_done\<close> stores neither.
\<close>

definition hl_save :: "hl_locals \<Rightarrow> ngx_http_request_t \<Rightarrow> ngx_http_request_t" where
  "hl_save l r =
    (case l of (st, hash, i) \<Rightarrow> r\<lparr>r_state := hl_code st, r_header_hash := hash, r_lowcase_index := i\<rparr>)"

definition hl_load :: "ngx_http_request_t \<Rightarrow> hl_locals option" where
  "hl_load r = map_option (\<lambda>st. (st, r_header_hash r, r_lowcase_index r)) (hl_decode (r_state r))"

fun hl_leave :: "parse_exit \<Rightarrow> nat \<Rightarrow> hl_locals \<Rightarrow> ngx_http_request_t \<Rightarrow> ngx_buf_t \<Rightarrow>
    ngx_rc \<times> ngx_http_request_t \<times> ngx_buf_t" where
  "hl_leave Goto_done p (st, hash, i) r b =
     (NGX_OK, hl_save (hl_sw_start, hash, i) r, b\<lparr>b_pos := p + 1\<rparr>)"
| "hl_leave Goto_header_done p (st, hash, i) r b =
     (NGX_HTTP_PARSE_HEADER_DONE, r\<lparr>r_state := hl_code hl_sw_start\<rparr>, b\<lparr>b_pos := p + 1\<rparr>)"
| "hl_leave (Return rc) p l r b = (rc, r, b)"

definition ngx_http_parse_header_line ::
  "bool \<Rightarrow> ngx_http_request_t \<Rightarrow> ngx_buf_t \<Rightarrow> ngx_rc \<times> ngx_http_request_t \<times> ngx_buf_t" where
  "ngx_http_parse_header_line allow_underscores r b =
    (case hl_load r of
       None \<Rightarrow> (NGX_AGAIN, r, b\<lparr>b_pos := max (b_pos b) (b_last b)\<rparr>)
     | Some l \<Rightarrow>
         (case scan (hl_step allow_underscores) (b_mem b) (b_last b) (b_pos b) (l, r) of
            Again p (l', r') \<Rightarrow> (NGX_AGAIN, hl_save l' r', b\<lparr>b_pos := p\<rparr>)
          | Exited x p (l', r') \<Rightarrow> hl_leave x p l' r' b))"

section \<open>The entry of the header table\<close>

text \<open>
  What \<open>ngx_http_process_request_headers\<close> does with a parsed line: drop it when it is
  invalid and \<open>ignore_invalid_headers\<close> is on, otherwise terminate key and value by NUL bytes
  in the buffer and fill a \<open>ngx_table_elt_t\<close>, with the lower-case key copied from
  \<open>r->lowcase_header\<close> when that holds the whole name. The allocation is taken to succeed.
\<close>

record ngx_table_elt_t =
  t_hash :: ngx_uint_t
  t_key :: "byte list"
  t_value :: "byte list"
  t_lowcase_key :: "byte list"

definition ngx_http_header_elt ::
  "bool \<Rightarrow> mem \<Rightarrow> ngx_http_request_t \<Rightarrow> (mem \<times> ngx_table_elt_t) option" where
  "ngx_http_header_elt ignore_invalid_headers m r =
    (if r_invalid_header r \<and> ignore_invalid_headers then None
     else case (r_header_name_start r, r_header_name_end r, r_header_start r, r_header_end r) of
       (Some s, Some e, Some v, Some w) \<Rightarrow>
         (let key_len = e - s; m = m(e := 0); m = m(w := 0)
          in Some (m,
            \<lparr> t_hash = r_header_hash r,
              t_key = mslice m s e,
              t_value = mslice m v w,
              t_lowcase_key =
                (if key_len = r_lowcase_index r then take key_len (r_lowcase_header r)
                 else ngx_strlow (mslice m s e)) \<rparr>))
     | _ \<Rightarrow> None)"

lemmas hl_defs =
  hl_start_def hl_push_def hl_name_def hl_space_before_value_def hl_value_def
  hl_space_after_value_def hl_ignore_line_def hl_almost_done_def hl_header_almost_done_def

section \<open>The table of lower-case letters\<close>

lemma lowcase_eq:
  "lowcase ch = (if is_digit ch \<or> is_lower ch \<or> is_upper ch \<or> ch = c_dash then ngx_tolower ch else 0)"
  by (rule all_bytes) code_simp

lemma lowcase_tolower: "lowcase ch \<noteq> 0 \<Longrightarrow> lowcase ch = ngx_tolower ch"
  by (simp add: lowcase_eq split: if_splits)

lemma lowcase_clean:
  "lowcase ch \<noteq> 0 \<Longrightarrow> ch \<notin> {NUL, CR, LF, c_colon, c_sp, c_slash, c_under}"
  by (auto simp: lowcase_eq split: if_splits)

lemma lc_mask [simp]: "i AND 31 = i mod 32" for i :: nat
  using take_bit_eq_mask [of 5 i] by (simp add: take_bit_eq_mod mask_eq_exp_minus_1)

section \<open>The contract of a line parser\<close>

lemma hl_iis_local: "(\<And>i. i \<le> p \<Longrightarrow> m i = m' i) \<Longrightarrow> hl_iis_line m p r = hl_iis_line m' p r"
  by (auto simp: hl_iis_line_def split: option.split)

lemma hl_step_local:
  assumes "\<And>i. i \<le> p \<Longrightarrow> m i = m' i"
  shows "hl_step au m p s = hl_step au m' p s"
proof -
  obtain st hash i r where s: "s = ((st, hash, i), r)" by (metis prod_cases4 prod.collapse)
  show ?thesis
    unfolding s using assms [of p] hl_iis_local [OF assms]
    by (cases st; simp only: hl_step.simps hl_state.case hl_defs Let_def order.refl)
qed

lemma hl_iis_save [simp]: "hl_iis_line m p (hl_save k r) = hl_iis_line m p r"
  by (simp add: hl_iis_line_def hl_save_def split: prod.split)

lemma hl_save_commute:
  "(hl_save k r)\<lparr>r_header_name_start := a\<rparr> = hl_save k (r\<lparr>r_header_name_start := a\<rparr>)"
  "(hl_save k r)\<lparr>r_header_name_end := a\<rparr> = hl_save k (r\<lparr>r_header_name_end := a\<rparr>)"
  "(hl_save k r)\<lparr>r_header_start := a\<rparr> = hl_save k (r\<lparr>r_header_start := a\<rparr>)"
  "(hl_save k r)\<lparr>r_header_end := a\<rparr> = hl_save k (r\<lparr>r_header_end := a\<rparr>)"
  "(hl_save k r)\<lparr>r_invalid_header := c\<rparr> = hl_save k (r\<lparr>r_invalid_header := c\<rparr>)"
  "(hl_save k r)\<lparr>r_lowcase_header := d\<rparr> = hl_save k (r\<lparr>r_lowcase_header := d\<rparr>)"
  "r_lowcase_header (hl_save k r) = r_lowcase_header r"
  by (simp_all add: hl_save_def split: prod.split)

lemma hl_step_save:
  "hl_step au m p (l, hl_save k r) = map_action id (apsnd (hl_save k)) (hl_step au m p (l, r))"
proof -
  obtain st hash i where l: "l = (st, hash, i)" by (metis prod_cases3)
  show ?thesis
    unfolding l
    by (cases st; simp only: hl_step.simps hl_state.case)
      (simp_all add: hl_defs Let_def hl_save_commute
        if_distrib [of "map_action id (apsnd (hl_save k))"] split del: if_split cong: if_cong)
qed

lemma hl_step_exit:
  "hl_step au m p s = Exit x s' \<Longrightarrow>
     x \<in> {Goto_done, Goto_header_done, Return NGX_HTTP_PARSE_INVALID_HEADER}"
  apply (cases s, cases "fst (fst s)"; cases "fst s"; simp only: hl_step.simps hl_state.case prod.sel)
  apply (auto simp: hl_defs Let_def hl_step.simps split: if_splits prod.splits)
  done

definition hl_final :: "ngx_rc \<Rightarrow> bool" where
  "hl_final rc \<longleftrightarrow> rc = NGX_OK \<or> rc = NGX_HTTP_PARSE_HEADER_DONE"

text \<open>At the end of the header the hash and the index mean nothing any more.\<close>

definition hl_view :: "ngx_rc \<Rightarrow> ngx_http_request_t \<Rightarrow> ngx_http_request_t" where
  "hl_view rc r =
    (if rc = NGX_HTTP_PARSE_HEADER_DONE then r\<lparr>r_header_hash := 0, r_lowcase_index := 0\<rparr> else r)"

lemma hl_save_save [simp]: "hl_save l (hl_save k r) = hl_save l r"
  by (simp add: hl_save_def split: prod.split)

interpretation hl:
  line_parser "hl_step au" hl_save hl_load hl_leave hl_final hl_view "ngx_http_parse_header_line au"
  for au
proof
  show "hl_step au m p s = hl_step au m' p s" if "\<And>i. i \<le> p \<Longrightarrow> m i = m' i" for p m m' s
    using that by (rule hl_step_local)
  show "hl_step au m p (l, hl_save k r) = map_action id (apsnd (hl_save k)) (hl_step au m p (l, r))"
    for m p l k r
    by (rule hl_step_save)
  show "hl_leave x p l r (b\<lparr>b_mem := m\<rparr>) = apsnd (apsnd (b_mem_update (\<lambda>_. m))) (hl_leave x p l r b)"
    for x p l r b m
    by (cases x; cases l) simp_all
  show "fst (hl_leave x p l (hl_save k r) (b\<lparr>b_pos := q\<rparr>)) = fst (hl_leave x p l r b)" for x p l k r b q
    by (cases x; cases l) simp_all
  show "hl_view rc r2 = hl_view rc r1 \<and> b2 = b1"
    if "hl_step au m' p' s = Exit x s'" "hl_leave x p l r b = (rc, r1, b1)" "hl_final rc"
      "hl_leave x p l (hl_save k r) (b\<lparr>b_pos := q\<rparr>) = (rc, r2, b2)"
    for m' p' s x s' p l r b k q rc r1 r2 b1 b2
    using hl_step_exit [OF that(1)] that(2-4)
    by (cases l) (auto simp: hl_final_def hl_view_def, auto simp: hl_save_def split: prod.splits)
  show "fst (hl_leave x q l r b) \<noteq> NGX_AGAIN" if "hl_step au m p s = Exit x s'" for m p s x s' q l r b
    using hl_step_exit [OF that] by (cases l) auto
qed (simp_all add: hl_load_def hl_save_def ngx_http_parse_header_line_def split: prod.split)

section \<open>The pointers after a header line\<close>

text \<open>
  The parts of a line: name from \<open>s\<close> to \<open>e\<close>, value from \<open>v\<close> to \<open>w\<close>, trimmed of spaces. A
  line without a colon is a name without a value.
\<close>

definition hl_shape :: "mem \<Rightarrow> nat \<Rightarrow> nat \<Rightarrow> nat \<Rightarrow> nat \<Rightarrow> bool" where
  "hl_shape m s e v w \<longleftrightarrow> s < e \<and> e \<le> v \<and> v \<le> w \<and> span line_byte m s w \<and>
     span (\<lambda>c. c \<noteq> c_colon) m (Suc s) e \<and>
     (if e = v then v = w else m e = c_colon \<and> span (\<lambda>c. c = c_sp) m (Suc e) v) \<and>
     (v < w \<longrightarrow> m v \<noteq> c_sp \<and> m (w - 1) \<noteq> c_sp)"

definition hl_layout :: "nat \<Rightarrow> mem \<Rightarrow> nat \<Rightarrow> ngx_http_request_t \<Rightarrow> bool" where
  "hl_layout p0 m q r \<longleftrightarrow> (\<exists>s e v w. r_header_name_start r = Some s \<and> r_header_name_end r = Some e \<and>
     r_header_start r = Some v \<and> r_header_end r = Some w \<and> p0 \<le> s \<and> hl_shape m s e v w \<and> w \<le> q \<and>
     span (\<lambda>c. c = c_sp \<or> c = CR) m w q)"

definition hl_named :: "nat \<Rightarrow> mem \<Rightarrow> nat \<Rightarrow> nat \<Rightarrow> ngx_http_request_t \<Rightarrow> bool" where
  "hl_named p0 m p s r \<longleftrightarrow>
     r_header_name_start r = Some s \<and> p0 \<le> s \<and> s < p \<and> span line_byte m s p"

definition hl_colon :: "nat \<Rightarrow> mem \<Rightarrow> nat \<Rightarrow> nat \<Rightarrow> nat \<Rightarrow> ngx_http_request_t \<Rightarrow> bool" where
  "hl_colon p0 m p s e r \<longleftrightarrow> hl_named p0 m p s r \<and> r_header_name_end r = Some e \<and> s < e \<and> e < p \<and>
     span (\<lambda>c. c \<noteq> c_colon) m (Suc s) e \<and> m e = c_colon"

definition hl_in_value :: "nat \<Rightarrow> mem \<Rightarrow> nat \<Rightarrow> nat \<Rightarrow> nat \<Rightarrow> nat \<Rightarrow> ngx_http_request_t \<Rightarrow> bool" where
  "hl_in_value p0 m p s e v r \<longleftrightarrow> hl_colon p0 m p s e r \<and> r_header_start r = Some v \<and> e < v \<and> v < p \<and>
     span (\<lambda>c. c = c_sp) m (Suc e) v \<and> m v \<noteq> c_sp"

fun hl_inv :: "nat \<Rightarrow> mem \<Rightarrow> nat \<Rightarrow> hl_locals \<times> ngx_http_request_t \<Rightarrow> bool" where
  "hl_inv p0 m p ((st, hash, i), r) \<longleftrightarrow> p0 \<le> p \<and>
    (case st of
       hl_sw_name \<Rightarrow> (\<exists>s. hl_named p0 m p s r \<and> span (\<lambda>c. c \<noteq> c_colon) m (Suc s) p)
     | hl_sw_space_before_value \<Rightarrow>
         (\<exists>s e. hl_colon p0 m p s e r \<and> span (\<lambda>c. c = c_sp) m (Suc e) p)
     | hl_sw_value \<Rightarrow> (\<exists>s e v. hl_in_value p0 m p s e v r \<and> m (p - 1) \<noteq> c_sp)
     | hl_sw_space_after_value \<Rightarrow>
         (\<exists>s e v w. hl_in_value p0 m p s e v r \<and> r_header_end r = Some w \<and> v < w \<and> w < p \<and>
            m (w - 1) \<noteq> c_sp \<and> span (\<lambda>c. c = c_sp) m w p)
     | hl_sw_almost_done \<Rightarrow> hl_layout p0 m p r
     | _ \<Rightarrow> True)"

fun hl_post :: "nat \<Rightarrow> mem \<Rightarrow> nat \<Rightarrow> parse_exit \<Rightarrow> hl_locals \<times> ngx_http_request_t \<Rightarrow> bool" where
  "hl_post p0 m p Goto_done (l, r) \<longleftrightarrow> m p = LF \<and> hl_layout p0 m p r"
| "hl_post p0 m p _ s \<longleftrightarrow> True"

definition hl_ok :: "nat \<Rightarrow> mem \<Rightarrow> nat \<Rightarrow> hl_action \<Rightarrow> bool" where
  "hl_ok p0 m p a \<longleftrightarrow>
    (case a of Next s \<Rightarrow> hl_inv p0 m (Suc p) s | Exit x s \<Rightarrow> hl_post p0 m p x s)"

lemma hl_ok_simps [simp]:
  "hl_ok p0 m p (Next s) = hl_inv p0 m (Suc p) s"
  "hl_ok p0 m p (Exit x s) = hl_post p0 m p x s"
  by (simp_all add: hl_ok_def)

lemma hl_layout_Suc:
  "hl_layout p0 m p r \<Longrightarrow> m p = c_sp \<or> m p = CR \<Longrightarrow> hl_layout p0 m (Suc p) r"
  by (auto simp: hl_layout_def intro: le_SucI)

lemma hl_ok_if:
  "(c \<Longrightarrow> hl_ok p0 m p a) \<Longrightarrow> (\<not> c \<Longrightarrow> hl_ok p0 m p b) \<Longrightarrow> hl_ok p0 m p (if c then a else b)"
  by simp

text \<open>How each kind of line is closed.\<close>

lemma hl_layout_bare:
  "hl_named p0 m p s r \<Longrightarrow> span (\<lambda>c. c \<noteq> c_colon) m (Suc s) p \<Longrightarrow>
   hl_layout p0 m p (r\<lparr>r_header_name_end := Some p, r_header_start := Some p, r_header_end := Some p\<rparr>)"
  by (simp add: hl_layout_def hl_named_def hl_shape_def)

lemma hl_layout_empty:
  "hl_colon p0 m p s e r \<Longrightarrow> span (\<lambda>c. c = c_sp) m (Suc e) p \<Longrightarrow>
   hl_layout p0 m p (r\<lparr>r_header_start := Some p, r_header_end := Some p\<rparr>)"
  by (simp add: hl_layout_def hl_colon_def hl_named_def hl_shape_def)

lemma hl_layout_value:
  "hl_in_value p0 m p s e v r \<Longrightarrow> m (p - 1) \<noteq> c_sp \<Longrightarrow> hl_layout p0 m p (r\<lparr>r_header_end := Some p\<rparr>)"
  by (simp add: hl_layout_def hl_in_value_def hl_colon_def hl_named_def hl_shape_def)

lemma hl_layout_trimmed:
  "hl_in_value p0 m p s e v r \<Longrightarrow> r_header_end r = Some w \<Longrightarrow> v < w \<Longrightarrow> w < p \<Longrightarrow>
   m (w - 1) \<noteq> c_sp \<Longrightarrow> span (\<lambda>c. c = c_sp) m w p \<Longrightarrow> hl_layout p0 m p r"
  by (auto simp: hl_layout_def hl_in_value_def hl_colon_def hl_named_def hl_shape_def
      intro: span_mono [of line_byte m s p] span_mono [of "\<lambda>c. c = c_sp" m w p])

lemmas hl_part_defs = hl_in_value_def hl_colon_def hl_named_def line_byte_def

lemma hl_start_ok:
  "hl_inv p0 m p ((hl_sw_start, hash, i), r) \<Longrightarrow> hl_ok p0 m p (hl_start au m p hash i r)"
  unfolding hl_start_def Let_def using lowcase_clean [of "m p"]
  by (intro hl_ok_if) (auto simp: hl_part_defs)

lemma hl_name_ok:
  assumes "hl_inv p0 m p ((hl_sw_name, hash, i), r)"
  shows "hl_ok p0 m p (hl_name au m p hash i r)"
proof -
  obtain s where s: "hl_named p0 m p s r" "span (\<lambda>c. c \<noteq> c_colon) m (Suc s) p" "p0 \<le> p"
    using assms by auto
  then have s': "r_header_name_start r = Some s" "p0 \<le> s" "s < p" "span line_byte m s p"
    by (simp_all add: hl_named_def)
  show ?thesis
    unfolding hl_name_def hl_push_def Let_def using s(2,3) s' lowcase_clean [of "m p"] hl_layout_bare [OF s(1,2)]
    by (intro hl_ok_if) (auto simp: hl_part_defs intro!: hl_layout_Suc)
qed

lemma hl_space_before_value_ok:
  assumes "hl_inv p0 m p ((hl_sw_space_before_value, hash, i), r)"
  shows "hl_ok p0 m p (hl_space_before_value m p hash i r)"
proof -
  obtain s e where s: "hl_colon p0 m p s e r" "span (\<lambda>c. c = c_sp) m (Suc e) p" "p0 \<le> p"
    using assms by auto
  show ?thesis
    unfolding hl_space_before_value_def Let_def using s hl_layout_empty [OF s(1,2)]
    by (intro hl_ok_if) (auto simp: hl_part_defs intro!: hl_layout_Suc)
qed

lemma hl_value_ok:
  assumes "hl_inv p0 m p ((hl_sw_value, hash, i), r)"
  shows "hl_ok p0 m p (hl_value m p hash i r)"
proof -
  obtain s e v where s: "hl_in_value p0 m p s e v r" "m (p - 1) \<noteq> c_sp" "p0 \<le> p"
    using assms by auto
  show ?thesis
    unfolding hl_value_def Let_def using s hl_layout_value [OF s(1,2)]
    by (intro hl_ok_if) (auto simp: hl_part_defs intro!: hl_layout_Suc)
qed

lemma hl_space_after_value_ok:
  assumes "hl_inv p0 m p ((hl_sw_space_after_value, hash, i), r)"
  shows "hl_ok p0 m p (hl_space_after_value m p hash i r)"
proof -
  obtain s e v w where s: "hl_in_value p0 m p s e v r" "r_header_end r = Some w" "v < w" "w < p"
    "m (w - 1) \<noteq> c_sp" "span (\<lambda>c. c = c_sp) m w p" "p0 \<le> p"
    using assms by auto
  show ?thesis
    unfolding hl_space_after_value_def Let_def using s hl_layout_trimmed [OF s(1-6)]
    by (intro hl_ok_if) (auto simp: hl_part_defs intro!: hl_layout_Suc)
qed

lemma hl_step_ok: "hl_inv p0 m p ((st, hash, i), r) \<Longrightarrow> hl_ok p0 m p (hl_step au m p ((st, hash, i), r))"
  by (cases st; simp only: hl_step.simps hl_state.case)
    (simp_all add: hl_start_ok hl_name_ok hl_space_before_value_ok hl_value_ok
      hl_space_after_value_ok hl_ignore_line_def hl_almost_done_def hl_header_almost_done_def
      hl_layout_Suc Let_def del: hl_inv.simps, simp_all add: hl_layout_Suc)

interpretation hli: scanner_inv "hl_step au" "hl_inv p0" "hl_post p0" for au p0
proof
  show "hl_inv p0 m (Suc p) s'" if "hl_inv p0 m p s" "hl_step au m p s = Next s'" for m p s s'
    using hl_step_ok [of p0 m p "fst (fst s)" "fst (snd (fst s))" "snd (snd (fst s))" "snd s" au] that by simp
  show "hl_post p0 m p x s'" if "hl_inv p0 m p s" "hl_step au m p s = Exit x s'" for m p s x s'
    using hl_step_ok [of p0 m p "fst (fst s)" "fst (snd (fst s))" "snd (snd (fst s))" "snd s" au] that by simp
qed

section \<open>The hash and the lower-case copy of the name\<close>

definition hl_tracks :: "mem \<Rightarrow> nat \<Rightarrow> ngx_uint_t \<Rightarrow> nat \<Rightarrow> ngx_http_request_t \<Rightarrow> bool" where
  "hl_tracks m e hash i r \<longleftrightarrow> (\<exists>s. r_header_name_start r = Some s \<and> s < e \<and>
     (\<not> r_invalid_header r \<longrightarrow>
        hash = ngx_hash_key (ngx_strlow (mslice m s e)) \<and> i = (e - s) mod 32 \<and>
        (e - s < 32 \<longrightarrow> take (e - s) (r_lowcase_header r) = ngx_strlow (mslice m s e))))"

fun hl_lc :: "mem \<Rightarrow> nat \<Rightarrow> hl_locals \<times> ngx_http_request_t \<Rightarrow> bool" where
  "hl_lc m p ((st, hash, i), r) \<longleftrightarrow> length (r_lowcase_header r) = 32 \<and> i < 32 \<and>
    (case st of
       hl_sw_name \<Rightarrow> hl_tracks m p hash i r
     | hl_sw_start \<Rightarrow> True
     | hl_sw_ignore_line \<Rightarrow> True
     | hl_sw_header_almost_done \<Rightarrow> True
     | _ \<Rightarrow> (\<exists>e. r_header_name_end r = Some e \<and> hl_tracks m e hash i r))"

fun hl_lc_post :: "mem \<Rightarrow> nat \<Rightarrow> parse_exit \<Rightarrow> hl_locals \<times> ngx_http_request_t \<Rightarrow> bool" where
  "hl_lc_post m p x ((st, hash, i), r) \<longleftrightarrow> length (r_lowcase_header r) = 32 \<and> i < 32 \<and>
    (x = Goto_done \<longrightarrow> (\<exists>e. r_header_name_end r = Some e \<and> hl_tracks m e hash i r))"

lemma hl_tracks_push:
  assumes "hl_tracks m p hash i r" "length (r_lowcase_header r) = 32" "c = ngx_tolower (m p)"
  shows "hl_tracks m (Suc p) (ngx_hash hash c) (Suc i mod 32)
    (r\<lparr>r_lowcase_header := (r_lowcase_header r)[i := c]\<rparr>)"
proof -
  obtain s where s: "r_header_name_start r = Some s" "s < p" and
    t: "\<not> r_invalid_header r \<longrightarrow> hash = ngx_hash_key (ngx_strlow (mslice m s p)) \<and> i = (p - s) mod 32 \<and>
        (p - s < 32 \<longrightarrow> take (p - s) (r_lowcase_header r) = ngx_strlow (mslice m s p))"
    using assms(1) by (auto simp: hl_tracks_def)
  have 1: "ngx_strlow (mslice m s (Suc p)) = ngx_strlow (mslice m s p) @ [c]"
    using s assms(3) by (simp add: mslice_Suc ngx_strlow_def)
  have 2: "Suc p - s = Suc (p - s)" using s by simp
  show ?thesis
    unfolding hl_tracks_def using s t assms(2)
    by (auto simp: 1 2 mod_Suc_eq take_Suc_conv_app_nth)
qed

lemma hl_tracks_first:
  assumes "length (r_lowcase_header r) = 32" "c = ngx_tolower (m p)"
  shows "hl_tracks m (Suc p) (ngx_hash 0 c) (Suc 0)
    (r\<lparr>r_header_name_start := Some p, r_invalid_header := b, r_lowcase_header := (r_lowcase_header r)[0 := c]\<rparr>)"
  using assms by (auto simp: hl_tracks_def mslice_def ngx_strlow_def ngx_hash_key_def take_Suc_conv_app_nth)

lemma hl_tracks_invalid:
  "r_header_name_start r = Some s \<Longrightarrow> s < e \<Longrightarrow> r_invalid_header r \<Longrightarrow> hl_tracks m e hash i r"
  by (simp add: hl_tracks_def)

lemma hl_tracks_upd [simp]:
  "hl_tracks m e hash i (r\<lparr>r_header_name_end := a\<rparr>) = hl_tracks m e hash i r"
  "hl_tracks m e hash i (r\<lparr>r_header_start := a\<rparr>) = hl_tracks m e hash i r"
  "hl_tracks m e hash i (r\<lparr>r_header_end := a\<rparr>) = hl_tracks m e hash i r"
  by (simp_all add: hl_tracks_def)

lemma tolower_under [simp]: "ngx_tolower c_under = c_under"
  by (simp add: ngx_tolower_def)

definition hl_lc_ok :: "mem \<Rightarrow> nat \<Rightarrow> hl_action \<Rightarrow> bool" where
  "hl_lc_ok m p a \<longleftrightarrow> (case a of Next s \<Rightarrow> hl_lc m (Suc p) s | Exit x s \<Rightarrow> hl_lc_post m p x s)"

lemma hl_lc_ok_simps [simp]:
  "hl_lc_ok m p (Next s) = hl_lc m (Suc p) s" "hl_lc_ok m p (Exit x s) = hl_lc_post m p x s"
  by (simp_all add: hl_lc_ok_def)

lemma hl_lc_ok_if:
  "(c \<Longrightarrow> hl_lc_ok m p a) \<Longrightarrow> (\<not> c \<Longrightarrow> hl_lc_ok m p b) \<Longrightarrow> hl_lc_ok m p (if c then a else b)"
  by simp

lemma hl_name_lc:
  assumes "hl_lc m p ((hl_sw_name, hash, i), r)"
  shows "hl_lc_ok m p (hl_name au m p hash i r)"
proof -
  have t: "hl_tracks m p hash i r" "length (r_lowcase_header r) = 32" "i < 32"
    using assms by simp_all
  then obtain s where "r_header_name_start r = Some s" "s < p" by (auto simp: hl_tracks_def)
  then have inv: "hl_tracks m (Suc p) hash i (r\<lparr>r_invalid_header := True\<rparr>)"
    by (simp add: hl_tracks_def)
  have push: "hl_lc_ok m p (hl_push c hash i r)" if "c = ngx_tolower (m p)" for c
    using hl_tracks_push [OF t(1,2) that] t by (simp add: hl_push_def)
  show ?thesis
    unfolding hl_name_def Let_def using t inv
    by (intro hl_lc_ok_if push) (auto intro: lowcase_tolower)
qed

lemma hl_start_lc:
  "hl_lc m p ((hl_sw_start, hash, i), r) \<Longrightarrow> hl_lc_ok m p (hl_start au m p hash i r)"
  unfolding hl_start_def Let_def
  by (intro hl_lc_ok_if) (auto intro!: hl_tracks_first lowcase_tolower simp: hl_tracks_invalid)

lemma hl_lc_step:
  assumes "hl_lc m p ((st, hash, i), r)"
  shows "hl_lc_ok m p (hl_step au m p ((st, hash, i), r))"
  using assms
  by (cases st; simp only: hl_step.simps hl_state.case)
    (simp_all only: hl_name_lc hl_start_lc,
     auto simp: hl_space_before_value_def hl_value_def hl_space_after_value_def hl_ignore_line_def
       hl_almost_done_def hl_header_almost_done_def Let_def)

interpretation hlc: scanner_inv "hl_step au" hl_lc hl_lc_post for au
proof
  show "hl_lc m (Suc p) s'" if "hl_lc m p s" "hl_step au m p s = Next s'" for m p s s'
    using hl_lc_step [of m p "fst (fst s)" "fst (snd (fst s))" "snd (snd (fst s))" "snd s" au] that by simp
  show "hl_lc_post m p x s'" if "hl_lc m p s" "hl_step au m p s = Exit x s'" for m p s x s'
    using hl_lc_step [of m p "fst (fst s)" "fst (snd (fst s))" "snd (snd (fst s))" "snd s" au] that by simp
qed

section \<open>Well-formed lines\<close>











lemma header_line_okD:
  assumes "ngx_http_parse_header_line au r b = (NGX_OK, r', b')" "r_state r = 0"
  shows "\<exists>p st hash i r1. scan (hl_step au) (b_mem b) (b_last b) (b_pos b)
      ((hl_sw_start, r_header_hash r, r_lowcase_index r), r) = Exited Goto_done p ((st, hash, i), r1) \<and>
    r' = hl_save (hl_sw_start, hash, i) r1 \<and> b' = b\<lparr>b_pos := p + 1\<rparr>"
proof -
  have l: "hl_load r = Some (hl_sw_start, r_header_hash r, r_lowcase_index r)"
    using assms(2) by (simp add: hl_load_def hl_decode_def hl_enum_def)
  show ?thesis
  proof (cases "scan (hl_step au) (b_mem b) (b_last b) (b_pos b)
      ((hl_sw_start, r_header_hash r, r_lowcase_index r), r)")
    case (Again p s)
    with assms l show ?thesis by (simp add: ngx_http_parse_header_line_def split: prod.splits)
  next
    case (Exited x p s)
    obtain st hash i r1 where s: "s = ((st, hash, i), r1)" by (metis prod.collapse)
    obtain s0 where "hl_step au (b_mem b) p s0 = Exit x s" using scan_Exited_step [OF Exited] by blast
    then have "x \<in> {Goto_done, Goto_header_done, Return NGX_HTTP_PARSE_INVALID_HEADER}"
      by (rule hl_step_exit)
    with Exited assms(1) l s show ?thesis by (auto simp: ngx_http_parse_header_line_def)
  qed
qed

lemma hl_save_sel [simp]:
  "r_header_name_start (hl_save l r) = r_header_name_start r"
  "r_header_name_end (hl_save l r) = r_header_name_end r"
  "r_header_start (hl_save l r) = r_header_start r"
  "r_header_end (hl_save l r) = r_header_end r"
  "r_invalid_header (hl_save l r) = r_invalid_header r"
  "r_header_hash (hl_save l r) = fst (snd l)"
  "r_lowcase_index (hl_save l r) = snd (snd l)"
  by (simp_all add: hl_save_def split: prod.split)

lemma hl_layout_save [simp]: "hl_layout p0 m q (hl_save l r) = hl_layout p0 m q r"
  by (simp add: hl_layout_def)




section \<open>Properties\<close>

text \<open>A buffer to evaluate the parser on: two header lines, received up to \<open>n\<close>.\<close>

definition header_line_example :: "nat \<Rightarrow> ngx_buf_t" where
  "header_line_example n =
     \<lparr>b_mem = mem_of (bytes ''H:  x '' @ [CR, LF] @ bytes '',ost: y'' @ [CR, LF]), b_pos = 0, b_last = n\<rparr>"



text \<open>
  C16. After \<open>NGX_OK\<close> for a line started in this call the four pointers are in order inside
  the received bytes; the name ends at the first colon after its first byte (or at the end
  of a line without a colon); there is no NUL, CR or LF between the start of the name and
  the end of the value; the value neither starts nor ends with a space, and only spaces and
  carriage returns separate it from the line feed that \<open>b->pos\<close> has passed.
\<close>

theorem header_line_layout:
  assumes "ngx_http_parse_header_line au r b = (NGX_OK, r', b')" "r_state r = 0"
  shows "b_pos b < b_pos b' \<and> b_pos b' \<le> b_last b \<and> b_mem b (b_pos b' - 1) = LF \<and>
    hl_layout (b_pos b) (b_mem b) (b_pos b' - 1) r'"
proof -
  obtain p st hash i r1 where
    ex: "scan (hl_step au) (b_mem b) (b_last b) (b_pos b)
      ((hl_sw_start, r_header_hash r, r_lowcase_index r), r) = Exited Goto_done p ((st, hash, i), r1)"
    and r': "r' = hl_save (hl_sw_start, hash, i) r1" and b': "b' = b\<lparr>b_pos := p + 1\<rparr>"
    using header_line_okD [OF assms] by blast
  have "hl_post (b_pos b) (b_mem b) p Goto_done ((st, hash, i), r1)"
    using hli.scan_inv_Exited [OF _ ex, of "b_pos b"] by simp
  with scan_Exited_pos [OF ex] show ?thesis by (simp add: r' b')
qed

theorem header_line_layout_witness:
  "let (rc, r, b) = ngx_http_parse_header_line False ngx_http_create_request (header_line_example 8)
   in rc = NGX_OK \<and> b_mem (header_line_example 8) (b_pos b - 1) = LF \<and>
     hl_layout 0 (b_mem (header_line_example 8)) (b_pos b - 1) r"
proof -
  let ?x = "ngx_http_parse_header_line False ngx_http_create_request (header_line_example 8)"
  have ok: "fst ?x = NGX_OK" by code_simp
  then have "?x = (NGX_OK, fst (snd ?x), snd (snd ?x))" by (metis prod.collapse)
  from header_line_layout [OF this] ok show ?thesis
    by (simp add: case_prod_beta Let_def ngx_http_create_request_def header_line_example_def)
qed

text \<open>
  C29. A header may arrive in pieces: a call that returns \<open>NGX_AGAIN\<close>, continued by a second
  call when more bytes are there, returns the code the call on all the bytes returns, with
  the same buffer position and the same request; at the end of the header the request may
  differ in the hash and the index, which mean nothing then.
\<close>

theorem header_line_resume:
  assumes "ngx_http_parse_header_line au r b = (NGX_AGAIN, r', b')"
    and "b_last b \<le> n" "\<And>i. i < b_last b \<Longrightarrow> m i = b_mem b i"
    and "ngx_http_parse_header_line au r (b\<lparr>b_mem := m, b_last := n\<rparr>) = (rc1, r1, b1)"
    and "ngx_http_parse_header_line au r' (b'\<lparr>b_mem := m, b_last := n\<rparr>) = (rc2, r2, b2)"
  shows "rc1 = rc2 \<and>
    (rc1 \<in> {NGX_AGAIN, NGX_OK} \<longrightarrow> r1 = r2 \<and> b1 = b2) \<and>
    (rc1 = NGX_HTTP_PARSE_HEADER_DONE \<longrightarrow> b1 = b2 \<and>
       r1\<lparr>r_header_hash := 0, r_lowcase_index := 0\<rparr> = r2\<lparr>r_header_hash := 0, r_lowcase_index := 0\<rparr>)"
  using hl.parse_resume [OF assms] by (auto simp: hl_final_def hl_view_def)

theorem header_line_resume_witness:
  "let p = ngx_http_parse_header_line False; r0 = ngx_http_create_request;
       (rc, r, b) = p r0 (header_line_example 3);
       (rc1, r1, b1) = p r0 (header_line_example 8);
       (rc2, r2, b2) = p r (b\<lparr>b_mem := b_mem (header_line_example 8), b_last := 8\<rparr>)
   in rc = NGX_AGAIN \<and> rc1 = NGX_OK \<and> rc2 = NGX_OK \<and> r1 = r2 \<and> b1 = b2"
proof -
  let ?p = "ngx_http_parse_header_line False" and ?r0 = ngx_http_create_request
  obtain rc r b where 0: "?p ?r0 (header_line_example 3) = (rc, r, b)" by (metis prod_cases3)
  obtain rc1 r1 b1 where 1: "?p ?r0 (header_line_example 8) = (rc1, r1, b1)" by (metis prod_cases3)
  let ?b = "b\<lparr>b_mem := b_mem (header_line_example 8), b_last := 8\<rparr>"
  obtain rc2 r2 b2 where 2: "?p r ?b = (rc2, r2, b2)" by (metis prod_cases3)
  have "fst (?p ?r0 (header_line_example 3)) = NGX_AGAIN" by code_simp
  with 0 have rc: "rc = NGX_AGAIN" by simp
  have "fst (?p ?r0 (header_line_example 8)) = NGX_OK" by code_simp
  with 1 have rc1: "rc1 = NGX_OK" by simp
  have "(header_line_example 3)\<lparr>b_mem := b_mem (header_line_example 8), b_last := 8\<rparr> = header_line_example 8"
    by (simp add: header_line_example_def)
  with 1 have w1: "?p ?r0 ((header_line_example 3)\<lparr>b_mem := b_mem (header_line_example 8),
      b_last := 8\<rparr>) = (rc1, r1, b1)" by simp
  have "rc1 = rc2 \<and> (rc1 \<in> {NGX_AGAIN, NGX_OK} \<longrightarrow> r1 = r2 \<and> b1 = b2)"
    using header_line_resume [OF 0 [unfolded rc] _ _ w1 2] by (simp add: header_line_example_def)
  then show ?thesis by (simp add: 0 1 2 rc rc1 Let_def)
qed

text \<open>
  C15. The header table gets the right key: for a line that is not marked invalid, the hash
  in the table entry is the hash of the lower-case name, and the lower-case key is the
  lower-case name, whether it is copied from the 32 bytes of \<open>lowcase_header\<close> or computed
  again because the name is longer.
\<close>

theorem header_elt_key:
  assumes "ngx_http_parse_header_line au r b = (NGX_OK, r', b')" "r_state r = 0"
    and "length (r_lowcase_header r) = 32" "r_lowcase_index r < 32"
    and "ngx_http_header_elt ignore (b_mem b) r' = Some (m, h)" "\<not> r_invalid_header r'"
  shows "t_hash h = ngx_hash_key_lc (t_key h) \<and> t_lowcase_key h = ngx_strlow (t_key h)"
proof -
  obtain p st hash i r1 where
    ex: "scan (hl_step au) (b_mem b) (b_last b) (b_pos b)
      ((hl_sw_start, r_header_hash r, r_lowcase_index r), r) = Exited Goto_done p ((st, hash, i), r1)"
    and r': "r' = hl_save (hl_sw_start, hash, i) r1"
    using header_line_okD [OF assms(1,2)] by blast
  have "hl_lc_post (b_mem b) p Goto_done ((st, hash, i), r1)"
    using hlc.scan_inv_Exited [OF _ ex] assms(3,4) by simp
  then obtain s e where e: "r_header_name_end r1 = Some e" "i < 32" "r_header_name_start r1 = Some s"
    and t: "hash = ngx_hash_key (ngx_strlow (mslice (b_mem b) s e))"
      "e - s < 32 \<longrightarrow> take (e - s) (r_lowcase_header r1) = ngx_strlow (mslice (b_mem b) s e)"
    using assms(6) by (auto simp: hl_tracks_def r')
  have lay: "hl_layout (b_pos b) (b_mem b) p r1"
    using hli.scan_inv_Exited [OF _ ex, of "b_pos b"] by simp
  then obtain v w where vw: "r_header_start r1 = Some v" "r_header_end r1 = Some w" "e \<le> w"
    using e by (auto simp: hl_layout_def hl_shape_def)
  have "mslice ((b_mem b)(e := 0, w := 0)) s e = mslice (b_mem b) s e"
    using vw(3) by (intro mslice_cong) simp
  with assms(5) e vw t show ?thesis
    by (auto simp: ngx_http_header_elt_def r' Let_def ngx_hash_key_lc_eq hl_save_commute split: if_splits)
qed

theorem header_elt_key_witness:
  "let (rc, r, b) = ngx_http_parse_header_line False ngx_http_create_request (header_line_example 8)
   in rc = NGX_OK \<and> (case ngx_http_header_elt True (b_mem (header_line_example 8)) r of
        None \<Rightarrow> False
      | Some (m, h) \<Rightarrow> t_key h = bytes ''H'' \<and> t_hash h = ngx_hash_key_lc (t_key h) \<and>
          t_lowcase_key h = ngx_strlow (t_key h))"
proof -
  let ?x = "ngx_http_parse_header_line False ngx_http_create_request (header_line_example 8)"
  let ?h = "ngx_http_header_elt True (b_mem (header_line_example 8)) (fst (snd ?x))"
  have ok: "fst ?x = NGX_OK" by code_simp
  then have x: "?x = (NGX_OK, fst (snd ?x), snd (snd ?x))" by (metis prod.collapse)
  have key: "map_option (\<lambda>(m, h). t_key h) ?h = Some (bytes ''H'')" by code_simp
  then obtain m h where h: "?h = Some (m, h)" "t_key h = bytes ''H''" by auto
  have "\<not> r_invalid_header (fst (snd ?x))" by code_simp
  from header_elt_key [OF x _ _ _ h(1) this] show ?thesis
    using h ok by (simp add: case_prod_beta Let_def ngx_http_create_request_def)
qed


end
