(* ===== verification/Http_Status_Line.thy ===== *)
theory Http_Status_Line
  imports Http_Request Digits
begin

text \<open>
  \<open>ngx_http_parse_status_line\<close> of \<open>src/http/ngx_http_parse.c\<close>: the status line of an
  upstream response, \<open>HTTP/x.y SP ddd SP text CRLF\<close>. The parser writes the request (version
  numbers, state) and a \<open>ngx_http_status_t\<close>.
\<close>

section \<open>States and data\<close>

record ngx_http_status_t =
  s_http_version :: ngx_uint_t
  s_code :: ngx_uint_t
  s_count :: ngx_uint_t
  s_start :: ptr
  s_end :: ptr

datatype sl_state =
    sl_sw_start
  | sl_sw_H
  | sl_sw_HT
  | sl_sw_HTT
  | sl_sw_HTTP
  | sl_sw_first_major_digit
  | sl_sw_major_digit
  | sl_sw_first_minor_digit
  | sl_sw_minor_digit
  | sl_sw_status
  | sl_sw_space_after_status
  | sl_sw_status_text
  | sl_sw_almost_done

definition sl_enum :: "sl_state list" where
  "sl_enum =
    [sl_sw_start, sl_sw_H, sl_sw_HT, sl_sw_HTT, sl_sw_HTTP, sl_sw_first_major_digit,
     sl_sw_major_digit, sl_sw_first_minor_digit, sl_sw_minor_digit, sl_sw_status,
     sl_sw_space_after_status, sl_sw_status_text, sl_sw_almost_done]"

fun sl_code :: "sl_state \<Rightarrow> nat" where
  "sl_code sl_sw_start = 0"
| "sl_code sl_sw_H = 1"
| "sl_code sl_sw_HT = 2"
| "sl_code sl_sw_HTT = 3"
| "sl_code sl_sw_HTTP = 4"
| "sl_code sl_sw_first_major_digit = 5"
| "sl_code sl_sw_major_digit = 6"
| "sl_code sl_sw_first_minor_digit = 7"
| "sl_code sl_sw_minor_digit = 8"
| "sl_code sl_sw_status = 9"
| "sl_code sl_sw_space_after_status = 10"
| "sl_code sl_sw_status_text = 11"
| "sl_code sl_sw_almost_done = 12"

definition sl_decode :: "nat \<Rightarrow> sl_state option" where
  "sl_decode n = (if n < length sl_enum then Some (sl_enum ! n) else None)"

lemma sl_decode_code [simp]: "sl_decode (sl_code st) = Some st"
  by (cases st) (simp_all add: sl_decode_def sl_enum_def)

section \<open>One definition per state\<close>

type_synonym sl_data = "ngx_http_request_t \<times> ngx_http_status_t"
type_synonym sl_action = "(parse_exit, sl_state \<times> sl_data) action"

abbreviation sl_error :: "sl_state \<Rightarrow> sl_data \<Rightarrow> sl_action" where
  "sl_error st d \<equiv> Exit (Return NGX_ERROR) (st, d)"

text \<open>The states of \<open>HTTP/\<close>: one byte each.\<close>

definition sl_expect :: "byte \<Rightarrow> sl_state \<Rightarrow> sl_state \<Rightarrow> mem \<Rightarrow> nat \<Rightarrow> sl_data \<Rightarrow> sl_action" where
  "sl_expect c st st' m p d = (if m p = c then Next (st', d) else sl_error st d)"

definition sl_first_major_digit :: "mem \<Rightarrow> nat \<Rightarrow> sl_data \<Rightarrow> sl_action" where
  "sl_first_major_digit m p d =
    (let ch = m p; (r, s) = d in
     if ch < c_1 \<or> ch > c_9 then sl_error sl_sw_first_major_digit d
     else Next (sl_sw_major_digit, r\<lparr>r_http_major := ucast ch - 0x30\<rparr>, s))"

definition sl_major_digit :: "mem \<Rightarrow> nat \<Rightarrow> sl_data \<Rightarrow> sl_action" where
  "sl_major_digit m p d =
    (let ch = m p; (r, s) = d in
     if ch = c_dot then Next (sl_sw_first_minor_digit, d)
     else if ch < c_0 \<or> ch > c_9 then sl_error sl_sw_major_digit d
     else Next (sl_sw_major_digit, r\<lparr>r_http_major := r_http_major r * 10 + ucast ch - 0x30\<rparr>, s))"

definition sl_first_minor_digit :: "mem \<Rightarrow> nat \<Rightarrow> sl_data \<Rightarrow> sl_action" where
  "sl_first_minor_digit m p d =
    (let ch = m p; (r, s) = d in
     if ch < c_0 \<or> ch > c_9 then sl_error sl_sw_first_minor_digit d
     else Next (sl_sw_minor_digit, r\<lparr>r_http_minor := ucast ch - 0x30\<rparr>, s))"

definition sl_minor_digit :: "mem \<Rightarrow> nat \<Rightarrow> sl_data \<Rightarrow> sl_action" where
  "sl_minor_digit m p d =
    (let ch = m p; (r, s) = d in
     if ch = c_sp then Next (sl_sw_status, d)
     else if ch < c_0 \<or> ch > c_9 then sl_error sl_sw_minor_digit d
     else Next (sl_sw_minor_digit, r\<lparr>r_http_minor := r_http_minor r * 10 + ucast ch - 0x30\<rparr>, s))"

definition sl_status :: "mem \<Rightarrow> nat \<Rightarrow> sl_data \<Rightarrow> sl_action" where
  "sl_status m p d =
    (let ch = m p; (r, s) = d in
     if ch = c_sp then Next (sl_sw_status, d)
     else if ch < c_0 \<or> ch > c_9 then sl_error sl_sw_status d
     else
       let s = s\<lparr>s_code := s_code s * 10 + ucast ch - 0x30, s_count := s_count s + 1\<rparr>
       in if s_count s = 3 then Next (sl_sw_space_after_status, r, s\<lparr>s_start := Some (p - 2)\<rparr>)
          else Next (sl_sw_status, r, s))"

definition sl_space_after_status :: "mem \<Rightarrow> nat \<Rightarrow> sl_data \<Rightarrow> sl_action" where
  "sl_space_after_status m p d =
    (let ch = m p in
     if ch = c_sp then Next (sl_sw_status_text, d)
     else if ch = c_dot then Next (sl_sw_status_text, d)
     else if ch = CR then Next (sl_sw_almost_done, d)
     else if ch = LF then Exit Goto_done (sl_sw_space_after_status, d)
     else sl_error sl_sw_space_after_status d)"

definition sl_status_text :: "mem \<Rightarrow> nat \<Rightarrow> sl_data \<Rightarrow> sl_action" where
  "sl_status_text m p d =
    (let ch = m p in
     if ch = CR then Next (sl_sw_almost_done, d)
     else if ch = LF then Exit Goto_done (sl_sw_status_text, d)
     else Next (sl_sw_status_text, d))"

definition sl_almost_done :: "mem \<Rightarrow> nat \<Rightarrow> sl_data \<Rightarrow> sl_action" where
  "sl_almost_done m p d =
    (let ch = m p; (r, s) = d; d = (r, s\<lparr>s_end := Some (p - 1)\<rparr>) in
     if ch = LF then Exit Goto_done (sl_sw_almost_done, d) else sl_error sl_sw_almost_done d)"

fun sl_step :: "mem \<Rightarrow> nat \<Rightarrow> sl_state \<times> sl_data \<Rightarrow> sl_action" where
  "sl_step m p (st, d) =
    (case st of
       sl_sw_start \<Rightarrow> sl_expect c_H sl_sw_start sl_sw_H m p d
     | sl_sw_H \<Rightarrow> sl_expect c_T sl_sw_H sl_sw_HT m p d
     | sl_sw_HT \<Rightarrow> sl_expect c_T sl_sw_HT sl_sw_HTT m p d
     | sl_sw_HTT \<Rightarrow> sl_expect c_P sl_sw_HTT sl_sw_HTTP m p d
     | sl_sw_HTTP \<Rightarrow> sl_expect c_slash sl_sw_HTTP sl_sw_first_major_digit m p d
     | sl_sw_first_major_digit \<Rightarrow> sl_first_major_digit m p d
     | sl_sw_major_digit \<Rightarrow> sl_major_digit m p d
     | sl_sw_first_minor_digit \<Rightarrow> sl_first_minor_digit m p d
     | sl_sw_minor_digit \<Rightarrow> sl_minor_digit m p d
     | sl_sw_status \<Rightarrow> sl_status m p d
     | sl_sw_space_after_status \<Rightarrow> sl_space_after_status m p d
     | sl_sw_status_text \<Rightarrow> sl_status_text m p d
     | sl_sw_almost_done \<Rightarrow> sl_almost_done m p d)"

declare sl_step.simps [simp del]

section \<open>The function\<close>

definition sl_done :: "nat \<Rightarrow> sl_data \<Rightarrow> ngx_buf_t \<Rightarrow> ngx_rc \<times> sl_data \<times> ngx_buf_t" where
  "sl_done p d b =
    (let (r, s) = d;
         s = (if s_end s = None then s\<lparr>s_end := Some p\<rparr> else s);
         s = s\<lparr>s_http_version := ucast (r_http_major r) * 1000 + ucast (r_http_minor r)\<rparr>
     in (NGX_OK, (r\<lparr>r_state := sl_code sl_sw_start\<rparr>, s), b\<lparr>b_pos := p + 1\<rparr>))"

definition sl_save :: "sl_state \<Rightarrow> sl_data \<Rightarrow> sl_data" where
  "sl_save st d = apfst (\<lambda>r. r\<lparr>r_state := sl_code st\<rparr>) d"

definition sl_load :: "sl_data \<Rightarrow> sl_state option" where
  "sl_load d = sl_decode (r_state (fst d))"

fun sl_leave :: "parse_exit \<Rightarrow> nat \<Rightarrow> sl_state \<Rightarrow> sl_data \<Rightarrow> ngx_buf_t \<Rightarrow>
    ngx_rc \<times> sl_data \<times> ngx_buf_t" where
  "sl_leave (Return rc) p st d b = (rc, d, b)"
| "sl_leave _ p st d b = sl_done p d b"

definition ngx_http_parse_status_line ::
  "sl_data \<Rightarrow> ngx_buf_t \<Rightarrow> ngx_rc \<times> sl_data \<times> ngx_buf_t" where
  "ngx_http_parse_status_line d b =
    (case sl_load d of
       None \<Rightarrow> (NGX_AGAIN, d, b\<lparr>b_pos := max (b_pos b) (b_last b)\<rparr>)
     | Some st \<Rightarrow>
         (case scan sl_step (b_mem b) (b_last b) (b_pos b) (st, d) of
            Again p (st', d') \<Rightarrow> (NGX_AGAIN, sl_save st' d', b\<lparr>b_pos := p\<rparr>)
          | Exited x p (st', d') \<Rightarrow> sl_leave x p st' d' b))"

lemmas sl_defs =
  sl_expect_def sl_first_major_digit_def sl_major_digit_def sl_first_minor_digit_def
  sl_minor_digit_def sl_status_def sl_space_after_status_def sl_status_text_def sl_almost_done_def

section \<open>The contract of a line parser\<close>

lemma sl_step_local: "(\<And>i. i \<le> p \<Longrightarrow> m i = m' i) \<Longrightarrow> sl_step m p s = sl_step m' p s"
  by (cases s; cases "fst s"; simp add: sl_step.simps) (simp_all add: sl_defs)

lemma sl_step_save: "sl_step m p (st, sl_save k d) = map_action id (apsnd (sl_save k)) (sl_step m p (st, d))"
  unfolding sl_save_def
  by (cases d; cases st; simp only: sl_step.simps sl_state.case)
    (simp_all add: sl_defs Let_def r_state_commute
      if_distrib [of "map_action id (apsnd (apfst (r_state_update (\<lambda>_. sl_code k))))"]
      split del: if_split cong: if_cong)

lemma sl_step_exit: "sl_step m p s = Exit x s' \<Longrightarrow> x \<in> {Goto_done, Return NGX_ERROR}"
  apply (cases s; cases "fst s"; cases "snd s"; simp only: sl_step.simps sl_state.case prod.sel)
  apply (auto simp: sl_defs Let_def split: if_splits)
  done

definition sl_final :: "ngx_rc \<Rightarrow> bool" where
  "sl_final rc \<longleftrightarrow> rc = NGX_OK"

lemma sl_done_save [simp]: "sl_done p (sl_save k d) (b\<lparr>b_pos := q\<rparr>) = sl_done p d b"
  by (cases d) (simp add: sl_done_def sl_save_def Let_def)

lemma fst_sl_done [simp]: "fst (sl_done p d b) = NGX_OK"
  by (simp add: sl_done_def Let_def split: prod.split)

interpretation sl:
  line_parser sl_step sl_save sl_load sl_leave sl_final "\<lambda>rc r. r" ngx_http_parse_status_line
proof
  show "sl_step m p s = sl_step m' p s" if "\<And>i. i \<le> p \<Longrightarrow> m i = m' i" for p m m' s
    using that by (rule sl_step_local)
  show "sl_leave x p l r (b\<lparr>b_mem := m\<rparr>) = apsnd (apsnd (b_mem_update (\<lambda>_. m))) (sl_leave x p l r b)"
    for x p l r b m
    by (cases x) (simp_all add: sl_done_def Let_def split: prod.split)
  show "fst (sl_leave x p l (sl_save k r) (b\<lparr>b_pos := q\<rparr>)) = fst (sl_leave x p l r b)" for x p l k r b q
    by (cases x) simp_all
  show "r2 = r1 \<and> b2 = b1"
    if "sl_step m' p' s = Exit x s'" "sl_leave x p l r b = (rc, r1, b1)" "sl_final rc"
      "sl_leave x p l (sl_save k r) (b\<lparr>b_pos := q\<rparr>) = (rc, r2, b2)"
    for m' p' s x s' p l r b k q rc r1 r2 b1 b2
    using sl_step_exit [OF that(1)] that(2-4) by (auto simp: sl_final_def)
  show "fst (sl_leave x q l r b) \<noteq> NGX_AGAIN" if "sl_step m p s = Exit x s'" for m p s x s' q l r b
    using sl_step_exit [OF that] by auto
  show "sl_step m p (l, sl_save k r) = map_action id (apsnd (sl_save k)) (sl_step m p (l, r))"
    for m p l k r
    by (rule sl_step_save)
qed (simp_all add: sl_save_def sl_load_def ngx_http_parse_status_line_def prod_eq_iff)

section \<open>The status code\<close>

fun sl_inv :: "mem \<Rightarrow> nat \<Rightarrow> sl_state \<times> sl_data \<Rightarrow> bool" where
  "sl_inv m p (st, r, s) \<longleftrightarrow> s_end s = None \<and>
    (if st \<in> {sl_sw_space_after_status, sl_sw_status_text, sl_sw_almost_done}
     then s_count s = 3 \<and> unat (s_code s) < 1000 \<and> (\<exists>q. s_start s = Some q \<and> q + 3 \<le> p) \<and>
       (st = sl_sw_almost_done \<longrightarrow> m (p - 1) = CR \<and> (\<exists>q. s_start s = Some q \<and> q + 3 < p))
     else unat (s_count s) < 3 \<and> unat (s_code s) < 10 ^ unat (s_count s) \<and>
       (st \<notin> {sl_sw_start, sl_sw_H} \<longrightarrow> 2 \<le> p) \<and> (st = sl_sw_H \<longrightarrow> 1 \<le> p))"

fun sl_post :: "mem \<Rightarrow> nat \<Rightarrow> parse_exit \<Rightarrow> sl_state \<times> sl_data \<Rightarrow> bool" where
  "sl_post m p Goto_done (st, r, s) \<longleftrightarrow> m p = LF \<and> s_count s = 3 \<and> unat (s_code s) < 1000 \<and>
     (\<exists>q. s_start s = Some q \<and> (case s_end s of None \<Rightarrow> q + 3 \<le> p | Some e \<Rightarrow> q + 3 \<le> e \<and> e < p))"
| "sl_post m p _ _ \<longleftrightarrow> True"


definition sl_ok :: "mem \<Rightarrow> nat \<Rightarrow> sl_action \<Rightarrow> bool" where
  "sl_ok m p a \<longleftrightarrow> (case a of Next s \<Rightarrow> sl_inv m (Suc p) s | Exit x s \<Rightarrow> sl_post m p x s)"

lemma sl_ok_simps [simp]:
  "sl_ok m p (Next s) = sl_inv m (Suc p) s" "sl_ok m p (Exit x s) = sl_post m p x s"
  by (simp_all add: sl_ok_def)




section \<open>Well-formed status lines\<close>

definition status_line :: "byte list \<Rightarrow> byte list \<Rightarrow> byte list \<Rightarrow> byte list \<Rightarrow> byte list" where
  "status_line major minor code reason =
     [c_H, c_T, c_T, c_P, c_slash] @ major @ [c_dot] @ minor @ [c_sp] @ code @ [c_sp] @ reason @ [CR, LF]"

lemma scan_sl_http:
  "mem_at m p [c_H, c_T, c_T, c_P, c_slash] \<Longrightarrow> p + 5 \<le> lim \<Longrightarrow>
     scan sl_step m lim p (sl_sw_start, d) = scan sl_step m lim (p + 5) (sl_sw_first_major_digit, d)"
  by (simp add: scan_Next sl_step.simps sl_expect_def numeral_eq_Suc)

lemma digit_neq: "is_digit c \<Longrightarrow> c \<noteq> c_dot \<and> c \<noteq> c_sp \<and> c \<noteq> CR \<and> c \<noteq> LF \<and> \<not> c < c_0 \<and> \<not> c_9 < c"
  by (auto simp: not_less)

lemma scan_sl_major:
  assumes at: "mem_at m p (major @ [c_dot])" and dig: "digits major" "hd major \<noteq> c_0"
    and lim: "p + length major + 1 \<le> lim"
  shows "scan sl_step m lim p (sl_sw_first_major_digit, r, s) =
    scan sl_step m lim (p + length major + 1) (sl_sw_first_minor_digit, r\<lparr>r_http_major := dec_word 0 major\<rparr>, s)"
proof -
  obtain c ds where major: "major = c # ds" and c: "is_digit c" "c \<noteq> c_0" and ds: "\<forall>d\<in>set ds. is_digit d"
    using dig by (cases major) (auto simp: digits_def)
  have m: "m p = c" "mem_at m (Suc p) ds" "m (Suc p + length ds) = c_dot" using at by (simp_all add: major)
  have "c_1 \<le> c" using c by unat_arith
  then have "scan sl_step m lim p (sl_sw_first_major_digit, r, s) =
      scan sl_step m lim (Suc p) (sl_sw_major_digit, r\<lparr>r_http_major := ucast c - 0x30\<rparr>, s)"
    using lim m c by (intro scan_Next) (simp_all add: sl_step.simps sl_first_major_digit_def major not_less)
  also have "\<dots> = scan sl_step m lim (Suc p + length ds)
      (sl_sw_major_digit, r\<lparr>r_http_major := dec_word (ucast c - 0x30) ds\<rparr>, s)"
    unfolding dec_word_def using lim
    by (intro scan_foldl [OF m(2), where g = "\<lambda>a. (sl_sw_major_digit, r\<lparr>r_http_major := a\<rparr>, s)"])
      (use ds digit_neq in \<open>simp_all add: major sl_step.simps sl_major_digit_def\<close>)
  also have "\<dots> = scan sl_step m lim (Suc (Suc p + length ds))
      (sl_sw_first_minor_digit, r\<lparr>r_http_major := dec_word (ucast c - 0x30) ds\<rparr>, s)"
    using lim m by (intro scan_Next) (simp_all add: major sl_step.simps sl_major_digit_def)
  finally show ?thesis by (simp add: major)
qed

lemma scan_sl_minor:
  assumes at: "mem_at m p (minor @ [c_sp])" and dig: "digits minor"
    and lim: "p + length minor + 1 \<le> lim"
  shows "scan sl_step m lim p (sl_sw_first_minor_digit, r, s) =
    scan sl_step m lim (p + length minor + 1) (sl_sw_status, r\<lparr>r_http_minor := dec_word 0 minor\<rparr>, s)"
proof -
  obtain c ds where minor: "minor = c # ds" and c: "is_digit c" and ds: "\<forall>d\<in>set ds. is_digit d"
    using dig by (cases minor) (auto simp: digits_def)
  have m: "m p = c" "mem_at m (Suc p) ds" "m (Suc p + length ds) = c_sp" using at by (simp_all add: minor)
  have "scan sl_step m lim p (sl_sw_first_minor_digit, r, s) =
      scan sl_step m lim (Suc p) (sl_sw_minor_digit, r\<lparr>r_http_minor := ucast c - 0x30\<rparr>, s)"
    using lim m c by (intro scan_Next) (simp_all add: sl_step.simps sl_first_minor_digit_def minor not_less)
  also have "\<dots> = scan sl_step m lim (Suc p + length ds)
      (sl_sw_minor_digit, r\<lparr>r_http_minor := dec_word (ucast c - 0x30) ds\<rparr>, s)"
    unfolding dec_word_def using lim
    by (intro scan_foldl [OF m(2), where g = "\<lambda>a. (sl_sw_minor_digit, r\<lparr>r_http_minor := a\<rparr>, s)"])
      (use ds digit_neq in \<open>simp_all add: minor sl_step.simps sl_minor_digit_def\<close>)
  also have "\<dots> = scan sl_step m lim (Suc (Suc p + length ds))
      (sl_sw_status, r\<lparr>r_http_minor := dec_word (ucast c - 0x30) ds\<rparr>, s)"
    using lim m by (intro scan_Next) (simp_all add: minor sl_step.simps sl_minor_digit_def)
  finally show ?thesis by (simp add: minor)
qed

text \<open>The three digits of the code, then the reason.\<close>

lemma scan_sl_code:
  assumes at: "mem_at m p code" and dig: "digits code" "length code = 3" and lim: "p + 3 \<le> lim"
    and s: "s_code s = 0" "s_count s = 0"
  shows "scan sl_step m lim p (sl_sw_status, r, s) = scan sl_step m lim (p + 3)
      (sl_sw_space_after_status, r, s\<lparr>s_code := of_nat (dec_val code), s_count := 3, s_start := Some p\<rparr>)"
proof -
  obtain a b c where code: "code = [a, b, c]" using dig(2) by (auto simp: length_Suc_conv eval_nat_numeral)
  have abc: "is_digit a" "is_digit b" "is_digit c" using dig(1) by (simp_all add: code digits_def)
  let ?w = "\<lambda>ds. dec_word 0 ds :: ngx_uint_t"
  have at': "m p = a" "m (Suc p) = b" "m (Suc (Suc p)) = c" using at by (simp_all add: code)
  have "scan sl_step m lim p (sl_sw_status, r, s) =
      scan sl_step m lim (Suc p) (sl_sw_status, r, s\<lparr>s_code := ?w [a], s_count := 1\<rparr>)"
    using lim at' s digit_neq [OF abc(1)] by (intro scan_Next) (simp_all add: sl_step.simps sl_status_def)
  also have "\<dots> = scan sl_step m lim (Suc (Suc p)) (sl_sw_status, r, s\<lparr>s_code := ?w [a, b], s_count := 2\<rparr>)"
    using lim at' digit_neq [OF abc(2)] by (intro scan_Next) (simp_all add: sl_step.simps sl_status_def)
  also have "\<dots> = scan sl_step m lim (Suc (Suc (Suc p)))
      (sl_sw_space_after_status, r, s\<lparr>s_code := ?w code, s_count := 3, s_start := Some p\<rparr>)"
    using lim at' digit_neq [OF abc(3)]
    by (intro scan_Next) (simp_all add: sl_step.simps sl_status_def code)
  finally show ?thesis by (simp add: dec_word_val [OF dig(1)] eval_nat_numeral)
qed

lemma scan_sl_text:
  assumes at: "mem_at m p ([c_sp] @ reason @ [CR, LF])" and reason: "\<forall>c\<in>set reason. c \<noteq> CR \<and> c \<noteq> LF"
    and lim: "p + length reason + 3 \<le> lim"
  shows "scan sl_step m lim p (sl_sw_space_after_status, r, s) = Exited Goto_done (p + length reason + 2)
      (sl_sw_almost_done, r, s\<lparr>s_end := Some (p + length reason + 1)\<rparr>)"
proof -
  have at': "m p = c_sp" "mem_at m (Suc p) reason" "m (Suc p + length reason) = CR" "m (Suc (Suc p + length reason)) = LF"
    using at by simp_all
  have "scan sl_step m lim p (sl_sw_space_after_status, r, s) = scan sl_step m lim (Suc p) (sl_sw_status_text, r, s)"
    using lim at' by (intro scan_Next) (simp_all add: sl_step.simps sl_space_after_status_def)
  also have "\<dots> = scan sl_step m lim (Suc p + length reason) (sl_sw_status_text, r, s)"
    using lim reason by (subst scan_foldl [OF at'(2), where g = "\<lambda>_. (sl_sw_status_text, r, s)" and f = "\<lambda>_ _. ()"])
      (simp_all add: sl_step.simps sl_status_text_def)
  also have "\<dots> = scan sl_step m lim (Suc (Suc p + length reason)) (sl_sw_almost_done, r, s)"
    using lim at' by (intro scan_Next) (simp_all add: sl_step.simps sl_status_text_def)
  also have "\<dots> = Exited Goto_done (Suc (Suc p + length reason))
      (sl_sw_almost_done, r, s\<lparr>s_end := Some (Suc p + length reason)\<rparr>)"
    using lim at' by (intro scan_Exit) (simp_all add: sl_step.simps sl_almost_done_def)
  finally show ?thesis by simp
qed

lemma scan_status_line:
  assumes at: "mem_at m p (status_line major minor code reason)"
    and lim: "p + length (status_line major minor code reason) \<le> lim"
    and ver: "digits major" "hd major \<noteq> c_0" "digits minor" and code: "digits code" "length code = 3"
    and reason: "\<forall>c\<in>set reason. c \<noteq> CR \<and> c \<noteq> LF" and s: "s_code s = 0" "s_count s = 0"
  shows "scan sl_step m lim p (sl_sw_start, r, s) =
    Exited Goto_done (p + length (status_line major minor code reason) - 1)
      (sl_sw_almost_done, r\<lparr>r_http_major := dec_word 0 major, r_http_minor := dec_word 0 minor\<rparr>,
       s\<lparr>s_code := of_nat (dec_val code), s_count := 3,
         s_start := Some (p + length major + length minor + 7),
         s_end := Some (p + length (status_line major minor code reason) - 2)\<rparr>)"
proof -
  let ?a = "p + 5" let ?b = "?a + length major + 1" let ?c = "?b + length minor + 1" let ?t = "?c + 3"
  have at': "mem_at m p [c_H, c_T, c_T, c_P, c_slash]" "mem_at m ?a (major @ [c_dot])"
    "mem_at m ?b (minor @ [c_sp])" "mem_at m ?c code" "mem_at m ?t ([c_sp] @ reason @ [CR, LF])"
    using at code(2) by (simp_all add: status_line_def eval_nat_numeral ac_simps)
  have len: "length (status_line major minor code reason) = length major + length minor + length reason + 13"
    using code(2) by (simp add: status_line_def)
  let ?r1 = "r\<lparr>r_http_major := dec_word 0 major\<rparr>" let ?r2 = "?r1\<lparr>r_http_minor := dec_word 0 minor\<rparr>"
  have "scan sl_step m lim p (sl_sw_start, r, s) = scan sl_step m lim ?a (sl_sw_first_major_digit, r, s)"
    using lim len by (intro scan_sl_http [OF at'(1)]) simp
  also have "\<dots> = scan sl_step m lim ?b (sl_sw_first_minor_digit, ?r1, s)"
    using lim len by (intro scan_sl_major [OF at'(2) ver(1,2)]) simp
  also have "\<dots> = scan sl_step m lim ?c (sl_sw_status, ?r2, s)"
    using lim len by (intro scan_sl_minor [OF at'(3) ver(3)]) simp
  also have "\<dots> = scan sl_step m lim ?t (sl_sw_space_after_status, ?r2,
      s\<lparr>s_code := of_nat (dec_val code), s_count := 3, s_start := Some ?c\<rparr>)"
    using lim len by (intro scan_sl_code [OF at'(4) code _ s]) simp
  also have "\<dots> = Exited Goto_done (?t + length reason + 2) (sl_sw_almost_done, ?r2,
      s\<lparr>s_code := of_nat (dec_val code), s_count := 3, s_start := Some ?c,
        s_end := Some (?t + length reason + 1)\<rparr>)"
    using lim len by (subst scan_sl_text [OF at'(5) reason]) simp_all
  finally show ?thesis by (simp add: len)
qed

lemma sl_load_start: "r_state r = 0 \<Longrightarrow> sl_load (r, s) = Some sl_sw_start"
  by (simp add: sl_load_def sl_decode_def sl_enum_def)


lemma status_line_rc: "fst (ngx_http_parse_status_line d b) \<in> {NGX_AGAIN, NGX_OK, NGX_ERROR}"
proof (cases "sl_load d")
  case (Some st)
  show ?thesis
  proof (cases "scan sl_step (b_mem b) (b_last b) (b_pos b) (st, d)")
    case (Exited x p t)
    obtain s0 where "sl_step (b_mem b) p s0 = Exit x t" using scan_Exited_step [OF Exited] by blast
    then have "x \<in> {Goto_done, Return NGX_ERROR}" by (rule sl_step_exit)
    with Exited Some show ?thesis by (auto simp: ngx_http_parse_status_line_def split: prod.split)
  qed (simp add: ngx_http_parse_status_line_def Some split: prod.split)
qed (simp add: ngx_http_parse_status_line_def)

section \<open>Properties\<close>

definition status0 :: ngx_http_status_t where
  "status0 = \<lparr>s_http_version = 0, s_code = 0, s_count = 0, s_start = None, s_end = None\<rparr>"

text \<open>A buffer to evaluate the parser on: a status line of 17 bytes, received up to \<open>n\<close>.\<close>

definition status_line_example :: "nat \<Rightarrow> ngx_buf_t" where
  "status_line_example n =
     \<lparr>b_mem = mem_of (bytes ''HTTP/1.1 200 OK'' @ [CR, LF]), b_pos = 0, b_last = n\<rparr>"

text \<open>
  C19. Every well-formed status line is parsed to its parts: the parser returns \<open>NGX_OK\<close>,
  consumes exactly the line, and code, version and the status text are read back.
\<close>

theorem status_line_parse:
  assumes at: "mem_at (b_mem b) (b_pos b) (status_line major minor code reason)"
    and lim: "b_pos b + length (status_line major minor code reason) \<le> b_last b"
    and ver: "digits major" "hd major \<noteq> c_0" "digits minor" and code: "digits code" "length code = 3"
    and small: "dec_val major < 2 ^ 16" "dec_val minor < 2 ^ 16"
    and reason: "\<forall>c\<in>set reason. c \<noteq> CR \<and> c \<noteq> LF"
    and start: "r_state r = 0" "s_code s = 0" "s_count s = 0"
  shows "\<exists>r' s' u v. ngx_http_parse_status_line (r, s) b =
      (NGX_OK, (r', s'), b\<lparr>b_pos := b_pos b + length (status_line major minor code reason)\<rparr>) \<and>
    s_code s' = of_nat (dec_val code) \<and>
    s_http_version s' = of_nat (1000 * dec_val major + dec_val minor) \<and>
    s_start s' = Some u \<and> s_end s' = Some v \<and> mslice (b_mem b) u v = code @ [c_sp] @ reason"
proof -
  let ?p = "b_pos b" and ?l = "status_line major minor code reason"
  let ?u = "?p + length major + length minor + 7"
  have len: "length ?l = length major + length minor + length reason + 13"
    using code(2) by (simp add: status_line_def)
  have "mem_at (b_mem b) ?u (code @ [c_sp] @ reason)"
    using at code(2) by (simp add: status_line_def eval_nat_numeral ac_simps)
  then have "mslice (b_mem b) ?u (?u + length (code @ [c_sp] @ reason)) = code @ [c_sp] @ reason"
    by (simp only: mem_at_mslice)
  moreover have "?u + length (code @ [c_sp] @ reason) = ?p + length ?l - 2" using code(2) by (simp add: len)
  ultimately have sl: "mslice (b_mem b) ?u (?p + length ?l - 2) = code @ [c_sp] @ reason" by simp
  have v: "ucast (dec_word 0 major :: uint16) * 1000 + ucast (dec_word 0 minor :: uint16) =
      (of_nat (1000 * dec_val major + dec_val minor) :: ngx_uint_t)"
    using small ver by (simp add: dec_word_val unsigned_of_nat take_bit_nat_eq_self)
  show ?thesis
    using scan_status_line [OF at lim ver code reason start(2,3), of r] sl v len
    by (simp add: ngx_http_parse_status_line_def sl_load_start [OF start(1)] sl_done_def)
qed

theorem status_line_parse_witness:
  "\<exists>r' s' u v. ngx_http_parse_status_line (ngx_http_create_request, status0) (status_line_example 17) =
      (NGX_OK, (r', s'), (status_line_example 17)\<lparr>b_pos := 17\<rparr>) \<and>
    s_code s' = 200 \<and> s_http_version s' = 1001 \<and> s_start s' = Some u \<and> s_end s' = Some v \<and>
    mslice (b_mem (status_line_example 17)) u v = bytes ''200 OK''"
proof -
  let ?l = "status_line (bytes ''1'') (bytes ''1'') (bytes ''200'') (bytes ''OK'')"
  have l: "bytes ''HTTP/1.1 200 OK'' @ [CR, LF] = ?l" and len: "length ?l = 17"
    by (simp_all add: status_line_def bytes_def)
  have "mem_at (b_mem (status_line_example 17)) (b_pos (status_line_example 17)) ?l"
    using mem_at_mem_of [of ?l] by (simp add: status_line_example_def l)
  from status_line_parse [OF this, of ngx_http_create_request status0] len show ?thesis
    by (simp add: status_line_example_def bytes_def digits_def dec_val_def status0_def
        ngx_http_create_request_def)
qed



text \<open>
  C31. A status line may arrive in pieces: a call that returns \<open>NGX_AGAIN\<close>, continued when
  more bytes are there, ends as the call on all the bytes.
\<close>

theorem status_line_resume:
  assumes "ngx_http_parse_status_line d b = (NGX_AGAIN, d', b')"
    and "b_last b \<le> n" "\<And>i. i < b_last b \<Longrightarrow> m i = b_mem b i"
    and "ngx_http_parse_status_line d (b\<lparr>b_mem := m, b_last := n\<rparr>) = (rc1, d1, b1)"
    and "ngx_http_parse_status_line d' (b'\<lparr>b_mem := m, b_last := n\<rparr>) = (rc2, d2, b2)"
  shows "rc1 = rc2 \<and> (rc1 \<noteq> NGX_ERROR \<longrightarrow> d1 = d2 \<and> b1 = b2)"
proof -
  have "rc1 \<in> {NGX_AGAIN, NGX_OK, NGX_ERROR}"
    using status_line_rc [of d "b\<lparr>b_mem := m, b_last := n\<rparr>"] assms(4) by simp
  with sl.parse_resume [OF assms] show ?thesis by (auto simp: sl_final_def)
qed

theorem status_line_resume_witness:
  "let p = ngx_http_parse_status_line; d0 = (ngx_http_create_request, status0);
       (rc, d, b) = p d0 (status_line_example 11);
       (rc1, d1, b1) = p d0 (status_line_example 17);
       (rc2, d2, b2) = p d (b\<lparr>b_mem := b_mem (status_line_example 17), b_last := 17\<rparr>)
   in rc = NGX_AGAIN \<and> rc1 = NGX_OK \<and> rc2 = NGX_OK \<and> d1 = d2 \<and> b1 = b2"
proof -
  let ?p = ngx_http_parse_status_line and ?d0 = "(ngx_http_create_request, status0)"
  obtain rc d b where 0: "?p ?d0 (status_line_example 11) = (rc, d, b)" by (metis prod_cases3)
  obtain rc1 d1 b1 where 1: "?p ?d0 (status_line_example 17) = (rc1, d1, b1)" by (metis prod_cases3)
  let ?b = "b\<lparr>b_mem := b_mem (status_line_example 17), b_last := 17\<rparr>"
  obtain rc2 d2 b2 where 2: "?p d ?b = (rc2, d2, b2)" by (metis prod_cases3)
  have "fst (?p ?d0 (status_line_example 11)) = NGX_AGAIN" by code_simp
  with 0 have rc: "rc = NGX_AGAIN" by simp
  have "fst (?p ?d0 (status_line_example 17)) = NGX_OK" by code_simp
  with 1 have rc1: "rc1 = NGX_OK" by simp
  have "(status_line_example 11)\<lparr>b_mem := b_mem (status_line_example 17), b_last := 17\<rparr> = status_line_example 17"
    by (simp add: status_line_example_def)
  with 1 have w1: "?p ?d0 ((status_line_example 11)\<lparr>b_mem := b_mem (status_line_example 17),
      b_last := 17\<rparr>) = (rc1, d1, b1)" by simp
  have "rc1 = rc2 \<and> (rc1 \<noteq> NGX_ERROR \<longrightarrow> d1 = d2 \<and> b1 = b2)"
    by (rule status_line_resume [OF 0 [unfolded rc] _ _ w1 2]) (simp_all add: status_line_example_def)
  then show ?thesis by (simp add: 0 1 2 rc rc1 Let_def)
qed


end
