(* ===== verification/Http_Chunked.thy ===== *)
theory Http_Chunked
  imports Scanner Digits
begin

text \<open>
  \<open>ngx_http_parse_chunked\<close> of \<open>src/http/ngx_http_parse.c\<close>, the state machine of the chunked
  transfer coding, and \<open>ngx_http_request_body_chunked_filter\<close> of
  \<open>src/http/ngx_http_request_body.c\<close>, which calls it and hands on the data of the chunks.
  Sizes are \<open>off_t\<close>: 64-bit words read as signed numbers.
\<close>

section \<open>States and data\<close>

record ngx_http_chunked_t =
  c_state :: nat
  c_size :: off_t
  c_length :: off_t

datatype ck_state =
    ck_sw_chunk_start
  | ck_sw_chunk_size
  | ck_sw_chunk_extension
  | ck_sw_chunk_extension_almost_done
  | ck_sw_chunk_data
  | ck_sw_after_data
  | ck_sw_after_data_almost_done
  | ck_sw_last_chunk_extension
  | ck_sw_last_chunk_extension_almost_done
  | ck_sw_trailer
  | ck_sw_trailer_almost_done
  | ck_sw_trailer_header
  | ck_sw_trailer_header_almost_done

definition ck_enum :: "ck_state list" where
  "ck_enum =
    [ck_sw_chunk_start, ck_sw_chunk_size, ck_sw_chunk_extension, ck_sw_chunk_extension_almost_done,
     ck_sw_chunk_data, ck_sw_after_data, ck_sw_after_data_almost_done, ck_sw_last_chunk_extension,
     ck_sw_last_chunk_extension_almost_done, ck_sw_trailer, ck_sw_trailer_almost_done,
     ck_sw_trailer_header, ck_sw_trailer_header_almost_done]"

fun ck_code :: "ck_state \<Rightarrow> nat" where
  "ck_code ck_sw_chunk_start = 0"
| "ck_code ck_sw_chunk_size = 1"
| "ck_code ck_sw_chunk_extension = 2"
| "ck_code ck_sw_chunk_extension_almost_done = 3"
| "ck_code ck_sw_chunk_data = 4"
| "ck_code ck_sw_after_data = 5"
| "ck_code ck_sw_after_data_almost_done = 6"
| "ck_code ck_sw_last_chunk_extension = 7"
| "ck_code ck_sw_last_chunk_extension_almost_done = 8"
| "ck_code ck_sw_trailer = 9"
| "ck_code ck_sw_trailer_almost_done = 10"
| "ck_code ck_sw_trailer_header = 11"
| "ck_code ck_sw_trailer_header_almost_done = 12"

definition ck_decode :: "nat \<Rightarrow> ck_state option" where
  "ck_decode n = (if n < length ck_enum then Some (ck_enum ! n) else None)"

lemma ck_decode_code [simp]: "ck_decode (ck_code st) = Some st"
  by (cases st) (simp_all add: ck_decode_def ck_enum_def)

section \<open>The machine\<close>

text \<open>\<open>goto data\<close>, \<open>goto done\<close>, \<open>goto invalid\<close>.\<close>

datatype ck_exit = Ck_data | Ck_done | Ck_invalid

type_synonym ck_action = "(ck_exit, ck_state \<times> off_t) action"

text \<open>The value of a hexadecimal digit, as both states that read the size compute it.\<close>

definition ck_hex :: "byte \<Rightarrow> off_t option" where
  "ck_hex ch =
    (if ch \<ge> c_0 \<and> ch \<le> c_9 then Some (ucast ch - 0x30)
     else
       let c = lower_bit ch in
       if c \<ge> c_a \<and> c \<le> c_f then Some (ucast c - 0x61 + 10)
       else None)"

definition ck_chunk_start :: "byte \<Rightarrow> off_t \<Rightarrow> ck_action" where
  "ck_chunk_start ch sz =
    (case ck_hex ch of
       Some v \<Rightarrow> Next (ck_sw_chunk_size, v)
     | None \<Rightarrow> Exit Ck_invalid (ck_sw_chunk_start, sz))"

definition ck_chunk_size :: "byte \<Rightarrow> off_t \<Rightarrow> ck_action" where
  "ck_chunk_size ch sz =
    (case ck_hex ch of
       Some v \<Rightarrow> Next (ck_sw_chunk_size, sz * 16 + v)
     | None \<Rightarrow>
         if sz = 0
         then (if ch = CR then Next (ck_sw_last_chunk_extension_almost_done, sz)
               else if ch = LF then Next (ck_sw_trailer, sz)
               else if ch = c_semi \<or> ch = c_sp \<or> ch = TAB then Next (ck_sw_last_chunk_extension, sz)
               else Exit Ck_invalid (ck_sw_chunk_size, sz))
         else (if ch = CR then Next (ck_sw_chunk_extension_almost_done, sz)
               else if ch = LF then Next (ck_sw_chunk_data, sz)
               else if ch = c_semi \<or> ch = c_sp \<or> ch = TAB then Next (ck_sw_chunk_extension, sz)
               else Exit Ck_invalid (ck_sw_chunk_size, sz)))"

definition ck_chunk_extension :: "byte \<Rightarrow> off_t \<Rightarrow> ck_action" where
  "ck_chunk_extension ch sz =
    (if ch = CR then Next (ck_sw_chunk_extension_almost_done, sz)
     else if ch = LF then Next (ck_sw_chunk_data, sz)
     else Next (ck_sw_chunk_extension, sz))"

definition ck_after_data :: "byte \<Rightarrow> off_t \<Rightarrow> ck_action" where
  "ck_after_data ch sz =
    (if ch = CR then Next (ck_sw_after_data_almost_done, sz)
     else if ch = LF then Next (ck_sw_chunk_start, sz)
     else Next (ck_sw_after_data, sz))"

definition ck_last_chunk_extension :: "byte \<Rightarrow> off_t \<Rightarrow> ck_action" where
  "ck_last_chunk_extension ch sz =
    (if ch = CR then Next (ck_sw_last_chunk_extension_almost_done, sz)
     else if ch = LF then Next (ck_sw_trailer, sz)
     else Next (ck_sw_last_chunk_extension, sz))"

text \<open>The states that wait for a line feed only.\<close>

definition ck_expect_lf :: "ck_state \<Rightarrow> ck_state \<Rightarrow> byte \<Rightarrow> off_t \<Rightarrow> ck_action" where
  "ck_expect_lf st st' ch sz = (if ch = LF then Next (st', sz) else Exit Ck_invalid (st, sz))"

definition ck_trailer :: "byte \<Rightarrow> off_t \<Rightarrow> ck_action" where
  "ck_trailer ch sz =
    (if ch = CR then Next (ck_sw_trailer_almost_done, sz)
     else if ch = LF then Exit Ck_done (ck_sw_trailer, sz)
     else Next (ck_sw_trailer_header, sz))"

definition ck_trailer_almost_done :: "byte \<Rightarrow> off_t \<Rightarrow> ck_action" where
  "ck_trailer_almost_done ch sz =
    (if ch = LF then Exit Ck_done (ck_sw_trailer_almost_done, sz)
     else Exit Ck_invalid (ck_sw_trailer_almost_done, sz))"

definition ck_trailer_header :: "byte \<Rightarrow> off_t \<Rightarrow> ck_action" where
  "ck_trailer_header ch sz =
    (if ch = CR then Next (ck_sw_trailer_header_almost_done, sz)
     else if ch = LF then Next (ck_sw_trailer, sz)
     else Next (ck_sw_trailer_header, sz))"

fun ck_step :: "mem \<Rightarrow> nat \<Rightarrow> ck_state \<times> off_t \<Rightarrow> ck_action" where
  "ck_step m p (st, sz) =
    (case st of
       ck_sw_chunk_start \<Rightarrow> ck_chunk_start (m p) sz
     | ck_sw_chunk_size \<Rightarrow> ck_chunk_size (m p) sz
     | ck_sw_chunk_extension \<Rightarrow> ck_chunk_extension (m p) sz
     | ck_sw_chunk_extension_almost_done \<Rightarrow>
         ck_expect_lf ck_sw_chunk_extension_almost_done ck_sw_chunk_data (m p) sz
     | ck_sw_chunk_data \<Rightarrow> Exit Ck_data (ck_sw_chunk_data, sz)
     | ck_sw_after_data \<Rightarrow> ck_after_data (m p) sz
     | ck_sw_after_data_almost_done \<Rightarrow>
         ck_expect_lf ck_sw_after_data_almost_done ck_sw_chunk_start (m p) sz
     | ck_sw_last_chunk_extension \<Rightarrow> ck_last_chunk_extension (m p) sz
     | ck_sw_last_chunk_extension_almost_done \<Rightarrow>
         ck_expect_lf ck_sw_last_chunk_extension_almost_done ck_sw_trailer (m p) sz
     | ck_sw_trailer \<Rightarrow> ck_trailer (m p) sz
     | ck_sw_trailer_almost_done \<Rightarrow> ck_trailer_almost_done (m p) sz
     | ck_sw_trailer_header \<Rightarrow> ck_trailer_header (m p) sz
     | ck_sw_trailer_header_almost_done \<Rightarrow>
         ck_expect_lf ck_sw_trailer_header_almost_done ck_sw_trailer (m p) sz)"

declare ck_step.simps [simp del]

text \<open>The number of bytes that must still come, the switch behind the label \<open>data\<close>.\<close>

fun ck_length :: "ck_state \<Rightarrow> off_t \<Rightarrow> off_t" where
  "ck_length ck_sw_chunk_start sz = 3"
| "ck_length ck_sw_chunk_size sz = 1 + (if sz \<noteq> 0 then sz + 4 else 1)"
| "ck_length ck_sw_chunk_extension sz = 1 + sz + 4"
| "ck_length ck_sw_chunk_extension_almost_done sz = 1 + sz + 4"
| "ck_length ck_sw_chunk_data sz = sz + 4"
| "ck_length ck_sw_after_data sz = 4"
| "ck_length ck_sw_after_data_almost_done sz = 4"
| "ck_length ck_sw_last_chunk_extension sz = 2"
| "ck_length ck_sw_last_chunk_extension_almost_done sz = 2"
| "ck_length ck_sw_trailer sz = 1"
| "ck_length ck_sw_trailer_almost_done sz = 1"
| "ck_length ck_sw_trailer_header sz = 2"
| "ck_length ck_sw_trailer_header_almost_done sz = 2"

section \<open>The parser\<close>

definition ck_load :: "ngx_http_chunked_t \<Rightarrow> ck_state option" where
  "ck_load ctx =
    (case ck_decode (c_state ctx) of
       None \<Rightarrow> None
     | Some st \<Rightarrow> Some (if st = ck_sw_chunk_data \<and> c_size ctx = 0 then ck_sw_after_data else st))"

text \<open>The code behind \<open>data\<close>, for the return code \<open>rc\<close>.\<close>

definition ck_data :: "ngx_rc \<Rightarrow> nat \<Rightarrow> ck_state \<Rightarrow> off_t \<Rightarrow> ngx_buf_t \<Rightarrow>
    ngx_rc \<times> ngx_http_chunked_t \<times> ngx_buf_t" where
  "ck_data rc p st sz b =
    (let ctx = \<lparr>c_state = ck_code st, c_size = sz, c_length = ck_length st sz\<rparr>;
         b = b\<lparr>b_pos := p\<rparr>
     in if c_size ctx <s 0 \<or> c_length ctx <s 0 then (NGX_ERROR, ctx, b) else (rc, ctx, b))"

text \<open>
  A state number that is none of the states leaves the whole switch without effect, also
  the one that computes the length.
\<close>

definition ngx_http_parse_chunked ::
  "ngx_http_chunked_t \<Rightarrow> ngx_buf_t \<Rightarrow> ngx_rc \<times> ngx_http_chunked_t \<times> ngx_buf_t" where
  "ngx_http_parse_chunked ctx b =
    (case ck_load ctx of
       None \<Rightarrow>
         (let b = b\<lparr>b_pos := max (b_pos b) (b_last b)\<rparr>
          in if c_size ctx <s 0 \<or> c_length ctx <s 0 then (NGX_ERROR, ctx, b) else (NGX_AGAIN, ctx, b))
     | Some st \<Rightarrow>
         (case scan ck_step (b_mem b) (b_last b) (b_pos b) (st, c_size ctx) of
            Again p (st', sz) \<Rightarrow> ck_data NGX_AGAIN p st' sz b
          | Exited Ck_data p (st', sz) \<Rightarrow> ck_data NGX_OK p st' sz b
          | Exited Ck_done p (st', sz) \<Rightarrow>
              (NGX_DONE, ctx\<lparr>c_state := 0, c_size := sz\<rparr>, b\<lparr>b_pos := p + 1\<rparr>)
          | Exited Ck_invalid p (st', sz) \<Rightarrow> (NGX_ERROR, ctx\<lparr>c_size := sz\<rparr>, b)))"

lemmas ck_defs =
  ck_chunk_start_def ck_chunk_size_def ck_chunk_extension_def ck_after_data_def
  ck_last_chunk_extension_def ck_expect_lf_def ck_trailer_def ck_trailer_almost_done_def
  ck_trailer_header_def

interpretation ck: scanner ck_step
proof
  show "ck_step m p s = ck_step m' p s" if "\<And>i. i \<le> p \<Longrightarrow> m i = m' i" for p m m' s
    using that [of p] by (cases s; cases "fst s") (simp_all add: ck_step.simps)
qed

section \<open>What the parser returns\<close>

text \<open>
  The size is not zero where the next thing to come is data. This holds of the states the
  parser stores; \<open>ngx_http_request_body_chunked_filter\<close> clears the size in \<open>sw_chunk_data\<close>
  only, which \<open>ck_load\<close> reads as \<open>sw_after_data\<close>.
\<close>

fun ck_inv :: "mem \<Rightarrow> nat \<Rightarrow> ck_state \<times> off_t \<Rightarrow> bool" where
  "ck_inv m p (st, sz) \<longleftrightarrow>
    (st \<in> {ck_sw_chunk_extension, ck_sw_chunk_extension_almost_done, ck_sw_chunk_data} \<longrightarrow> sz \<noteq> 0)"

fun ck_post :: "mem \<Rightarrow> nat \<Rightarrow> ck_exit \<Rightarrow> ck_state \<times> off_t \<Rightarrow> bool" where
  "ck_post m p Ck_data (st, sz) \<longleftrightarrow> st = ck_sw_chunk_data \<and> sz \<noteq> 0"
| "ck_post m p Ck_done (st, sz) \<longleftrightarrow> m p = LF"
| "ck_post m p Ck_invalid (st, sz) \<longleftrightarrow> True"

interpretation cki: scanner_inv ck_step ck_inv ck_post
proof
  show "ck_inv m (Suc p) s'" if "ck_inv m p s" "ck_step m p s = Next s'" for m p s s'
    using that by (cases s; cases "fst s") (auto simp: ck_step.simps ck_defs split: if_splits option.splits)
  show "ck_post m p x s'" if "ck_inv m p s" "ck_step m p s = Exit x s'" for m p s x s'
    using that by (cases s; cases "fst s") (auto simp: ck_step.simps ck_defs split: if_splits option.splits)
qed

definition ck_wf :: "ngx_http_chunked_t \<Rightarrow> bool" where
  "ck_wf ctx \<longleftrightarrow> c_state ctx < length ck_enum \<and>
     (ck_enum ! c_state ctx \<in> {ck_sw_chunk_extension, ck_sw_chunk_extension_almost_done} \<longrightarrow> c_size ctx \<noteq> 0)"

lemma ck_wf_load:
  assumes "ck_wf ctx"
  obtains st where "ck_load ctx = Some st" "ck_inv m p (st, c_size ctx)"
  using assms that by (auto simp: ck_wf_def ck_load_def ck_decode_def split: if_splits)

lemma ck_code_nth [simp]: "ck_code st < length ck_enum" "ck_enum ! ck_code st = st"
  by (cases st; simp add: ck_enum_def)+

lemma ck_data_rc: "ck_data rc p st sz b = (rc', ctx', b') \<Longrightarrow> rc' \<noteq> NGX_ERROR \<Longrightarrow>
   rc' = rc \<and> ctx' = \<lparr>c_state = ck_code st, c_size = sz, c_length = ck_length st sz\<rparr> \<and>
   b' = b\<lparr>b_pos := p\<rparr> \<and> \<not> sz <s 0 \<and> \<not> ck_length st sz <s 0"
  by (auto simp: ck_data_def Let_def split: if_splits)

text \<open>With \<open>NGX_OK\<close> there is a byte of data at the position, and something was read or is to be read.\<close>

lemma chunked_okD:
  assumes "ngx_http_parse_chunked ctx b = (NGX_OK, ctx', b')"
  shows "b' = b\<lparr>b_pos := b_pos b'\<rparr> \<and> b_pos b \<le> b_pos b' \<and> b_pos b' < b_last b \<and>
    c_state ctx' = ck_code ck_sw_chunk_data \<and> \<not> c_size ctx' <s 0 \<and> (b_pos b < b_pos b' \<or> c_size ctx' \<noteq> 0)"
proof -
  obtain st where l: "ck_load ctx = Some st"
    using assms by (cases "ck_load ctx") (auto simp: ngx_http_parse_chunked_def Let_def split: if_splits)
  obtain p st' sz where
    ex: "scan ck_step (b_mem b) (b_last b) (b_pos b) (st, c_size ctx) = Exited Ck_data p (st', sz)"
    and fin: "ck_data NGX_OK p st' sz b = (NGX_OK, ctx', b')"
    using assms l
    by (auto simp: ngx_http_parse_chunked_def ck_data_def Let_def
        split: outcome.splits prod.splits ck_exit.splits if_splits)
  note f = ck_data_rc [OF fin]
  note pos = scan_Exited_pos [OF ex]
  obtain s0 where s0: "ck_step (b_mem b) p s0 = Exit Ck_data (st', sz)"
    using scan_Exited_step [OF ex] by blast
  then have st': "st' = ck_sw_chunk_data"
    by (cases s0; cases "fst s0") (auto simp: ck_step.simps ck_defs split: if_splits option.splits)
  have "sz \<noteq> 0" if "p = b_pos b"
  proof -
    have "ck_step (b_mem b) p (st, c_size ctx) = Exit Ck_data (st', sz)"
      using scan_Exited_first [OF ex [folded that]] .
    then have "st = ck_sw_chunk_data" "sz = c_size ctx"
      by (cases st; auto simp: ck_step.simps ck_defs split: if_splits option.splits)+
    with l show ?thesis by (auto simp: ck_load_def split: option.splits if_splits)
  qed
  with f pos st' show ?thesis by auto
qed

section \<open>The body filter\<close>

text \<open>
  The fields of \<open>r\<close> and \<open>r->request_body\<close> the filter uses. \<open>client_max_body_size\<close> is the
  setting of the location, 0 for no limit. A buffer of the output chain is its bytes, or the
  last buffer.
\<close>

record ngx_http_request_body_t =
  rb_rest :: off_t
  rb_chunked :: ngx_http_chunked_t
  rb_content_length_n :: off_t

datatype body_buf = Body_data "byte list" | Body_last

text \<open>The data of a chunk that is in the buffer: \<open>(buffer, context, number of bytes)\<close>.\<close>

definition ck_take :: "ngx_http_chunked_t \<Rightarrow> ngx_buf_t \<Rightarrow> ngx_http_chunked_t \<times> ngx_buf_t \<times> off_t" where
  "ck_take ctx b =
    (let n = b_last b - b_pos b in
     if c_size ctx <s of_nat n
     then (ctx\<lparr>c_size := 0\<rparr>, b\<lparr>b_pos := b_pos b + unat (c_size ctx)\<rparr>, c_size ctx)
     else (ctx\<lparr>c_size := c_size ctx - of_nat n\<rparr>, b\<lparr>b_pos := b_last b\<rparr>, of_nat n))"

lemma ck_take_progress:
  assumes "ngx_http_parse_chunked ctx b = (NGX_OK, ctx1, b1)" "ck_take ctx1 b1 = (ctx2, b2, n)"
  shows "b_last b2 = b_last b \<and> b_last b2 - b_pos b2 < b_last b - b_pos b"
proof -
  have b1: "b1 = b\<lparr>b_pos := b_pos b1\<rparr>" "b_pos b \<le> b_pos b1" "b_pos b1 < b_last b"
    "b_pos b < b_pos b1 \<or> c_size ctx1 \<noteq> 0"
    using chunked_okD [OF assms(1)] by blast+
  have "b_last b1 = b_last b" by (subst b1(1)) simp
  moreover have "0 < unat (c_size ctx1) \<or> b_pos b < b_pos b1"
    using b1(4) by (auto simp: unat_gt_0)
  ultimately show ?thesis
    using assms(2) b1(2,3) by (auto simp: ck_take_def Let_def split: if_splits)
qed

text \<open>The loop over one buffer, as long as chunks begin in it.\<close>

function ck_filter_buf :: "off_t \<Rightarrow> ngx_http_request_body_t \<Rightarrow> ngx_buf_t \<Rightarrow>
    ngx_rc \<times> ngx_http_request_body_t \<times> ngx_buf_t \<times> body_buf list" where
  "ck_filter_buf max_size rb b =
    (case ngx_http_parse_chunked (rb_chunked rb) b of
       (rc, ctx, b1) \<Rightarrow>
         (let rb = rb\<lparr>rb_chunked := ctx\<rparr> in
          if rc = NGX_OK
          then if max_size \<noteq> 0 \<and> max_size - rb_content_length_n rb <s c_size ctx
               then (NGX_HTTP_REQUEST_ENTITY_TOO_LARGE, rb, b1, [])
               else
                 (case ck_take ctx b1 of
                    (ctx2, b2, n) \<Rightarrow>
                      (case ck_filter_buf max_size
                          (rb\<lparr>rb_chunked := ctx2, rb_content_length_n := rb_content_length_n rb + n\<rparr>) b2 of
                         (rc3, rb3, b3, out) \<Rightarrow>
                           (rc3, rb3, b3, Body_data (mslice (b_mem b1) (b_pos b1) (b_pos b2)) # out)))
          else if rc = NGX_DONE then (NGX_OK, rb\<lparr>rb_rest := 0\<rparr>, b1, [Body_last])
          else if rc = NGX_AGAIN then (NGX_OK, rb\<lparr>rb_rest := c_length ctx\<rparr>, b1, [])
          else (NGX_HTTP_BAD_REQUEST, rb, b1, [])))"
  by pat_completeness auto
termination
proof (relation "measure (\<lambda>(max_size, rb, b). b_last b - b_pos b)", goal_cases)
  case (2 max_size rb b rc x ctx b1 rb' ctx2 y b2 n)
  then have "ngx_http_parse_chunked (rb_chunked rb) b = (NGX_OK, ctx, b1)" "ck_take ctx b1 = (ctx2, b2, n)"
    by simp_all
  from ck_take_progress [OF this] show ?case by auto
qed simp

declare ck_filter_buf.simps [simp del]

text \<open>The loop over the chain of buffers; an error ends it.\<close>

fun ck_filter_chain :: "off_t \<Rightarrow> ngx_http_request_body_t \<Rightarrow> ngx_buf_t list \<Rightarrow>
    ngx_rc \<times> ngx_http_request_body_t \<times> body_buf list" where
  "ck_filter_chain max_size rb [] = (NGX_OK, rb, [])"
| "ck_filter_chain max_size rb (b # bs) =
    (case ck_filter_buf max_size rb b of
       (rc, rb1, b1, out) \<Rightarrow>
         if rc \<noteq> NGX_OK then (rc, rb1, out)
         else (case ck_filter_chain max_size rb1 bs of (rc2, rb2, out2) \<Rightarrow> (rc2, rb2, out @ out2)))"

definition ngx_http_request_body_chunked_filter :: "off_t \<Rightarrow> ngx_http_request_body_t \<Rightarrow> ngx_buf_t list \<Rightarrow>
    ngx_rc \<times> ngx_http_request_body_t \<times> body_buf list" where
  "ngx_http_request_body_chunked_filter max_size rb bufs =
    (let rb = (if rb_rest rb = - 1
               then \<lparr>rb_rest = 3, rb_chunked = \<lparr>c_state = 0, c_size = 0, c_length = 0\<rparr>,
                     rb_content_length_n = 0\<rparr>
               else rb)
     in ck_filter_chain max_size rb bufs)"

section \<open>Sizes and runs of the machine\<close>

lemma ck_hex_eq: "ck_hex ch = (if is_xdigit ch then Some (of_nat (xdigit ch)) else None)"
  by (rule all_bytes) code_simp

lemma xdigit_neq: "is_xdigit ch \<Longrightarrow> ch \<noteq> CR \<and> ch \<noteq> LF"
  by (auto simp: is_xdigit_def)

definition xdigits :: "byte list \<Rightarrow> bool" where
  "xdigits hs \<longleftrightarrow> hs \<noteq> [] \<and> (\<forall>c\<in>set hs. is_xdigit c)"

lemma hex_word_acc:
  "foldl (\<lambda>a d. a * 16 + of_nat (xdigit d)) (of_nat a) ds = (of_nat (hex_acc a ds) :: off_t)"
proof (induction ds arbitrary: a)
  case (Cons d ds)
  have "of_nat a * 16 + of_nat (xdigit d) = (of_nat (a * 16 + xdigit d) :: off_t)" by simp
  then show ?case using Cons.IH [of "a * 16 + xdigit d"] by (simp only: foldl_Cons hex_acc_simps)
qed simp

lemma scan_chunk_size:
  assumes at: "mem_at m p hs" and hs: "xdigits hs" and lim: "p + length hs \<le> lim"
  shows "scan ck_step m lim p (ck_sw_chunk_start, sz) =
    scan ck_step m lim (p + length hs) (ck_sw_chunk_size, of_nat (hex_val hs))"
proof -
  obtain d ds where hs': "hs = d # ds" using hs by (cases hs) (auto simp: xdigits_def)
  have d: "is_xdigit d" "\<forall>c\<in>set ds. is_xdigit c" using hs by (auto simp: hs' xdigits_def)
  have "scan ck_step m lim p (ck_sw_chunk_start, sz) =
      scan ck_step m lim (Suc p) (ck_sw_chunk_size, of_nat (xdigit d))"
    using at lim d by (intro scan_Next) (simp_all add: hs' ck_step.simps ck_chunk_start_def ck_hex_eq)
  also have "\<dots> = scan ck_step m lim (Suc p + length ds) (ck_sw_chunk_size,
      foldl (\<lambda>a d. a * 16 + of_nat (xdigit d)) (of_nat (xdigit d)) ds)"
    using at lim d(2)
    by (intro scan_foldl [where g = "\<lambda>a. (ck_sw_chunk_size, a)"])
      (simp_all add: hs' ck_step.simps ck_chunk_size_def ck_hex_eq)
  finally show ?thesis by (simp add: hs' hex_word_acc hex_val_def)
qed

lemma not_xdigit_ctl [simp]: "\<not> is_xdigit CR" "\<not> is_xdigit LF"
  by (simp_all add: is_xdigit_def)

text \<open>The head of a chunk: its size and the end of the line.\<close>

lemma scan_chunk_head:
  assumes at: "mem_at m p (hs @ [CR, LF])" and hs: "xdigits hs" and lim: "p + length hs + 2 \<le> lim"
    and nz: "(of_nat (hex_val hs) :: off_t) \<noteq> 0"
  shows "scan ck_step m lim p (ck_sw_chunk_start, sz) =
    scan ck_step m lim (p + length hs + 2) (ck_sw_chunk_data, of_nat (hex_val hs))"
proof -
  let ?q = "p + length hs"
  have at': "mem_at m p hs" "m ?q = CR" "m (Suc ?q) = LF" using at by simp_all
  have "scan ck_step m lim p (ck_sw_chunk_start, sz) =
      scan ck_step m lim ?q (ck_sw_chunk_size, of_nat (hex_val hs))"
    using lim by (intro scan_chunk_size [OF at'(1) hs]) simp
  also have "\<dots> = scan ck_step m lim (Suc ?q) (ck_sw_chunk_extension_almost_done, of_nat (hex_val hs))"
    using lim at' nz by (intro scan_Next) (simp_all add: ck_step.simps ck_chunk_size_def ck_hex_eq)
  also have "\<dots> = scan ck_step m lim (Suc (Suc ?q)) (ck_sw_chunk_data, of_nat (hex_val hs))"
    using lim at' by (intro scan_Next) (simp_all add: ck_step.simps ck_expect_lf_def)
  finally show ?thesis by simp
qed

lemma scan_chunk_tail:
  "mem_at m p [CR, LF] \<Longrightarrow> p + 2 \<le> lim \<Longrightarrow>
     scan ck_step m lim p (ck_sw_after_data, sz) = scan ck_step m lim (p + 2) (ck_sw_chunk_start, sz)"
  by (simp add: scan_Next ck_step.simps ck_after_data_def ck_expect_lf_def)

text \<open>The last chunk and an empty trailer.\<close>

lemma scan_last_chunk:
  assumes "mem_at m p [c_0, CR, LF, CR, LF]" "p + 5 \<le> lim"
  shows "scan ck_step m lim p (ck_sw_chunk_start, sz) = Exited Ck_done (p + 4) (ck_sw_trailer_almost_done, 0)"
  using assms
  by (simp add: scan_Next scan_Exit ck_step.simps ck_chunk_start_def ck_chunk_size_def ck_expect_lf_def
      ck_trailer_def ck_trailer_almost_done_def ck_hex_eq is_xdigit_def xdigit_def)

section \<open>Bodies\<close>

text \<open>A chunk is the digits of its size and its data; a body ends with the chunk of size 0.\<close>

type_synonym chunk = "byte list \<times> byte list"

definition chunk_bytes :: "chunk \<Rightarrow> byte list" where
  "chunk_bytes c = fst c @ [CR, LF] @ snd c @ [CR, LF]"

definition chunked_body :: "chunk list \<Rightarrow> byte list" where
  "chunked_body cs = concat (map chunk_bytes cs) @ [c_0, CR, LF, CR, LF]"

definition chunk_ok :: "chunk \<Rightarrow> bool" where
  "chunk_ok c \<longleftrightarrow> xdigits (fst c) \<and> hex_val (fst c) = length (snd c) \<and> snd c \<noteq> []"

definition body_size :: "chunk list \<Rightarrow> nat" where
  "body_size cs = (\<Sum>c\<leftarrow>cs. length (snd c))"

lemma sint_of_nat_small [simp]: "n < 2 ^ 63 \<Longrightarrow> sint (of_nat n :: off_t) = int n"
  by (simp add: signed_of_nat signed_take_bit_int_eq_self)

lemma off_t_less: "m < 2 ^ 63 \<Longrightarrow> n < 2 ^ 63 \<Longrightarrow> (of_nat m :: off_t) <s of_nat n \<longleftrightarrow> m < n"
  by (simp add: word_sless_alt)

lemma off_t_nonneg: "n < 2 ^ 63 \<Longrightarrow> \<not> (of_nat n :: off_t) <s 0"
  by (simp add: word_sless_alt)

lemma off_t_neq0: "0 < n \<Longrightarrow> n < 2 ^ 63 \<Longrightarrow> (of_nat n :: off_t) \<noteq> 0"
  using unat_of_nat_small [of n, where 'a = 64] by auto

lemma off_t_neg: "2 ^ 63 \<le> unat w \<Longrightarrow> w <s 0" for w :: off_t
proof (rule ccontr)
  assume big: "2 ^ 63 \<le> unat w" and "\<not> w <s 0"
  then have "0 \<le> sint w" by (simp add: word_sless_alt)
  moreover have lt: "sint w < 2 ^ 63" using sint_lt [of w] by simp
  ultimately have "take_bit LENGTH(64) (sint w) = sint w" by (intro take_bit_int_eq_self) simp_all
  then have "uint w = sint w" by (simp only: uint_sint)
  with lt have "int (unat w) < 2 ^ 63" by simp
  then have "unat w < 2 ^ 63" by (simp only: of_nat_less_numeral_power_cancel_iff)
  with big show False by simp
qed

text \<open>A context from which the machine comes to the start of a chunk at \<open>q\<close>.\<close>

definition ck_between :: "ngx_http_chunked_t \<Rightarrow> mem \<Rightarrow> nat \<Rightarrow> nat \<Rightarrow> bool" where
  "ck_between ctx m p q \<longleftrightarrow> p \<le> q \<and> (\<exists>st. ck_load ctx = Some st \<and>
     (\<forall>lim. q \<le> lim \<longrightarrow> scan ck_step m lim p (st, c_size ctx) = scan ck_step m lim q (ck_sw_chunk_start, c_size ctx)))"

lemma ck_between_start: "ck_between \<lparr>c_state = 0, c_size = sz, c_length = len\<rparr> m p p"
  by (simp add: ck_between_def ck_load_def ck_decode_def ck_enum_def)

lemma ck_between_after:
  "mem_at m p [CR, LF] \<Longrightarrow> ck_between \<lparr>c_state = ck_code ck_sw_chunk_data, c_size = 0, c_length = len\<rparr> m p (p + 2)"
  by (simp add: ck_between_def ck_load_def ck_decode_def ck_enum_def scan_chunk_tail)

lemma parse_chunk_head:
  assumes btw: "ck_between ctx (b_mem b) (b_pos b) q" and at: "mem_at (b_mem b) q (hs @ [CR, LF])"
    and hs: "xdigits hs" "0 < hex_val hs" "hex_val hs < 2 ^ 62" and lim: "q + length hs + 2 < b_last b"
  shows "ngx_http_parse_chunked ctx b =
    (NGX_OK, \<lparr>c_state = ck_code ck_sw_chunk_data, c_size = of_nat (hex_val hs), c_length = of_nat (hex_val hs + 4)\<rparr>,
     b\<lparr>b_pos := q + length hs + 2\<rparr>)"
proof -
  obtain st where st: "ck_load ctx = Some st"
    "scan ck_step (b_mem b) (b_last b) (b_pos b) (st, c_size ctx) =
      scan ck_step (b_mem b) (b_last b) q (ck_sw_chunk_start, c_size ctx)"
    using btw lim by (auto simp: ck_between_def)
  have nz: "(of_nat (hex_val hs) :: off_t) \<noteq> 0" using hs by (intro off_t_neq0) auto
  have "scan ck_step (b_mem b) (b_last b) q (ck_sw_chunk_start, c_size ctx) =
      scan ck_step (b_mem b) (b_last b) (q + length hs + 2) (ck_sw_chunk_data, of_nat (hex_val hs))"
    using lim by (intro scan_chunk_head [OF at hs(1) _ nz]) simp
  also have "\<dots> = Exited Ck_data (q + length hs + 2) (ck_sw_chunk_data, of_nat (hex_val hs))"
    using lim by (intro scan_Exit) (simp_all add: ck_step.simps)
  finally have ex: "scan ck_step (b_mem b) (b_last b) (b_pos b) (st, c_size ctx) =
      Exited Ck_data (q + length hs + 2) (ck_sw_chunk_data, of_nat (hex_val hs))"
    using st(2) by simp
  have "\<not> of_nat (hex_val hs) <s (0 :: off_t)" "\<not> of_nat (hex_val hs + 4) <s (0 :: off_t)"
    using hs(3) by (intro off_t_nonneg; simp)+
  moreover have "ck_length ck_sw_chunk_data (of_nat (hex_val hs)) = of_nat (hex_val hs + 4)" by simp
  ultimately show ?thesis using ex st(1) by (simp add: ngx_http_parse_chunked_def ck_data_def Let_def)
qed

lemma ck_take_whole:
  assumes "n < b_last b - b_pos b" "b_last b < 2 ^ 62"
  shows "ck_take \<lparr>c_state = st, c_size = of_nat n, c_length = len\<rparr> b =
    (\<lparr>c_state = st, c_size = 0, c_length = len\<rparr>, b\<lparr>b_pos := b_pos b + n\<rparr>, of_nat n)"
proof -
  have "of_nat n <s (of_nat (b_last b - b_pos b) :: off_t)" using assms by (subst off_t_less) auto
  moreover have "unat (of_nat n :: off_t) = n" using assms by (intro unat_of_nat_small) simp
  ultimately show ?thesis by (simp add: ck_take_def Let_def)
qed

lemma parse_last_chunk:
  assumes btw: "ck_between ctx (b_mem b) (b_pos b) q" and at: "mem_at (b_mem b) q [c_0, CR, LF, CR, LF]"
    and lim: "q + 5 \<le> b_last b"
  shows "ngx_http_parse_chunked ctx b = (NGX_DONE, ctx\<lparr>c_state := 0, c_size := 0\<rparr>, b\<lparr>b_pos := q + 5\<rparr>)"
proof -
  obtain st where st: "ck_load ctx = Some st"
    "scan ck_step (b_mem b) (b_last b) (b_pos b) (st, c_size ctx) =
      scan ck_step (b_mem b) (b_last b) q (ck_sw_chunk_start, c_size ctx)"
    using btw lim by (auto simp: ck_between_def)
  then show ?thesis
    using scan_last_chunk [OF at lim, of "c_size ctx"] by (simp add: ngx_http_parse_chunked_def)
qed

text \<open>One round of the loop over a buffer.\<close>

lemma ck_filter_buf_chunk:
  assumes "ngx_http_parse_chunked (rb_chunked rb) b = (NGX_OK, ctx, b1)"
    and "\<not> (mx \<noteq> 0 \<and> mx - rb_content_length_n rb <s c_size ctx)" "ck_take ctx b1 = (ctx2, b2, n)"
    and "ck_filter_buf mx (rb\<lparr>rb_chunked := ctx2, rb_content_length_n := rb_content_length_n rb + n\<rparr>) b2 =
      (rc3, rb3, b3, out)"
  shows "ck_filter_buf mx rb b = (rc3, rb3, b3, Body_data (mslice (b_mem b1) (b_pos b1) (b_pos b2)) # out)"
  using assms by (subst ck_filter_buf.simps) (simp add: Let_def)

text \<open>The filter over a buffer that holds a whole body, from the start of a chunk.\<close>

lemma ck_filter_body:
  assumes "ck_between (rb_chunked rb) (b_mem b) (b_pos b) q"
    and "mem_at (b_mem b) q (chunked_body cs)" "q + length (chunked_body cs) \<le> b_last b"
    and "\<forall>c\<in>set cs. chunk_ok c" "b_last b < 2 ^ 62" "rb_content_length_n rb = of_nat n" "n + body_size cs < 2 ^ 62"
    and "mx < 2 ^ 62" "mx = 0 \<or> n + body_size cs \<le> mx"
  shows "\<exists>rb'. ck_filter_buf (of_nat mx) rb b =
      (NGX_OK, rb', b\<lparr>b_pos := q + length (chunked_body cs)\<rparr>, map (Body_data \<circ> snd) cs @ [Body_last]) \<and>
    rb_rest rb' = 0 \<and> rb_content_length_n rb' = of_nat (n + body_size cs)"
  using assms
proof (induction cs arbitrary: rb b q n)
  case Nil
  then have "ngx_http_parse_chunked (rb_chunked rb) b =
      (NGX_DONE, (rb_chunked rb)\<lparr>c_state := 0, c_size := 0\<rparr>, b\<lparr>b_pos := q + 5\<rparr>)"
    by (intro parse_last_chunk) (simp_all add: chunked_body_def)
  with Nil.prems(6) show ?case
    by (simp add: ck_filter_buf.simps [of _ rb b] chunked_body_def body_size_def)
next
  case (Cons c cs)
  obtain hs d where c: "c = (hs, d)" by fastforce
  let ?v = "q + length hs + 2" let ?q' = "?v + length d + 2"
  have ok: "xdigits hs" "hex_val hs = length d" "d \<noteq> []" using Cons.prems(4) by (simp_all add: c chunk_ok_def)
  have at: "mem_at (b_mem b) q (hs @ [CR, LF])" "mem_at (b_mem b) ?v d"
    "mem_at (b_mem b) (?v + length d) [CR, LF]" "mem_at (b_mem b) ?q' (chunked_body cs)"
    using Cons.prems(2) by (simp_all add: c chunked_body_def chunk_bytes_def ac_simps)
  have len: "q + length (chunked_body (c # cs)) = ?q' + length (chunked_body cs)"
    by (simp add: c chunked_body_def chunk_bytes_def)
  have size: "body_size (c # cs) = length d + body_size cs" by (simp add: c body_size_def)
  let ?ctx = "\<lambda>sz. \<lparr>c_state = ck_code ck_sw_chunk_data, c_size = sz, c_length = of_nat (length d + 4)\<rparr>"
  let ?b2 = "b\<lparr>b_pos := ?v + length d\<rparr>"
  let ?rb2 = "rb\<lparr>rb_chunked := ?ctx 0, rb_content_length_n := of_nat (n + length d)\<rparr>"
  have parse: "ngx_http_parse_chunked (rb_chunked rb) b = (NGX_OK, ?ctx (of_nat (length d)), b\<lparr>b_pos := ?v\<rparr>)"
    using parse_chunk_head [OF Cons.prems(1) at(1) ok(1)] ok Cons.prems(3,7) len size by simp
  have take: "ck_take (?ctx (of_nat (length d))) (b\<lparr>b_pos := ?v\<rparr>) = (?ctx 0, ?b2, of_nat (length d))"
    using Cons.prems(3,5) len by (subst ck_take_whole) simp_all
  have max: "\<not> ((of_nat mx :: off_t) \<noteq> 0 \<and> of_nat mx - of_nat n <s (of_nat (length d) :: off_t))"
  proof (cases "mx = 0")
    case False
    then have "n + length d \<le> mx" using Cons.prems(9) size by simp
    then show ?thesis
      using Cons.prems(7,8) size by (auto simp: of_nat_diff [symmetric] off_t_less simp del: of_nat_diff)
  qed simp
  have IH: "\<exists>rb'. ck_filter_buf (of_nat mx) ?rb2 ?b2 =
      (NGX_OK, rb', ?b2\<lparr>b_pos := ?q' + length (chunked_body cs)\<rparr>, map (Body_data \<circ> snd) cs @ [Body_last]) \<and>
    rb_rest rb' = 0 \<and> rb_content_length_n rb' = of_nat (n + length d + body_size cs)"
  proof (rule Cons.IH)
    show "ck_between (rb_chunked ?rb2) (b_mem ?b2) (b_pos ?b2) ?q'"
      using ck_between_after [OF at(3), of "of_nat (length d + 4)"] by simp
  qed (use Cons.prems at(4) len size in \<open>simp_all add: add.assoc\<close>)
  then obtain rb' where rb': "ck_filter_buf (of_nat mx) ?rb2 ?b2 =
      (NGX_OK, rb', ?b2\<lparr>b_pos := ?q' + length (chunked_body cs)\<rparr>, map (Body_data \<circ> snd) cs @ [Body_last])"
    "rb_rest rb' = 0" "rb_content_length_n rb' = of_nat (n + length d + body_size cs)" by blast
  have d: "mslice (b_mem b) ?v (?v + length d) = d" using at(2) by (simp add: mem_at_mslice)
  have "ck_filter_buf (of_nat mx) rb b = (NGX_OK, rb', ?b2\<lparr>b_pos := ?q' + length (chunked_body cs)\<rparr>,
      Body_data (mslice (b_mem (b\<lparr>b_pos := ?v\<rparr>)) (b_pos (b\<lparr>b_pos := ?v\<rparr>)) (b_pos ?b2)) #
        map (Body_data \<circ> snd) cs @ [Body_last])"
    using max rb'(1) by (intro ck_filter_buf_chunk [OF parse _ take]) (simp_all add: Cons.prems(6))
  with d rb'(2,3) show ?case unfolding len size by (simp add: c add.assoc)
qed

section \<open>The limit on the body\<close>

fun body_bytes :: "body_buf list \<Rightarrow> byte list" where
  "body_bytes [] = []"
| "body_bytes (Body_data d # out) = d @ body_bytes out"
| "body_bytes (Body_last # out) = body_bytes out"

lemma sint_small: "unat w < 2 ^ 63 \<Longrightarrow> sint w = int (unat w)" for w :: off_t
  using sint_of_nat_small [of "unat w"] by simp

lemma sint_nonneg: "\<not> w <s 0 \<Longrightarrow> sint w = int (unat w)" for w :: off_t
  using off_t_neg [of w] sint_small [of w] by (cases "2 ^ 63 \<le> unat w") auto

lemma ck_take_count:
  assumes "ck_take ctx b = (ctx', b', n)" "\<not> c_size ctx <s 0" "b_pos b \<le> b_last b" "b_last b - b_pos b < 2 ^ 62"
  shows "b' = b\<lparr>b_pos := b_pos b + unat n\<rparr> \<and> b_pos b + unat n \<le> b_last b \<and> unat n \<le> unat (c_size ctx)"
proof -
  let ?k = "b_last b - b_pos b"
  have k: "unat (of_nat ?k :: off_t) = ?k" "sint (of_nat ?k :: off_t) = int ?k"
    using assms(4) by (simp_all add: unat_of_nat_small)
  show ?thesis
  proof (cases "c_size ctx <s of_nat ?k")
    case True
    then have "unat (c_size ctx) < ?k"
      unfolding word_sless_alt k(2) sint_nonneg [OF assms(2)] of_nat_less_iff .
    with True assms(1) show ?thesis by (auto simp: ck_take_def Let_def)
  next
    case False
    then have "?k \<le> unat (c_size ctx)"
      unfolding word_sless_alt k(2) sint_nonneg [OF assms(2)] of_nat_less_iff not_less .
    with False assms(1,3) k(1) show ?thesis by (auto simp: ck_take_def Let_def)
  qed
qed

lemma limit_step:
  fixes mx cl sz n :: off_t
  assumes "\<not> mx - cl <s sz" "\<not> sz <s 0" "unat n \<le> unat sz" "unat cl \<le> unat mx" "unat mx < 2 ^ 62"
  shows "unat cl + unat n \<le> unat mx"
proof -
  have u: "unat (mx - cl) = unat mx - unat cl" using assms(4) by (simp add: unat_sub word_le_nat_alt)
  have s: "sint (mx - cl) = int (unat mx - unat cl)"
    unfolding u [symmetric] using assms(5) u by (intro sint_small) simp
  have "unat sz \<le> unat mx - unat cl"
    using assms(1) unfolding word_sless_alt s sint_nonneg [OF assms(2)] of_nat_less_iff not_less .
  with assms(3,4) show ?thesis by simp
qed

lemma ck_filter_count:
  assumes "ck_filter_buf mx rb b = (rc, rb', b', out)" "b_pos b \<le> b_last b"
    and "unat (rb_content_length_n rb) + (b_last b - b_pos b) < 2 ^ 62"
  shows "unat (rb_content_length_n rb') = unat (rb_content_length_n rb) + length (body_bytes out) \<and>
    (mx \<noteq> 0 \<and> unat mx < 2 ^ 62 \<and> unat (rb_content_length_n rb) \<le> unat mx \<longrightarrow>
      unat (rb_content_length_n rb') \<le> unat mx)"
  using assms
proof (induction mx rb b arbitrary: rc rb' b' out rule: ck_filter_buf.induct)
  case (1 mx rb b)
  let ?cl = "rb_content_length_n rb"
  obtain rc1 ctx1 b1 where p: "ngx_http_parse_chunked (rb_chunked rb) b = (rc1, ctx1, b1)" by (metis prod_cases3)
  show ?case
  proof (cases "rc1 = NGX_OK \<and> \<not> (mx \<noteq> 0 \<and> mx - ?cl <s c_size ctx1)")
    case False
    with 1(2) p show ?thesis by (auto simp: ck_filter_buf.simps [of mx rb b] Let_def split: if_splits)
  next
    case True
    then have rc1: "rc1 = NGX_OK" and lim: "\<not> (mx \<noteq> 0 \<and> mx - ?cl <s c_size ctx1)" by auto
    obtain ctx2 b2 n where t: "ck_take ctx1 b1 = (ctx2, b2, n)" by (metis prod_cases3)
    let ?rb2 = "rb\<lparr>rb_chunked := ctx2, rb_content_length_n := ?cl + n\<rparr>"
    obtain rc3 rb3 b3 out3 where r: "ck_filter_buf mx ?rb2 b2 = (rc3, rb3, b3, out3)" by (metis prod_cases4)
    have b1: "b1 = b\<lparr>b_pos := b_pos b1\<rparr>" "b_pos b \<le> b_pos b1" "b_pos b1 < b_last b" "\<not> c_size ctx1 <s 0"
      using chunked_okD [OF p [unfolded rc1]] by blast+
    have last: "b_last b1 = b_last b" by (subst b1(1)) simp
    have c: "b2 = b1\<lparr>b_pos := b_pos b1 + unat n\<rparr>" "b_pos b1 + unat n \<le> b_last b" "unat n \<le> unat (c_size ctx1)"
      using ck_take_count [OF t b1(4)] b1(2,3) last 1(4) by auto
    have sum: "unat (?cl + n) = unat ?cl + unat n"
      using c(2) b1(2) 1(4) by (simp add: unat_word_ariths(1))
    have IH: "unat (rb_content_length_n rb3) = unat (rb_content_length_n ?rb2) + length (body_bytes out3) \<and>
      (mx \<noteq> 0 \<and> unat mx < 2 ^ 62 \<and> unat (rb_content_length_n ?rb2) \<le> unat mx \<longrightarrow>
        unat (rb_content_length_n rb3) \<le> unat mx)"
    proof -
      have "b_pos b2 \<le> b_last b2" "unat (?cl + n) + (b_last b2 - b_pos b2) < 2 ^ 62"
        using c last sum b1(2) 1(4) by simp_all
      with "1.IH" [OF p [symmetric] refl refl rc1 _ t [symmetric] refl, of rc3 rb3 b3 out3] lim r
      show ?thesis by auto
    qed
    have "rb' = rb3" "out = Body_data (mslice (b_mem b1) (b_pos b1) (b_pos b2)) # out3"
      using ck_filter_buf_chunk [OF p [unfolded rc1] lim t r] 1(2) by simp_all
    with IH sum limit_step [of mx ?cl "c_size ctx1" n] lim b1(4) c show ?thesis by auto
  qed
qed

section \<open>Properties\<close>

definition ck_ctx0 :: ngx_http_chunked_t where
  "ck_ctx0 = \<lparr>c_state = 0, c_size = 0, c_length = 0\<rparr>"

definition rb0 :: ngx_http_request_body_t where
  "rb0 = \<lparr>rb_rest = - 1, rb_chunked = ck_ctx0, rb_content_length_n = 0\<rparr>"

text \<open>A buffer with a body of two chunks, received up to \<open>n\<close>.\<close>

definition chunked_example :: "nat \<Rightarrow> ngx_buf_t" where
  "chunked_example n =
     \<lparr>b_mem = mem_of (chunked_body [(bytes ''3'', bytes ''abc''), (bytes ''02'', bytes ''de'')]), b_pos = 0, b_last = n\<rparr>"

text \<open>
  C1. Decoding undoes encoding: for every body made of chunks whose size line is the length
  of their data in hexadecimal, the filter passes on exactly the data of the chunks, in
  order, then the last buffer, counts the bytes of the body, asks for no more bytes and
  leaves what follows the body in the buffer, as long as the body is within the limit.
\<close>

theorem chunked_roundtrip:
  assumes "mem_at (b_mem b) (b_pos b) (chunked_body cs)" "b_pos b + length (chunked_body cs) \<le> b_last b"
    and "\<forall>c\<in>set cs. chunk_ok c" "b_last b < 2 ^ 62" "rb_rest rb = - 1"
    and "mx < 2 ^ 62" "mx = 0 \<or> body_size cs \<le> mx"
  shows "\<exists>rb'. ck_filter_buf (of_nat mx) \<lparr>rb_rest = 3, rb_chunked = ck_ctx0, rb_content_length_n = 0\<rparr> b =
      (NGX_OK, rb', b\<lparr>b_pos := b_pos b + length (chunked_body cs)\<rparr>, map (Body_data \<circ> snd) cs @ [Body_last]) \<and>
    ngx_http_request_body_chunked_filter (of_nat mx) rb [b] = (NGX_OK, rb', map (Body_data \<circ> snd) cs @ [Body_last]) \<and>
    rb_rest rb' = 0 \<and> rb_content_length_n rb' = of_nat (body_size cs)"
proof -
  have "body_size cs \<le> length (chunked_body cs)"
    by (induction cs) (auto simp: body_size_def chunked_body_def chunk_bytes_def)
  then have small: "0 + body_size cs < 2 ^ 62" using assms(2,4) by linarith
  let ?rb = "\<lparr>rb_rest = 3, rb_chunked = ck_ctx0, rb_content_length_n = 0\<rparr>"
  have "\<exists>rb'. ck_filter_buf (of_nat mx) ?rb b =
      (NGX_OK, rb', b\<lparr>b_pos := b_pos b + length (chunked_body cs)\<rparr>, map (Body_data \<circ> snd) cs @ [Body_last]) \<and>
    rb_rest rb' = 0 \<and> rb_content_length_n rb' = of_nat (0 + body_size cs)"
    using assms(7) by (intro ck_filter_body [OF _ assms(1-4) _ small assms(6)])
      (simp_all add: ck_between_start ck_ctx0_def)
  then show ?thesis
    using assms(5) by (auto simp: ngx_http_request_body_chunked_filter_def ck_ctx0_def)
qed

theorem chunked_roundtrip_witness:
  "\<exists>rb'. ngx_http_request_body_chunked_filter 5 rb0 [chunked_example 22] =
      (NGX_OK, rb', [Body_data (bytes ''abc''), Body_data (bytes ''de''), Body_last]) \<and>
    rb_rest rb' = 0 \<and> rb_content_length_n rb' = 5"
proof -
  let ?cs = "[(bytes ''3'', bytes ''abc''), (bytes ''02'', bytes ''de'')]"
  have len: "length (chunked_body ?cs) = 21" by (simp add: chunked_body_def chunk_bytes_def bytes_def)
  have at: "mem_at (b_mem (chunked_example 22)) (b_pos (chunked_example 22)) (chunked_body ?cs)"
    by (simp add: chunked_example_def mem_at_mem_of)
  have ok: "\<forall>c\<in>set ?cs. chunk_ok c" "body_size ?cs = 5"
    by (simp_all add: chunk_ok_def xdigits_def is_xdigit_def hex_val_def xdigit_def bytes_def body_size_def)
  have "rb_rest rb0 = - 1" by (simp add: rb0_def)
  from chunked_roundtrip [OF at _ ok(1) _ this, of 5] show ?thesis
    by (auto simp: len ok(2) chunked_example_def)
qed

text \<open>
  C22. The chunk size is exact or refused: for digits whose value is below $2^{62}$ the size is
  that value; for a value from $2^{63}$ up to $2^{64}$ the parser returns an error.
\<close>

theorem chunk_size_exact:
  assumes "mem_at (b_mem b) (b_pos b) (hs @ [CR, LF])" "xdigits hs"
    and "b_pos b + length hs + 2 < b_last b" "c_state ctx = 0" "0 < hex_val hs"
  shows "(hex_val hs < 2 ^ 62 \<longrightarrow> (\<exists>ctx'. ngx_http_parse_chunked ctx b =
        (NGX_OK, ctx', b\<lparr>b_pos := b_pos b + length hs + 2\<rparr>) \<and> unat (c_size ctx') = hex_val hs)) \<and>
    (2 ^ 63 \<le> hex_val hs \<and> hex_val hs < 2 ^ 64 \<longrightarrow> fst (ngx_http_parse_chunked ctx b) = NGX_ERROR)"
proof (intro conjI impI)
  have ctx: "ctx = \<lparr>c_state = 0, c_size = c_size ctx, c_length = c_length ctx\<rparr>" using assms(4) by simp
  have btw: "ck_between ctx (b_mem b) (b_pos b) (b_pos b)" by (subst ctx) (rule ck_between_start)
  assume "hex_val hs < 2 ^ 62"
  with parse_chunk_head [OF btw assms(1,2,5) _ assms(3)] show "\<exists>ctx'. ngx_http_parse_chunked ctx b =
      (NGX_OK, ctx', b\<lparr>b_pos := b_pos b + length hs + 2\<rparr>) \<and> unat (c_size ctx') = hex_val hs"
    by (simp add: unat_of_nat_small)
next
  assume big: "2 ^ 63 \<le> hex_val hs \<and> hex_val hs < 2 ^ 64"
  let ?w = "of_nat (hex_val hs) :: off_t" and ?p = "b_pos b + length hs + 2"
  have u: "unat ?w = hex_val hs" using big by (intro unat_of_nat_small) simp
  then have nz: "?w \<noteq> 0" using big by auto
  have neg: "?w <s 0" using big u by (intro off_t_neg) simp
  have load: "ck_load ctx = Some ck_sw_chunk_start" using assms(4) by (simp add: ck_load_def ck_decode_def ck_enum_def)
  have "scan ck_step (b_mem b) (b_last b) (b_pos b) (ck_sw_chunk_start, c_size ctx) =
      scan ck_step (b_mem b) (b_last b) ?p (ck_sw_chunk_data, ?w)"
    using assms(3) by (intro scan_chunk_head [OF assms(1,2) _ nz]) simp
  also have "\<dots> = Exited Ck_data ?p (ck_sw_chunk_data, ?w)"
    using assms(3) by (intro scan_Exit) (simp_all add: ck_step.simps)
  finally show "fst (ngx_http_parse_chunked ctx b) = NGX_ERROR"
    using neg load by (simp add: ngx_http_parse_chunked_def ck_data_def Let_def)
qed

theorem chunk_size_exact_witness:
  "\<exists>ctx'. ngx_http_parse_chunked ck_ctx0 (chunked_example 22) =
     (NGX_OK, ctx', (chunked_example 22)\<lparr>b_pos := 3\<rparr>) \<and> unat (c_size ctx') = 3"
proof -
  let ?b = "chunked_example 22" and ?hs = "bytes ''3''"
  have at: "mem_at (b_mem ?b) (b_pos ?b) (?hs @ [CR, LF])"
    by (simp add: chunked_example_def chunked_body_def chunk_bytes_def bytes_def mem_of_def)
  have hs: "xdigits ?hs" "hex_val ?hs = 3" "length ?hs = 1"
    by (simp_all add: bytes_def xdigits_def is_xdigit_def hex_val_def xdigit_def)
  have "b_pos ?b = 0" "b_last ?b = 22" "c_state ck_ctx0 = 0" by (simp_all add: chunked_example_def ck_ctx0_def)
  with chunk_size_exact [OF at hs(1), of ck_ctx0] hs(2,3) show ?thesis by (simp add: numeral_3_eq_3)
qed

text \<open>
  C32. A chunked body may arrive in pieces: a call that returns \<open>NGX_AGAIN\<close>, continued when
  more bytes are there, returns what the call on all the bytes returns, with the same
  position, state and size (the amount of data still wanted is the same but after the end
  of the body, where it is not set).
\<close>

theorem chunked_resume:
  assumes "ck_wf ctx" "ngx_http_parse_chunked ctx b = (NGX_AGAIN, ctx', b')"
    and "b_last b \<le> n" "\<And>i. i < b_last b \<Longrightarrow> m i = b_mem b i"
    and "ngx_http_parse_chunked ctx (b\<lparr>b_mem := m, b_last := n\<rparr>) = (rc1, ctx1, b1)"
    and "ngx_http_parse_chunked ctx' (b'\<lparr>b_mem := m, b_last := n\<rparr>) = (rc2, ctx2, b2)"
  shows "rc1 = rc2 \<and> (rc1 \<noteq> NGX_ERROR \<longrightarrow> b1 = b2 \<and> c_state ctx1 = c_state ctx2 \<and> c_size ctx1 = c_size ctx2) \<and>
    (rc1 \<in> {NGX_OK, NGX_AGAIN} \<longrightarrow> ctx1 = ctx2)"
proof -
  obtain st where l: "ck_load ctx = Some st" and inv: "ck_inv (b_mem b) (b_pos b) (st, c_size ctx)"
    using ck_wf_load [OF assms(1)] by blast
  obtain q st' sz where
    ag: "scan ck_step (b_mem b) (b_last b) (b_pos b) (st, c_size ctx) = Again q (st', sz)"
    and fin: "ck_data NGX_AGAIN q st' sz b = (NGX_AGAIN, ctx', b')"
    using assms(2) l
    by (auto simp: ngx_http_parse_chunked_def ck_data_def Let_def
        split: outcome.splits prod.splits ck_exit.splits if_splits)
  note f = ck_data_rc [OF fin]
  have "ck_inv (b_mem b) q (st', sz)" using cki.scan_inv_Again [OF inv ag] .
  then have l': "ck_load ctx' = Some st'" using f by (auto simp: ck_load_def)
  have "scan ck_step m n (b_pos b) (st, c_size ctx) = scan ck_step m n q (st', sz)"
    using ck.scan_resume_mem [OF assms(3), of "b_mem b" m "b_pos b" "(st, c_size ctx)"] assms(4) ag by simp
  then show ?thesis
    using assms(5,6) l l' f
    by (cases "scan ck_step m n q (st', sz)")
      (auto simp: ngx_http_parse_chunked_def ck_data_def Let_def split: prod.splits ck_exit.splits if_splits)
qed

theorem chunked_resume_witness:
  "let p = ngx_http_parse_chunked; (rc, ctx, b) = p ck_ctx0 (chunked_example 2);
       (rc1, ctx1, b1) = p ck_ctx0 (chunked_example 22);
       (rc2, ctx2, b2) = p ctx (b\<lparr>b_mem := b_mem (chunked_example 22), b_last := 22\<rparr>)
   in rc = NGX_AGAIN \<and> rc1 = NGX_OK \<and> rc2 = NGX_OK \<and> ctx1 = ctx2 \<and> b1 = b2"
proof -
  let ?p = ngx_http_parse_chunked
  obtain rc ctx b where 0: "?p ck_ctx0 (chunked_example 2) = (rc, ctx, b)" by (metis prod_cases3)
  obtain rc1 ctx1 b1 where 1: "?p ck_ctx0 (chunked_example 22) = (rc1, ctx1, b1)" by (metis prod_cases3)
  let ?b = "b\<lparr>b_mem := b_mem (chunked_example 22), b_last := 22\<rparr>"
  obtain rc2 ctx2 b2 where 2: "?p ctx ?b = (rc2, ctx2, b2)" by (metis prod_cases3)
  have "fst (?p ck_ctx0 (chunked_example 2)) = NGX_AGAIN" by code_simp
  with 0 have rc: "rc = NGX_AGAIN" by simp
  have "fst (?p ck_ctx0 (chunked_example 22)) = NGX_OK" by code_simp
  with 1 have rc1: "rc1 = NGX_OK" by simp
  have "(chunked_example 2)\<lparr>b_mem := b_mem (chunked_example 22), b_last := 22\<rparr> = chunked_example 22"
    by (simp add: chunked_example_def)
  with 1 have w1: "?p ck_ctx0 ((chunked_example 2)\<lparr>b_mem := b_mem (chunked_example 22),
      b_last := 22\<rparr>) = (rc1, ctx1, b1)" by simp
  have wf: "ck_wf ck_ctx0" by (simp add: ck_wf_def ck_ctx0_def ck_enum_def)
  have "rc1 = rc2 \<and> (rc1 \<noteq> NGX_ERROR \<longrightarrow> b1 = b2 \<and> c_state ctx1 = c_state ctx2 \<and> c_size ctx1 = c_size ctx2) \<and>
    (rc1 \<in> {NGX_OK, NGX_AGAIN} \<longrightarrow> ctx1 = ctx2)"
    by (rule chunked_resume [OF wf 0 [unfolded rc] _ _ w1 2]) (simp_all add: chunked_example_def)
  then show ?thesis by (simp add: 0 1 2 rc rc1 Let_def)
qed

text \<open>
  C21. The filter counts the body exactly and keeps it within \<open>client_max_body_size\<close>: the
  content length grows by the number of bytes passed on, and with a limit it never passes
  the limit, whatever the client sends.
\<close>

theorem chunked_limit:
  assumes "ck_filter_buf mx rb b = (rc, rb', b', out)" "b_pos b \<le> b_last b"
    and "unat (rb_content_length_n rb) + (b_last b - b_pos b) < 2 ^ 62"
  shows "unat (rb_content_length_n rb') = unat (rb_content_length_n rb) + length (body_bytes out) \<and>
    (mx \<noteq> 0 \<and> unat mx < 2 ^ 62 \<and> unat (rb_content_length_n rb) \<le> unat mx \<longrightarrow>
      unat (rb_content_length_n rb') \<le> unat mx)"
  using assms by (rule ck_filter_count)

theorem chunked_limit_witness:
  "case ck_filter_buf 4 \<lparr>rb_rest = 3, rb_chunked = ck_ctx0, rb_content_length_n = 0\<rparr> (chunked_example 22) of
     (rc, rb', b', out) \<Rightarrow> rc = NGX_HTTP_REQUEST_ENTITY_TOO_LARGE \<and>
       unat (rb_content_length_n rb') = length (body_bytes out) \<and> unat (rb_content_length_n rb') \<le> 4"
proof -
  let ?x = "ck_filter_buf 4 \<lparr>rb_rest = 3, rb_chunked = ck_ctx0, rb_content_length_n = 0\<rparr> (chunked_example 22)"
  obtain rc rb' b' out where x: "?x = (rc, rb', b', out)" by (metis prod_cases4)
  have "fst ?x = NGX_HTTP_REQUEST_ENTITY_TOO_LARGE" by code_simp
  with x chunked_limit [OF x] show ?thesis by (simp add: chunked_example_def)
qed



end
