(* ===== verification/Http_Uri.thy ===== *)
theory Http_Uri
  imports Http_Request Digits
begin

text \<open>
  The URI of a request: \<open>ngx_http_parse_uri\<close> and \<open>ngx_http_parse_complex_uri\<close> of
  \<open>src/http/ngx_http_parse.c\<close>, and \<open>ngx_http_process_request_uri\<close> of \<open>ngx_http_request.c\<close>,
  which uses the second one only for URIs the first pass has marked. The branches for
  Windows are not compiled in.
\<close>

section \<open>Checking a URI\<close>

datatype pu_state = pu_sw_start | pu_sw_after_slash_in_uri | pu_sw_check_uri | pu_sw_uri

type_synonym pu_action = "(ngx_rc, pu_state \<times> ngx_http_request_t) action"

definition pu_start :: "mem \<Rightarrow> nat \<Rightarrow> ngx_http_request_t \<Rightarrow> pu_action" where
  "pu_start m p r =
    (if m p \<noteq> c_slash then Exit NGX_ERROR (pu_sw_start, r) else Next (pu_sw_after_slash_in_uri, r))"

definition pu_after_slash_in_uri :: "mem \<Rightarrow> nat \<Rightarrow> ngx_http_request_t \<Rightarrow> pu_action" where
  "pu_after_slash_in_uri m p r =
    (let ch = m p in
     if usual ch then Next (pu_sw_check_uri, r)
     else if ch = c_sp then Next (pu_sw_check_uri, r\<lparr>r_space_in_uri := True\<rparr>)
     else if ch = c_dot then Next (pu_sw_uri, r\<lparr>r_complex_uri := True\<rparr>)
     else if ch = c_percent then Next (pu_sw_uri, r\<lparr>r_quoted_uri := True\<rparr>)
     else if ch = c_slash then Next (pu_sw_uri, r\<lparr>r_complex_uri := True\<rparr>)
     else if ch = c_quest then Next (pu_sw_uri, r\<lparr>r_args_start := Some (p + 1)\<rparr>)
     else if ch = c_hash then Next (pu_sw_uri, r\<lparr>r_complex_uri := True\<rparr>)
     else if ch = c_plus then Next (pu_sw_after_slash_in_uri, r\<lparr>r_plus_in_uri := True\<rparr>)
     else Next (pu_sw_check_uri, r))"

definition pu_check_uri :: "mem \<Rightarrow> nat \<Rightarrow> ngx_http_request_t \<Rightarrow> pu_action" where
  "pu_check_uri m p r =
    (let ch = m p in
     if usual ch then Next (pu_sw_check_uri, r)
     else if ch = c_slash then Next (pu_sw_after_slash_in_uri, r\<lparr>r_uri_ext := None\<rparr>)
     else if ch = c_dot then Next (pu_sw_check_uri, r\<lparr>r_uri_ext := Some (p + 1)\<rparr>)
     else if ch = c_sp then Next (pu_sw_check_uri, r\<lparr>r_space_in_uri := True\<rparr>)
     else if ch = c_percent then Next (pu_sw_uri, r\<lparr>r_quoted_uri := True\<rparr>)
     else if ch = c_quest then Next (pu_sw_uri, r\<lparr>r_args_start := Some (p + 1)\<rparr>)
     else if ch = c_hash then Next (pu_sw_uri, r\<lparr>r_complex_uri := True\<rparr>)
     else if ch = c_plus then Next (pu_sw_check_uri, r\<lparr>r_plus_in_uri := True\<rparr>)
     else Next (pu_sw_check_uri, r))"

definition pu_uri :: "mem \<Rightarrow> nat \<Rightarrow> ngx_http_request_t \<Rightarrow> pu_action" where
  "pu_uri m p r =
    (let ch = m p in
     if usual ch then Next (pu_sw_uri, r)
     else if ch = c_sp then Next (pu_sw_uri, r\<lparr>r_space_in_uri := True\<rparr>)
     else if ch = c_hash then Next (pu_sw_uri, r\<lparr>r_complex_uri := True\<rparr>)
     else Next (pu_sw_uri, r))"

fun pu_step :: "mem \<Rightarrow> nat \<Rightarrow> pu_state \<times> ngx_http_request_t \<Rightarrow> pu_action" where
  "pu_step m p (st, r) =
    (case st of
       pu_sw_start \<Rightarrow> pu_start m p r
     | pu_sw_after_slash_in_uri \<Rightarrow> pu_after_slash_in_uri m p r
     | pu_sw_check_uri \<Rightarrow> pu_check_uri m p r
     | pu_sw_uri \<Rightarrow> pu_uri m p r)"

declare pu_step.simps [simp del]

text \<open>\<open>uri_start\<close> and \<open>uri_end\<close> are set when the function is called.\<close>

definition ngx_http_parse_uri :: "mem \<Rightarrow> ngx_http_request_t \<Rightarrow> ngx_rc \<times> ngx_http_request_t" where
  "ngx_http_parse_uri m r =
    (case (r_uri_start r, r_uri_end r) of
       (Some a, Some b) \<Rightarrow>
         (case scan pu_step m b a (pu_sw_start, r) of
            Again p (st, r') \<Rightarrow> (NGX_OK, r')
          | Exited rc p (st, r') \<Rightarrow> (rc, r'))
     | _ \<Rightarrow> (NGX_OK, r))"

section \<open>Normalising a URI\<close>

datatype cu_state = cu_sw_usual | cu_sw_slash | cu_sw_dot | cu_sw_dot_dot | cu_sw_quoted | cu_sw_quoted_second

text \<open>
  The local variables: \<open>state\<close>, \<open>quoted_state\<close>, \<open>decoded\<close>, the bytes written so far (\<open>u\<close>
  points behind them), and \<open>r->uri_ext\<close>, which here points into the bytes written.
\<close>

record cu_locals =
  cu_st :: cu_state
  cu_quoted :: cu_state
  cu_decoded :: byte
  cu_out :: "byte list"
  cu_ext :: "nat option"

definition cu_init :: cu_locals where
  "cu_init = \<lparr>cu_st = cu_sw_usual, cu_quoted = cu_sw_usual, cu_decoded = 0, cu_out = [], cu_ext = None\<rparr>"

datatype cu_exit = Cu_done | Cu_args | Cu_invalid

type_synonym cu_action = "(cu_exit, cu_locals \<times> ngx_http_request_t) action"

abbreviation cu_put :: "byte \<Rightarrow> cu_locals \<Rightarrow> cu_locals" where
  "cu_put ch l \<equiv> l\<lparr>cu_out := cu_out l @ [ch]\<rparr>"

definition cu_usual :: "byte \<Rightarrow> nat \<Rightarrow> cu_locals \<Rightarrow> ngx_http_request_t \<Rightarrow> cu_action" where
  "cu_usual ch p l r =
    (if usual ch then Next (cu_put ch l, r)
     else if ch = c_slash then Next (cu_put ch l\<lparr>cu_ext := None, cu_st := cu_sw_slash\<rparr>, r)
     else if ch = c_percent then Next (l\<lparr>cu_quoted := cu_st l, cu_st := cu_sw_quoted\<rparr>, r)
     else if ch = c_quest then Exit Cu_args (l, r\<lparr>r_args_start := Some (p + 1)\<rparr>)
     else if ch = c_hash then Exit Cu_done (l, r)
     else if ch = c_dot then Next (cu_put ch l\<lparr>cu_ext := Some (length (cu_out l) + 1)\<rparr>, r)
     else if ch = c_plus then Next (cu_put ch l, r\<lparr>r_plus_in_uri := True\<rparr>)
     else Next (cu_put ch l, r))"

definition cu_slash :: "bool \<Rightarrow> byte \<Rightarrow> nat \<Rightarrow> cu_locals \<Rightarrow> ngx_http_request_t \<Rightarrow> cu_action" where
  "cu_slash merge_slashes ch p l r =
    (if usual ch then Next (cu_put ch l\<lparr>cu_st := cu_sw_usual\<rparr>, r)
     else if ch = c_slash then Next (if merge_slashes then l else cu_put ch l, r)
     else if ch = c_dot then Next (cu_put ch l\<lparr>cu_st := cu_sw_dot\<rparr>, r)
     else if ch = c_percent then Next (l\<lparr>cu_quoted := cu_st l, cu_st := cu_sw_quoted\<rparr>, r)
     else if ch = c_quest then Exit Cu_args (l, r\<lparr>r_args_start := Some (p + 1)\<rparr>)
     else if ch = c_hash then Exit Cu_done (l, r)
     else if ch = c_plus then Next (cu_put ch l\<lparr>cu_st := cu_sw_usual\<rparr>, r\<lparr>r_plus_in_uri := True\<rparr>)
     else Next (cu_put ch l\<lparr>cu_st := cu_sw_usual\<rparr>, r))"

definition cu_dot :: "byte \<Rightarrow> nat \<Rightarrow> cu_locals \<Rightarrow> ngx_http_request_t \<Rightarrow> cu_action" where
  "cu_dot ch p l r =
    (if usual ch then Next (cu_put ch l\<lparr>cu_st := cu_sw_usual\<rparr>, r)
     else if ch = c_slash then Next (l\<lparr>cu_out := butlast (cu_out l), cu_st := cu_sw_slash\<rparr>, r)
     else if ch = c_dot then Next (cu_put ch l\<lparr>cu_st := cu_sw_dot_dot\<rparr>, r)
     else if ch = c_percent then Next (l\<lparr>cu_quoted := cu_st l, cu_st := cu_sw_quoted\<rparr>, r)
     else if ch = c_quest then Exit Cu_args (l, r\<lparr>r_args_start := Some (p + 1)\<rparr>)
     else if ch = c_hash then Exit Cu_done (l, r)
     else if ch = c_plus then Next (cu_put ch l\<lparr>cu_st := cu_sw_usual\<rparr>, r\<lparr>r_plus_in_uri := True\<rparr>)
     else Next (cu_put ch l\<lparr>cu_st := cu_sw_usual\<rparr>, r))"

text \<open>
  \<open>for ( ;; ) { if (u < r->uri.data) return ...; if (*u == '/') { u++; break; } u--; }\<close>:
  \<open>cu_back out n\<close> is the loop for \<open>u\<close> at the index \<open>n - 1\<close>; what remains written is returned.
\<close>

fun cu_back :: "byte list \<Rightarrow> nat \<Rightarrow> byte list option" where
  "cu_back out 0 = None"
| "cu_back out (Suc n) = (if out ! n = c_slash then Some (take (Suc n) out) else cu_back out n)"

definition cu_dot_dot :: "byte \<Rightarrow> nat \<Rightarrow> cu_locals \<Rightarrow> ngx_http_request_t \<Rightarrow> cu_action" where
  "cu_dot_dot ch p l r =
    (if usual ch then Next (cu_put ch l\<lparr>cu_st := cu_sw_usual\<rparr>, r)
     else if ch = c_slash
     then (case cu_back (cu_out l) (length (cu_out l) - 4) of
             None \<Rightarrow> Exit Cu_invalid (l\<lparr>cu_st := cu_sw_slash\<rparr>, r)
           | Some out \<Rightarrow> Next (l\<lparr>cu_out := out, cu_st := cu_sw_slash\<rparr>, r))
     else if ch = c_percent then Next (l\<lparr>cu_quoted := cu_st l, cu_st := cu_sw_quoted\<rparr>, r)
     else if ch = c_quest then Exit Cu_args (l, r\<lparr>r_args_start := Some (p + 1)\<rparr>)
     else if ch = c_hash then Exit Cu_done (l, r)
     else if ch = c_plus then Next (cu_put ch l\<lparr>cu_st := cu_sw_usual\<rparr>, r\<lparr>r_plus_in_uri := True\<rparr>)
     else Next (cu_put ch l\<lparr>cu_st := cu_sw_usual\<rparr>, r))"

text \<open>The four states that look at a byte of the path, raw or decoded.\<close>

definition cu_path :: "bool \<Rightarrow> byte \<Rightarrow> nat \<Rightarrow> cu_locals \<Rightarrow> ngx_http_request_t \<Rightarrow> cu_action" where
  "cu_path merge_slashes ch p l r =
    (case cu_st l of
       cu_sw_slash \<Rightarrow> cu_slash merge_slashes ch p l r
     | cu_sw_dot \<Rightarrow> cu_dot ch p l r
     | cu_sw_dot_dot \<Rightarrow> cu_dot_dot ch p l r
     | _ \<Rightarrow> cu_usual ch p l r)"

definition cu_quoted_first :: "byte \<Rightarrow> cu_locals \<Rightarrow> ngx_http_request_t \<Rightarrow> cu_action" where
  "cu_quoted_first ch l r =
    (let r = r\<lparr>r_quoted_uri := True\<rparr>; c = lower_bit ch in
     if ch \<ge> c_0 \<and> ch \<le> c_9 then Next (l\<lparr>cu_decoded := ch - c_0, cu_st := cu_sw_quoted_second\<rparr>, r)
     else if c \<ge> c_a \<and> c \<le> c_f then Next (l\<lparr>cu_decoded := c - c_a + 10, cu_st := cu_sw_quoted_second\<rparr>, r)
     else Exit Cu_invalid (l, r))"

text \<open>
  The second digit. The decoded byte is looked at by the state the \<open>%\<close> was met in, without
  reading another byte, but for \<open>%\<close>, \<open>#\<close> and \<open>?\<close>, which are taken literally.
\<close>

definition cu_quoted_second :: "bool \<Rightarrow> byte \<Rightarrow> nat \<Rightarrow> cu_locals \<Rightarrow> ngx_http_request_t \<Rightarrow> cu_action" where
  "cu_quoted_second merge_slashes ch p l r =
    (let c = lower_bit ch in
     if ch \<ge> c_0 \<and> ch \<le> c_9
     then
       let ch = push_bit 4 (cu_decoded l) + ch - c_0 in
       if ch = c_percent \<or> ch = c_hash then Next (cu_put ch l\<lparr>cu_st := cu_sw_usual\<rparr>, r)
       else if ch = NUL then Exit Cu_invalid (l, r)
       else cu_path merge_slashes ch p (l\<lparr>cu_st := cu_quoted l\<rparr>) r
     else if c \<ge> c_a \<and> c \<le> c_f
     then
       let ch = push_bit 4 (cu_decoded l) + c - c_a + 10 in
       if ch = c_quest then Next (cu_put ch l\<lparr>cu_st := cu_sw_usual\<rparr>, r)
       else if ch = c_plus then cu_path merge_slashes ch p (l\<lparr>cu_st := cu_quoted l\<rparr>) (r\<lparr>r_plus_in_uri := True\<rparr>)
       else cu_path merge_slashes ch p (l\<lparr>cu_st := cu_quoted l\<rparr>) r
     else Exit Cu_invalid (l, r))"

fun cu_step :: "bool \<Rightarrow> mem \<Rightarrow> nat \<Rightarrow> cu_locals \<times> ngx_http_request_t \<Rightarrow> cu_action" where
  "cu_step merge_slashes m p (l, r) =
    (case cu_st l of
       cu_sw_quoted \<Rightarrow> cu_quoted_first (m p) l r
     | cu_sw_quoted_second \<Rightarrow> cu_quoted_second merge_slashes (m p) p l r
     | _ \<Rightarrow> cu_path merge_slashes (m p) p l r)"

declare cu_step.simps [simp del]

text \<open>The code behind \<open>done\<close>, also the end of the code behind \<open>args\<close>.\<close>

definition cu_done :: "cu_locals \<Rightarrow> ngx_http_request_t \<Rightarrow> ngx_http_request_t" where
  "cu_done l r =
    (let r = r\<lparr>r_uri := cu_out l\<rparr>;
         r = (case cu_ext l of None \<Rightarrow> r | Some e \<Rightarrow> r\<lparr>r_exten := drop e (cu_out l)\<rparr>)
     in r\<lparr>r_uri_ext := None\<rparr>)"

definition cu_args :: "mem \<Rightarrow> nat \<Rightarrow> nat \<Rightarrow> ngx_http_request_t \<Rightarrow> ngx_http_request_t" where
  "cu_args m a b r =
    (case find_byte c_hash m a b of
       None \<Rightarrow> r
     | Some q \<Rightarrow> r\<lparr>r_args := mslice m a q, r_args_start := None\<rparr>)"

definition ngx_http_parse_complex_uri ::
  "bool \<Rightarrow> mem \<Rightarrow> ngx_http_request_t \<Rightarrow> ngx_rc \<times> ngx_http_request_t" where
  "ngx_http_parse_complex_uri merge_slashes m r =
    (case (r_uri_start r, r_uri_end r) of
       (Some a, Some b) \<Rightarrow>
         (let l = cu_init;
              r = r\<lparr>r_uri_ext := None, r_args_start := None\<rparr>
          in case scan (cu_step merge_slashes) m b a (l, r) of
               Again p (l, r) \<Rightarrow> (NGX_OK, cu_done l r)
             | Exited Cu_done p (l, r) \<Rightarrow> (NGX_OK, cu_done l r)
             | Exited Cu_args p (l, r) \<Rightarrow> (NGX_OK, cu_done l (cu_args m (p + 1) b r))
             | Exited Cu_invalid p (l, r) \<Rightarrow> (NGX_HTTP_PARSE_INVALID_REQUEST, r))
     | _ \<Rightarrow> (NGX_OK, r))"

section \<open>Setting the URI of the request\<close>

definition ngx_http_process_request_uri ::
  "bool \<Rightarrow> mem \<Rightarrow> ngx_http_request_t \<Rightarrow> ngx_rc \<times> ngx_http_request_t" where
  "ngx_http_process_request_uri merge_slashes m r =
    (case (r_uri_start r, r_uri_end r) of
       (Some a, Some b) \<Rightarrow>
         (let uri_end = (case r_args_start r of None \<Rightarrow> b | Some s \<Rightarrow> s - 1);
              (rc, r) =
                (if r_complex_uri r \<or> r_quoted_uri r then ngx_http_parse_complex_uri merge_slashes m r
                 else (NGX_OK, r\<lparr>r_uri := mslice m a uri_end\<rparr>))
          in if rc \<noteq> NGX_OK then (NGX_ERROR, r)
             else
               let r = r\<lparr>r_unparsed_uri := mslice m a b, r_valid_unparsed_uri := \<not> r_space_in_uri r\<rparr>;
                   r = (case r_uri_ext r of
                          None \<Rightarrow> r
                        | Some e \<Rightarrow>
                            r\<lparr>r_exten := mslice m e (case r_args_start r of None \<Rightarrow> b | Some s \<Rightarrow> s - 1)\<rparr>);
                   r = (case r_args_start r of
                          None \<Rightarrow> r
                        | Some s \<Rightarrow> if b > s then r\<lparr>r_args := mslice m s b\<rparr> else r)
               in (NGX_OK, r))
     | _ \<Rightarrow> (NGX_OK, r))"

lemmas cu_defs =
  cu_usual_def cu_slash_def cu_dot_def cu_dot_dot_def

section \<open>Reference: unquote, then normalise\<close>

text \<open>
  The path with its \<open>%XX\<close> decoded, up to the first \<open>?\<close> or \<open>#\<close>, and what follows a \<open>?\<close>. A
  malformed \<open>%XX\<close> and a decoded NUL are errors; a \<open>%\<close> or \<open>%X\<close> at the very end is dropped.
\<close>

fun uri_unquote :: "byte list \<Rightarrow> (byte list \<times> byte list option) option" where
  "uri_unquote [] = Some ([], None)"
| "uri_unquote (c # cs) =
    (if c = c_quest then Some ([], Some cs)
     else if c = c_hash then Some ([], None)
     else if c = c_percent
     then (case cs of
             [] \<Rightarrow> Some ([], None)
           | [h] \<Rightarrow> if is_xdigit h then Some ([], None) else None
           | h1 # h2 # cs' \<Rightarrow>
               if is_xdigit h1 \<and> is_xdigit h2 \<and> 16 * xdigit h1 + xdigit h2 \<noteq> 0
               then map_option (apfst ((#) (of_nat (16 * xdigit h1 + xdigit h2)))) (uri_unquote cs')
               else None)
     else map_option (apfst ((#) c)) (uri_unquote cs))"

text \<open>
  The path as a stack of closed segments and the segment being read. A slash closes the
  segment: \<open>.\<close> is dropped, \<open>..\<close> removes the segment before it, an empty segment is dropped
  with \<open>merge_slashes\<close>. Without it, \<open>..\<close> also removes an empty segment before it.
\<close>

definition pop_seg :: "byte list list \<Rightarrow> byte list list option" where
  "pop_seg segs =
    (if segs = [] then None
     else if last segs = [] then (if butlast segs = [] then None else Some (butlast (butlast segs)))
     else Some (butlast segs))"

definition close_seg :: "bool \<Rightarrow> byte list list \<Rightarrow> byte list \<Rightarrow> byte list list option" where
  "close_seg merge segs s =
    (if s = [] \<and> merge then Some segs
     else if s = [c_dot] then Some segs
     else if s = [c_dot, c_dot] then pop_seg segs
     else Some (segs @ [s]))"

fun norm_byte :: "bool \<Rightarrow> byte list list \<times> byte list \<Rightarrow> byte \<Rightarrow> (byte list list \<times> byte list) option" where
  "norm_byte merge (segs, s) c =
    (if c = c_slash then map_option (\<lambda>segs'. (segs', [])) (close_seg merge segs s) else Some (segs, s @ [c]))"

primrec norm_path :: "bool \<Rightarrow> byte list list \<times> byte list \<Rightarrow> byte list \<Rightarrow> (byte list list \<times> byte list) option" where
  "norm_path merge st [] = Some st"
| "norm_path merge st (c # cs) = Option.bind (norm_byte merge st c) (\<lambda>st'. norm_path merge st' cs)"

definition path_of :: "byte list list \<Rightarrow> byte list" where
  "path_of segs = concat (map (\<lambda>s. c_slash # s) segs)"

lemma path_of_simps [simp]:
  "path_of [] = []" "path_of (s # segs) = c_slash # s @ path_of segs"
  "path_of (xs @ ys) = path_of xs @ path_of ys"
  by (simp_all add: path_of_def)

section \<open>The machine follows the reference\<close>

definition seg_state :: "byte list \<Rightarrow> cu_state" where
  "seg_state s =
    (if s = [] then cu_sw_slash else if s = [c_dot] then cu_sw_dot
     else if s = [c_dot, c_dot] then cu_sw_dot_dot else cu_sw_usual)"

text \<open>
  What follows the last dot of a segment, but for the dots of a leading \<open>.\<close>, \<open>..\<close> or \<open>...\<close>.
\<close>

fun last_ext :: "byte list \<Rightarrow> nat \<Rightarrow> byte list option" where
  "last_ext s 0 = None"
| "last_ext s (Suc n) =
    (if s ! n = c_dot \<and> seg_state (take n s) = cu_sw_usual then Some (drop (Suc n) s) else last_ext s n)"

definition seg_ext :: "byte list \<Rightarrow> byte list option" where
  "seg_ext s = last_ext s (length s)"

lemma last_ext_snoc:
  "n \<le> length s \<Longrightarrow> last_ext (s @ [c]) n = map_option (\<lambda>e. e @ [c]) (last_ext s n)"
  by (induction n) (auto simp: nth_append)

lemma seg_ext_snoc [simp]:
  "seg_ext (s @ [c]) =
    (if c = c_dot \<and> seg_state s = cu_sw_usual then Some [] else map_option (\<lambda>e. e @ [c]) (seg_ext s))"
  by (simp add: seg_ext_def last_ext_snoc nth_append)

lemma seg_ext_None: "seg_state s \<noteq> cu_sw_usual \<Longrightarrow> seg_ext s = None"
  by (auto simp: seg_state_def seg_ext_def split: if_splits)

definition ext_ok :: "byte list \<Rightarrow> byte list \<Rightarrow> nat option \<Rightarrow> bool" where
  "ext_ok s out ext \<longleftrightarrow> seg_ext s = map_option (\<lambda>e. drop e out) ext \<and> (\<forall>e. ext = Some e \<longrightarrow> e \<le> length out)"

lemma ext_ok_not_usual: "ext_ok s out ext \<Longrightarrow> seg_state s \<noteq> cu_sw_usual \<Longrightarrow> ext = None"
  by (simp add: ext_ok_def seg_ext_None)

lemma ext_ok_None [simp]: "ext_ok [] out None"
  by (simp add: ext_ok_def seg_ext_def)

lemma ext_ok_put:
  "ext_ok s out ext \<Longrightarrow> \<not> (ch = c_dot \<and> seg_state s = cu_sw_usual) \<Longrightarrow> ext_ok (s @ [ch]) (out @ [ch]) ext"
  by (cases ext) (auto simp: ext_ok_def)

lemma ext_ok_new: "seg_state s = cu_sw_usual \<Longrightarrow> ext_ok (s @ [c_dot]) (out @ [c_dot]) (Some (Suc (length out)))"
  by (simp add: ext_ok_def)

text \<open>The state, the bytes written and the extension for segments \<open>segs\<close> and \<open>s\<close>.\<close>

definition cu_rel :: "byte list list \<Rightarrow> byte list \<Rightarrow> cu_locals \<Rightarrow> bool" where
  "cu_rel segs s l \<longleftrightarrow> cu_st l = seg_state s \<and> cu_out l = path_of (segs @ [s]) \<and>
     (\<forall>t\<in>set (segs @ [s]). c_slash \<notin> set t) \<and>
     ext_ok s (cu_out l) (cu_ext l)"

lemma cu_back_slash:
  "c_slash \<notin> set ys \<Longrightarrow> length xs < k \<Longrightarrow> k \<le> length xs + 1 + length ys \<Longrightarrow>
     cu_back (xs @ c_slash # ys @ zs) k = Some (xs @ [c_slash])"
proof (induction k)
  case (Suc k)
  show ?case
  proof (cases "k = length xs")
    case False
    then have k: "length xs < k" "k - length xs - 1 < length ys" using Suc.prems by auto
    then have "(xs @ c_slash # ys @ zs) ! k = ys ! (k - length xs - 1)"
      by (simp add: nth_append nth_Cons')
    moreover have "ys ! (k - length xs - 1) \<noteq> c_slash" using Suc.prems(1) k(2) nth_mem by metis
    ultimately show ?thesis using Suc k(1) by simp
  qed simp
qed simp

text \<open>The loop over \<open>u\<close> removes what \<open>pop_seg\<close> removes.\<close>

lemma cu_back_pop:
  assumes "\<forall>t\<in>set segs. c_slash \<notin> set t"
  shows "cu_back (path_of (segs @ [[c_dot, c_dot]])) (length (path_of (segs @ [[c_dot, c_dot]])) - 4) =
    map_option (\<lambda>segs. path_of (segs @ [[]])) (pop_seg segs)"
proof (cases segs rule: rev_cases)
  case Nil
  then show ?thesis by (simp add: pop_seg_def)
next
  case segs: (snoc xs t)
  show ?thesis
  proof (cases "t = []")
    case False
    then have "0 < length t" by simp
    then have "cu_back (path_of xs @ c_slash # t @ [c_slash, c_dot, c_dot])
        (length (path_of (segs @ [[c_dot, c_dot]])) - 4) = Some (path_of xs @ [c_slash])"
      using assms by (intro cu_back_slash) (auto simp: segs)
    with False show ?thesis by (simp add: segs pop_seg_def)
  next
    case True
    show ?thesis
    proof (cases xs rule: rev_cases)
      case Nil
      then show ?thesis using True by (simp add: segs pop_seg_def)
    next
      case xs: (snoc ys t')
      have "cu_back (path_of ys @ c_slash # t' @ [c_slash, c_slash, c_dot, c_dot])
          (length (path_of (segs @ [[c_dot, c_dot]])) - 4) = Some (path_of ys @ [c_slash])"
        using assms by (intro cu_back_slash) (auto simp: xs segs True)
      moreover have "pop_seg segs = Some ys" by (simp add: pop_seg_def segs xs True butlast_append)
      ultimately show ?thesis by (simp add: xs segs True)
    qed
  qed
qed

lemma seg_state_snoc [simp]:
  "seg_state (s @ [ch]) =
    (if ch = c_dot then if s = [] then cu_sw_dot else if s = [c_dot] then cu_sw_dot_dot else cu_sw_usual
     else cu_sw_usual)"
  by (cases s) (auto simp: seg_state_def)

lemma usual_special: "usual ch \<Longrightarrow> ch \<notin> {c_slash, c_percent, c_quest, c_hash, c_dot, c_plus}"
  by (auto simp: usual_iff)

lemma seg_state_usual: "seg_state s = cu_sw_usual \<Longrightarrow> seg_state (s @ [ch]) = cu_sw_usual"
  by (auto simp: seg_state_def split: if_splits)

text \<open>The fields of the request that the path does not change.\<close>

definition cu_same :: "ngx_http_request_t \<Rightarrow> ngx_http_request_t \<Rightarrow> bool" where
  "cu_same r r' \<longleftrightarrow> (\<exists>x y. r' = r\<lparr>r_quoted_uri := x, r_plus_in_uri := y\<rparr>)"

lemma cu_same_refl [simp]: "cu_same r r"
  unfolding cu_same_def by (intro exI [of _ "r_quoted_uri r"] exI [of _ "r_plus_in_uri r"]) simp

lemma cu_same_plus [simp]: "cu_same r (r\<lparr>r_plus_in_uri := x\<rparr>)"
  unfolding cu_same_def by (intro exI [of _ "r_quoted_uri r"] exI [of _ x]) simp

lemma cu_same_quoted [simp]: "cu_same r (r\<lparr>r_quoted_uri := x\<rparr>)"
  unfolding cu_same_def by (intro exI [of _ x] exI [of _ "r_plus_in_uri r"]) simp

lemma cu_same_trans: "cu_same r r' \<Longrightarrow> cu_same r' r'' \<Longrightarrow> cu_same r r''"
  unfolding cu_same_def by (elim exE) (simp, blast)

text \<open>A byte of a segment.\<close>

lemma cu_path_char:
  assumes rel: "cu_rel segs s l" and ch: "ch \<notin> {c_slash, c_percent, c_quest, c_hash}"
  shows "\<exists>l' r'. cu_path merge ch p l r = Next (l', r') \<and> cu_rel segs (s @ [ch]) l' \<and>
    cu_same r r'"
proof -
  let ?st = "seg_state s"
  have st: "cu_st l = ?st" and ext: "ext_ok s (cu_out l) (cu_ext l)" using rel by (auto simp: cu_rel_def)
  let ?l = "if ?st = cu_sw_usual then if ch = c_dot then cu_put ch l\<lparr>cu_ext := Some (Suc (length (cu_out l)))\<rparr> else cu_put ch l
    else cu_put ch l\<lparr>cu_st := seg_state (s @ [ch])\<rparr>"
  let ?r = "if ch = c_plus then r\<lparr>r_plus_in_uri := True\<rparr> else r"
  have u: "usual ch \<Longrightarrow> ch \<noteq> c_dot \<and> ch \<noteq> c_plus" using usual_special by auto
  consider "s = []" | "s = [c_dot]" | "s = [c_dot, c_dot]" | "s \<notin> {[], [c_dot], [c_dot, c_dot]}" by blast
  then have "cu_path merge ch p l r = Next (?l, ?r)"
    by cases (use ch u in \<open>simp_all add: st seg_state_def cu_path_def cu_defs\<close>)
  moreover have ext': "ext_ok (s @ [ch]) (cu_out l @ [ch]) (cu_ext ?l)"
    using ext_ok_put [OF ext, of ch] ext_ok_new [of s "cu_out l"] by auto
  have "cu_out ?l = cu_out l @ [ch]" "cu_st ?l = seg_state (s @ [ch])"
    using st seg_state_usual [of s ch] by (simp_all del: seg_state_snoc)
  then have "cu_rel segs (s @ [ch]) ?l"
    unfolding cu_rel_def using ext' rel ch by (auto simp only: cu_rel_def path_of_simps) auto
  ultimately show ?thesis by (intro exI [of _ ?l] exI [of _ ?r]) simp
qed

text \<open>A slash.\<close>

lemma cu_path_slash:
  assumes rel: "cu_rel segs s l"
  shows "case close_seg merge segs s of
      None \<Rightarrow> \<exists>l'. cu_path merge c_slash p l r = Exit Cu_invalid (l', r)
    | Some segs' \<Rightarrow> \<exists>l'. cu_path merge c_slash p l r = Next (l', r) \<and> cu_rel segs' [] l'"
proof -
  have u: "\<not> usual c_slash" by (simp add: usual_iff)
  have st: "cu_st l = seg_state s" and out: "cu_out l = path_of (segs @ [s])"
    and ns: "\<forall>t\<in>set (segs @ [s]). c_slash \<notin> set t" and ext: "ext_ok s (cu_out l) (cu_ext l)"
    using rel by (auto simp: cu_rel_def)
  have ext0: "seg_state s \<noteq> cu_sw_usual \<Longrightarrow> cu_ext l = None" using ext by (rule ext_ok_not_usual)
  consider "s = []" | "s = [c_dot]" | "s = [c_dot, c_dot]" | "s \<notin> {[], [c_dot], [c_dot, c_dot]}" by blast
  then show ?thesis
  proof cases
    case 3
    have bk: "cu_back (cu_out l) (length (cu_out l) - 4) = map_option (\<lambda>segs. path_of (segs @ [[]])) (pop_seg segs)"
      using cu_back_pop [of segs] ns unfolding out 3 by simp
    have "set segs' \<subseteq> set segs" if "pop_seg segs = Some segs'" for segs'
      using that by (auto simp: pop_seg_def split: if_splits dest: in_set_butlastD)
    with 3 bk ns ext0 u st show ?thesis
      by (cases "pop_seg segs") (auto simp: close_seg_def cu_path_def cu_dot_dot_def cu_rel_def seg_state_def)
  qed (use u st out ns ext0 in \<open>auto simp: close_seg_def cu_path_def cu_defs cu_rel_def seg_state_def butlast_append\<close>)
qed

text \<open>The bytes that end the path or start a quoted byte.\<close>

lemma cu_path_special:
  assumes "cu_rel segs s l"
  shows "cu_path merge c_percent p l r = Next (l\<lparr>cu_quoted := seg_state s, cu_st := cu_sw_quoted\<rparr>, r)"
    "cu_path merge c_quest p l r = Exit Cu_args (l, r\<lparr>r_args_start := Some (p + 1)\<rparr>)"
    "cu_path merge c_hash p l r = Exit Cu_done (l, r)"
proof -
  have st: "cu_st l = seg_state s" using assms by (simp add: cu_rel_def)
  show "cu_path merge c_percent p l r = Next (l\<lparr>cu_quoted := seg_state s, cu_st := cu_sw_quoted\<rparr>, r)"
    "cu_path merge c_quest p l r = Exit Cu_args (l, r\<lparr>r_args_start := Some (p + 1)\<rparr>)"
    "cu_path merge c_hash p l r = Exit Cu_done (l, r)"
    by (auto simp: st seg_state_def cu_path_def cu_defs usual_iff)
qed

lemma cu_quoted_first_eq:
  "cu_quoted_first ch l r =
    (if is_xdigit ch then Next (l\<lparr>cu_decoded := of_nat (xdigit ch), cu_st := cu_sw_quoted_second\<rparr>, r\<lparr>r_quoted_uri := True\<rparr>)
     else Exit Cu_invalid (l, r\<lparr>r_quoted_uri := True\<rparr>))"
  using xdigit_byte [of ch] by (auto simp: cu_quoted_first_def is_xdigit_def Let_def)

lemma unat_nibbles:
  "n < 16 \<Longrightarrow> k < 16 \<Longrightarrow> unat (of_nat (16 * n + k) :: byte) = 16 * n + k"
  by (intro unat_of_nat_small) simp

lemma cu_quoted_second_eq:
  assumes d: "cu_decoded l = of_nat n" "n < 16" and ch: "is_xdigit ch"
  defines "b \<equiv> of_nat (16 * n + xdigit ch) :: byte"
  shows "cu_quoted_second merge ch p l r =
    (if 16 * n + xdigit ch = 0 then Exit Cu_invalid (l, r)
     else if b \<in> {c_percent, c_hash, c_quest} then Next (cu_put b l\<lparr>cu_st := cu_sw_usual\<rparr>, r)
     else cu_path merge b p (l\<lparr>cu_st := cu_quoted l\<rparr>) (if b = c_plus then r\<lparr>r_plus_in_uri := True\<rparr> else r))"
proof -
  have x: "xdigit ch < 16" using ch by (rule xdigit_less)
  have u: "unat b = 16 * n + xdigit ch" unfolding b_def using d(2) x by (rule unat_nibbles)
  have eq: "b = c \<longleftrightarrow> 16 * n + xdigit ch = unat c" for c
    using u by (metis word_unat_eq_iff)
  have sh: "push_bit 4 (of_nat n :: byte) = of_nat (16 * n)" by (simp add: push_bit_eq_mult mult.commute)
  show ?thesis
  proof (cases "c_0 \<le> ch \<and> ch \<le> c_9")
    case True
    then have "ch - c_0 = of_nat (xdigit ch)" using xdigit_byte [OF ch] by simp
    then have b: "push_bit 4 (cu_decoded l) + ch - c_0 = b"
      by (simp add: d(1) sh b_def add_diff_eq [symmetric])
    have "xdigit ch \<le> 9" using True digit_unat [of ch] by (auto simp: xdigit_def)
    then have "b \<noteq> c_quest" "b \<noteq> c_plus" unfolding eq by (simp_all, presburger+)
    with True eq [of NUL] show ?thesis unfolding cu_quoted_second_def Let_def b by auto
  next
    case False
    then have low: "c_a \<le> lower_bit ch" "lower_bit ch \<le> c_f" using ch by (auto simp: is_xdigit_def)
    have "lower_bit ch - c_a + 10 = of_nat (xdigit ch)" using xdigit_byte [OF ch] False by simp
    then have b: "push_bit 4 (cu_decoded l) + lower_bit ch - c_a + 10 = b"
      by (simp add: d(1) sh b_def algebra_simps)
    have "10 \<le> xdigit ch" using low False by (auto simp: xdigit_def word_le_nat_alt)
    then have ne: "b \<noteq> c_percent" "b \<noteq> c_hash" "16 * n + xdigit ch \<noteq> 0" using x unfolding eq by (simp_all, presburger+)
    from False have f: "(c_0 \<le> ch \<and> ch \<le> c_9) = False" by simp
    show ?thesis
      unfolding cu_quoted_second_def Let_def b by (simp only: f low ne if_False if_True simp_thms insert_iff empty_iff) simp
  qed
qed

text \<open>A byte of the unquoted path.\<close>

lemma cu_path_byte:
  assumes rel: "cu_rel segs s l" and ch: "ch \<notin> {c_percent, c_quest, c_hash}"
  shows "case norm_byte merge (segs, s) ch of
      None \<Rightarrow> \<exists>l'. cu_path merge ch p l r = Exit Cu_invalid (l', r)
    | Some (segs', s') \<Rightarrow> \<exists>l' r'. cu_path merge ch p l r = Next (l', r') \<and> cu_rel segs' s' l' \<and> cu_same r r'"
proof (cases "ch = c_slash")
  case True
  show ?thesis using cu_path_slash [OF rel, of merge p r] by (cases "close_seg merge segs s") (auto simp: True)
next
  case False
  then show ?thesis using cu_path_char [OF rel, of ch merge p r] ch by auto
qed

lemma cu_step_path: "cu_rel segs s l \<Longrightarrow> cu_step merge m p (l, r) = cu_path merge (m p) p l r"
  by (auto simp: cu_rel_def seg_state_def cu_step.simps)

text \<open>What the scan of the bytes \<open>cs\<close> from the segments \<open>st\<close> on comes to.\<close>

definition cu_invalid :: "(cu_exit, cu_locals \<times> ngx_http_request_t) outcome \<Rightarrow> bool" where
  "cu_invalid res \<longleftrightarrow> (\<exists>q l r. res = Exited Cu_invalid q (l, r))"

definition cu_ends ::
  "mem \<Rightarrow> nat \<Rightarrow> ngx_http_request_t \<Rightarrow> byte list list \<times> byte list \<Rightarrow> byte list option \<Rightarrow>
    (cu_exit, cu_locals \<times> ngx_http_request_t) outcome \<Rightarrow> bool" where
  "cu_ends m b r st args res \<longleftrightarrow>
    (\<exists>q l r'. cu_same r r' \<and> cu_out l = path_of (fst st @ [snd st]) \<and> ext_ok (snd st) (cu_out l) (cu_ext l) \<and>
      (case args of
         None \<Rightarrow> res \<in> {Again q (l, r'), Exited Cu_done q (l, r')}
       | Some xs \<Rightarrow> q < b \<and> mslice m (q + 1) b = xs \<and> res = Exited Cu_args q (l, r'\<lparr>r_args_start := Some (q + 1)\<rparr>)))"

definition cu_follows ::
  "bool \<Rightarrow> mem \<Rightarrow> nat \<Rightarrow> ngx_http_request_t \<Rightarrow> byte list list \<times> byte list \<Rightarrow> (byte list \<times> byte list option) option \<Rightarrow>
    (cu_exit, cu_locals \<times> ngx_http_request_t) outcome \<Rightarrow> bool" where
  "cu_follows merge m b r st u res \<longleftrightarrow>
    (case u of
       None \<Rightarrow> cu_invalid res
     | Some (ds, args) \<Rightarrow>
         (case norm_path merge st ds of None \<Rightarrow> cu_invalid res | Some st' \<Rightarrow> cu_ends m b r st' args res))"

lemma cu_follows_simps [simp]:
  "cu_follows merge m b r st None res \<longleftrightarrow> cu_invalid res"
  "cu_follows merge m b r st (Some ([], args)) res \<longleftrightarrow> cu_ends m b r st args res"
  by (simp_all add: cu_follows_def)

lemma cu_follows_cases:
  assumes "cu_follows merge m b r st u res"
  obtains "cu_invalid res" "u = None"
    | ds args where "cu_invalid res" "u = Some (ds, args)" "norm_path merge st ds = None"
    | ds args st' where "u = Some (ds, args)" "norm_path merge st ds = Some st'" "cu_ends m b r st' args res"
proof (cases u)
  case (Some x)
  obtain ds args where "x = (ds, args)" by (cases x)
  with Some assms that show ?thesis by (cases "norm_path merge st ds") (simp_all add: cu_follows_def)
qed (use assms that in auto)

lemma cu_ends_same: "cu_same r r' \<Longrightarrow> cu_ends m b r' st args res \<Longrightarrow> cu_ends m b r st args res"
  unfolding cu_ends_def by (blast intro: cu_same_trans)

lemma cu_follows_same: "cu_same r r' \<Longrightarrow> cu_follows merge m b r' st u res \<Longrightarrow> cu_follows merge m b r st u res"
  by (auto simp: cu_follows_def split: option.splits prod.splits intro: cu_ends_same)

text \<open>A byte \<open>ch\<close> of the unquoted path goes before what the rest of the scan does.\<close>

lemma cu_follows_byte:
  assumes rel: "cu_rel segs s l" and ch: "ch \<notin> {c_percent, c_quest, c_hash}" and q: "q < b"
    and step: "cu_step merge m q x = cu_path merge ch q l r" and same: "cu_same r0 r"
    and rest: "\<And>segs' s' l' r'. cu_rel segs' s' l' \<Longrightarrow>
      cu_follows merge m b r' (segs', s') u (scan (cu_step merge) m b (Suc q) (l', r'))"
  shows "cu_follows merge m b r0 (segs, s) (map_option (apfst ((#) ch)) u) (scan (cu_step merge) m b q x)"
proof (cases "norm_byte merge (segs, s) ch")
  case None
  then have "cu_invalid (scan (cu_step merge) m b q x)"
    using cu_path_byte [OF rel ch, of merge q r] q by (auto simp: step scan_Exit cu_invalid_def)
  with None show ?thesis by (cases u) (auto simp: cu_follows_def)
next
  case (Some st)
  obtain segs' s' where st: "st = (segs', s')" by (cases st)
  obtain l' r' where "cu_path merge ch q l r = Next (l', r')" "cu_rel segs' s' l'" "cu_same r r'"
    using cu_path_byte [OF rel ch, of merge q r] Some st by auto
  then have "cu_follows merge m b r0 (segs', s') u (scan (cu_step merge) m b q x)"
    using rest [of segs' s' l' r'] q same by (auto simp: step scan_Next intro: cu_follows_same cu_same_trans)
  with Some st show ?thesis by (cases u) (auto simp: cu_follows_def)
qed

lemma cu_follows_literal:
  assumes rel: "cu_rel segs s l" and ch: "ch \<in> {c_percent, c_quest, c_hash}" and q: "q < b"
    and step: "cu_step merge m q x = Next (cu_put ch l\<lparr>cu_st := cu_sw_usual\<rparr>, r)" and same: "cu_same r0 r"
    and rest: "\<And>segs' s' l' r'. cu_rel segs' s' l' \<Longrightarrow>
      cu_follows merge m b r' (segs', s') u (scan (cu_step merge) m b (Suc q) (l', r'))"
  shows "cu_follows merge m b r0 (segs, s) (map_option (apfst ((#) ch)) u) (scan (cu_step merge) m b q x)"
proof -
  have "cu_rel segs (s @ [ch]) (cu_put ch l\<lparr>cu_st := cu_sw_usual\<rparr>)"
    using rel ch ext_ok_put [of s "cu_out l" "cu_ext l" ch] by (auto simp: cu_rel_def)
  then have "cu_follows merge m b r0 (segs, s @ [ch]) u (scan (cu_step merge) m b q x)"
    using rest q same by (auto simp: step scan_Next intro: cu_follows_same)
  moreover have "norm_byte merge (segs, s) ch = Some (segs, s @ [ch])" using ch by auto
  ultimately show ?thesis by (cases u) (auto simp: cu_follows_def)
qed

text \<open>A quoted byte: the sign and the first digit, then the second digit.\<close>

definition cu_half :: "byte list \<Rightarrow> byte \<Rightarrow> cu_locals \<Rightarrow> cu_locals" where
  "cu_half s h l = l\<lparr>cu_quoted := seg_state s, cu_decoded := of_nat (xdigit h), cu_st := cu_sw_quoted_second\<rparr>"

lemma cu_half_rel: "cu_rel segs s l \<Longrightarrow> cu_rel segs s (cu_half s h l\<lparr>cu_st := seg_state s\<rparr>)"
  by (auto simp: cu_rel_def cu_half_def)

lemma cu_scan_percent:
  assumes rel: "cu_rel segs s l" and at: "m p = c_percent" "p < b"
  shows "b = Suc p \<Longrightarrow> scan (cu_step merge) m b p (l, r) = Again b (l\<lparr>cu_quoted := seg_state s, cu_st := cu_sw_quoted\<rparr>, r)"
    "Suc p < b \<Longrightarrow> scan (cu_step merge) m b p (l, r) =
      (if is_xdigit (m (Suc p)) then scan (cu_step merge) m b (Suc (Suc p)) (cu_half s (m (Suc p)) l, r\<lparr>r_quoted_uri := True\<rparr>)
       else Exited Cu_invalid (Suc p) (l\<lparr>cu_quoted := seg_state s, cu_st := cu_sw_quoted\<rparr>, r\<lparr>r_quoted_uri := True\<rparr>))"
proof -
  let ?l = "l\<lparr>cu_quoted := seg_state s, cu_st := cu_sw_quoted\<rparr>"
  have "scan (cu_step merge) m b p (l, r) = scan (cu_step merge) m b (Suc p) (?l, r)"
    using at cu_path_special(1) [OF rel] by (simp add: scan_Next cu_step_path [OF rel])
  moreover have "cu_step merge m (Suc p) (?l, r) = cu_quoted_first (m (Suc p)) ?l r" by (simp add: cu_step.simps)
  ultimately show "b = Suc p \<Longrightarrow> scan (cu_step merge) m b p (l, r) = Again b (?l, r)"
    "Suc p < b \<Longrightarrow> scan (cu_step merge) m b p (l, r) =
      (if is_xdigit (m (Suc p)) then scan (cu_step merge) m b (Suc (Suc p)) (cu_half s (m (Suc p)) l, r\<lparr>r_quoted_uri := True\<rparr>)
       else Exited Cu_invalid (Suc p) (?l, r\<lparr>r_quoted_uri := True\<rparr>))"
    by (simp_all add: scan_end scan_Next scan_Exit cu_quoted_first_eq cu_half_def)
qed

lemma cu_follows_quoted:
  assumes rel: "cu_rel segs s l" and q: "q < b" and h: "is_xdigit h1" and same: "cu_same r0 r"
    and rest: "\<And>segs' s' l' r'. is_xdigit (m q) \<Longrightarrow> 16 * xdigit h1 + xdigit (m q) \<noteq> 0 \<Longrightarrow> cu_rel segs' s' l' \<Longrightarrow>
      cu_follows merge m b r' (segs', s') u (scan (cu_step merge) m b (Suc q) (l', r'))"
  shows "cu_follows merge m b r0 (segs, s)
    (if is_xdigit (m q) \<and> 16 * xdigit h1 + xdigit (m q) \<noteq> 0
     then map_option (apfst ((#) (of_nat (16 * xdigit h1 + xdigit (m q))))) u else None)
    (scan (cu_step merge) m b q (cu_half s h1 l, r))"
proof (cases "is_xdigit (m q)")
  case False
  then have "cu_step merge m q (cu_half s h1 l, r) = Exit Cu_invalid (cu_half s h1 l, r)"
    by (auto simp: cu_step.simps cu_half_def cu_quoted_second_def Let_def is_xdigit_def)
  with False q show ?thesis by (simp add: scan_Exit cu_invalid_def)
next
  case True
  let ?b = "of_nat (16 * xdigit h1 + xdigit (m q)) :: byte"
  have eq: "cu_step merge m q (cu_half s h1 l, r) =
    (if 16 * xdigit h1 + xdigit (m q) = 0 then Exit Cu_invalid (cu_half s h1 l, r)
     else if ?b \<in> {c_percent, c_hash, c_quest} then Next (cu_put ?b (cu_half s h1 l)\<lparr>cu_st := cu_sw_usual\<rparr>, r)
     else cu_path merge ?b q (cu_half s h1 l\<lparr>cu_st := cu_quoted (cu_half s h1 l)\<rparr>)
       (if ?b = c_plus then r\<lparr>r_plus_in_uri := True\<rparr> else r))"
    using cu_quoted_second_eq [of "cu_half s h1 l" "xdigit h1" "m q" merge q r] True xdigit_less [OF h]
    by (simp add: cu_step.simps cu_half_def)
  have rel': "cu_rel segs s (cu_half s h1 l\<lparr>cu_st := seg_state s\<rparr>)" using rel by (rule cu_half_rel)
  have same': "cu_same r0 (if ?b = c_plus then r\<lparr>r_plus_in_uri := True\<rparr> else r)"
    using cu_same_trans [OF same cu_same_plus] same by simp
  consider "16 * xdigit h1 + xdigit (m q) = 0"
    | "16 * xdigit h1 + xdigit (m q) \<noteq> 0" "?b \<in> {c_percent, c_quest, c_hash}"
    | "16 * xdigit h1 + xdigit (m q) \<noteq> 0" "?b \<notin> {c_percent, c_quest, c_hash}" by blast
  then show ?thesis
  proof cases
    case 1
    with eq q show ?thesis by (simp add: scan_Exit cu_invalid_def)
  next
    case 2
    have "cu_step merge m q (cu_half s h1 l, r) =
      Next (cu_put ?b (cu_half s h1 l\<lparr>cu_st := seg_state s\<rparr>)\<lparr>cu_st := cu_sw_usual\<rparr>, r)"
      using eq 2 by (auto simp: cu_half_def)
    from cu_follows_literal [OF rel' 2(2) q this same rest [OF True 2(1)]] 2 True show ?thesis by simp
  next
    case 3
    have "cu_step merge m q (cu_half s h1 l, r) = cu_path merge ?b q (cu_half s h1 l\<lparr>cu_st := seg_state s\<rparr>)
       (if ?b = c_plus then r\<lparr>r_plus_in_uri := True\<rparr> else r)"
      using eq 3 by (auto simp: cu_half_def)
    from cu_follows_byte [OF rel' 3(2) q this same' rest [OF True 3(1)]] 3 True show ?thesis by simp
  qed
qed

lemma cu_follows_percent:
  assumes rel: "cu_rel segs s l" and at: "m p = c_percent" "p < b" "mem_at m (Suc p) cs" "b = Suc p + length cs"
    and rest: "\<And>h1 h2 cs' segs' s' l' r'. cs = h1 # h2 # cs' \<Longrightarrow> is_xdigit h1 \<Longrightarrow> is_xdigit h2 \<Longrightarrow>
      16 * xdigit h1 + xdigit h2 \<noteq> 0 \<Longrightarrow> cu_rel segs' s' l' \<Longrightarrow>
      cu_follows merge m b r' (segs', s') (uri_unquote cs') (scan (cu_step merge) m b (Suc (Suc (Suc p))) (l', r'))"
  shows "cu_follows merge m b r (segs, s) (uri_unquote (c_percent # cs)) (scan (cu_step merge) m b p (l, r))"
proof -
  note pc = cu_scan_percent [of segs s l m p b merge r, OF rel at(1,2)]
  have rel_ends: "cu_out l = path_of (segs @ [s])" "ext_ok s (cu_out l) (cu_ext l)" using rel by (auto simp: cu_rel_def)
  consider "cs = []" | h where "cs = [h]" | h1 h2 cs' where "cs = h1 # h2 # cs'"
    by (metis list.exhaust)
  then show ?thesis
  proof cases
    case 1
    with at have "b = Suc p" by simp
    from pc(1) [OF this] rel_ends 1 show ?thesis by (force simp: cu_ends_def)
  next
    case h: 2
    with at have b: "Suc p < b" "b = Suc (Suc p)" "m (Suc p) = h" by simp_all
    from pc(2) [OF b(1)] rel_ends h b(2,3) show ?thesis
      by (cases "is_xdigit h") (force simp: cu_ends_def cu_half_def scan_end cu_invalid_def)+
  next
    case h: 3
    with at have b: "Suc p < b" "Suc (Suc p) < b" "m (Suc p) = h1" "m (Suc (Suc p)) = h2" by simp_all
    show ?thesis
    proof (cases "is_xdigit h1")
      case True
      have uq: "uri_unquote (c_percent # cs) = (if is_xdigit (m (Suc (Suc p))) \<and> 16 * xdigit h1 + xdigit (m (Suc (Suc p))) \<noteq> 0
        then map_option (apfst ((#) (of_nat (16 * xdigit h1 + xdigit (m (Suc (Suc p))))))) (uri_unquote cs') else None)"
        using h True b(4) by auto
      have "cu_follows merge m b r (segs, s) (uri_unquote (c_percent # cs))
        (scan (cu_step merge) m b (Suc (Suc p)) (cu_half s h1 l, r\<lparr>r_quoted_uri := True\<rparr>))"
        unfolding uq by (rule cu_follows_quoted [OF rel b(2) True cu_same_quoted rest [OF h True]]) (simp_all add: b(4))
      with pc(2) [OF b(1)] True b(3) show ?thesis by simp
    next
      case False
      with pc(2) [OF b(1)] h b show ?thesis by (simp add: cu_invalid_def)
    qed
  qed
qed

text \<open>The scan of a path is the reference.\<close>

lemma cu_scan:
  "cu_rel segs s l \<Longrightarrow> mem_at m p cs \<Longrightarrow> b = p + length cs \<Longrightarrow>
    cu_follows merge m b r (segs, s) (uri_unquote cs) (scan (cu_step merge) m b p (l, r))"
proof (induction cs arbitrary: segs s l p r rule: uri_unquote.induct)
  case (1 segs s l p r)
  then have "scan (cu_step merge) m b p (l, r) = Again p (l, r)" by (simp add: scan_end)
  with 1 show ?case by (force simp: cu_ends_def cu_rel_def)
next
  case (2 c cs segs s l p r)
  note rel = \<open>cu_rel segs s l\<close>
  have at: "m p = c" "p < b" "mem_at m (Suc p) cs" "b = Suc p + length cs" using 2 by auto
  have rel_ends: "cu_out l = path_of (segs @ [s])" "ext_ok s (cu_out l) (cu_ext l)" using rel by (auto simp: cu_rel_def)
  have step: "cu_step merge m p (l, r) = cu_path merge c p l r" using cu_step_path [OF rel] at by simp
  consider "c = c_quest" | "c = c_hash" | "c = c_percent" | "c \<notin> {c_percent, c_quest, c_hash}" by blast
  then show ?case
  proof cases
    case 1
    have "scan (cu_step merge) m b p (l, r) = Exited Cu_args p (l, r\<lparr>r_args_start := Some (p + 1)\<rparr>)"
      using at step cu_path_special(2) [OF rel] 1 by (simp add: scan_Exit)
    moreover have "mslice m (p + 1) b = cs" using at by (simp add: mem_at_mslice)
    ultimately show ?thesis using at rel_ends 1 unfolding cu_follows_def
      by (simp add: cu_ends_def) (rule exI [of _ r], simp)
  next
    case 2
    have "scan (cu_step merge) m b p (l, r) = Exited Cu_done p (l, r)"
      using at step cu_path_special(3) [OF rel] 2 by (simp add: scan_Exit)
    with rel_ends 2 show ?thesis by (force simp: cu_ends_def)
  next
    case 3
    show ?thesis unfolding 3
      by (rule cu_follows_percent [of segs s l m p b cs merge r, OF rel at(1) [unfolded 3] at(2-4)])
        (use "2.IH" at 3 in auto)
  next
    case 4
    then have "cu_follows merge m b r' (segs', s') (uri_unquote cs) (scan (cu_step merge) m b (Suc p) (l', r'))"
      if "cu_rel segs' s' l'" for segs' s' l' r'
      using "2.IH"(2) that at(3,4) by blast
    from cu_follows_byte [OF rel 4 at(2) step cu_same_refl this] 4 show ?thesis by simp
  qed
qed

section \<open>The first pass\<close>

text \<open>The fields the first pass writes.\<close>

definition pu_same :: "ngx_http_request_t \<Rightarrow> ngx_http_request_t \<Rightarrow> bool" where
  "pu_same r r' \<longleftrightarrow>
    r'\<lparr>r_complex_uri := False, r_quoted_uri := False, r_plus_in_uri := False, r_space_in_uri := False,
      r_uri_ext := None, r_args_start := None\<rparr> =
    r\<lparr>r_complex_uri := False, r_quoted_uri := False, r_plus_in_uri := False, r_space_in_uri := False,
      r_uri_ext := None, r_args_start := None\<rparr>"

lemma pu_same_simps [simp]:
  "pu_same r r" "pu_same r (r\<lparr>r_complex_uri := cx\<rparr>)" "pu_same r (r\<lparr>r_quoted_uri := qu\<rparr>)"
  "pu_same r (r\<lparr>r_plus_in_uri := pl\<rparr>)" "pu_same r (r\<lparr>r_space_in_uri := sp\<rparr>)"
  "pu_same r (r\<lparr>r_uri_ext := ext\<rparr>)" "pu_same r (r\<lparr>r_args_start := args\<rparr>)"
  by (simp_all add: pu_same_def)

lemma pu_same_trans: "pu_same r r' \<Longrightarrow> pu_same r' r'' \<Longrightarrow> pu_same r r''"
  by (simp add: pu_same_def)

text \<open>\<open>sw_uri\<close> looks only for a space and a hash.\<close>

lemma pu_scan_uri:
  "mem_at m p cs \<Longrightarrow> b = p + length cs \<Longrightarrow>
    \<exists>r'. scan pu_step m b p (pu_sw_uri, r) = Again b (pu_sw_uri, r') \<and> pu_same r r' \<and>
      r_complex_uri r' = (r_complex_uri r \<or> c_hash \<in> set cs) \<and> r_quoted_uri r' = r_quoted_uri r \<and>
      r_args_start r' = r_args_start r \<and> r_uri_ext r' = r_uri_ext r"
proof (induction cs arbitrary: p r)
  case (Cons c cs)
  let ?r = "if c = c_sp then r\<lparr>r_space_in_uri := True\<rparr> else if c = c_hash then r\<lparr>r_complex_uri := True\<rparr> else r"
  have "pu_step m p (pu_sw_uri, r) = Next (pu_sw_uri, ?r)"
    using Cons.prems usual_special [of c] by (auto simp: pu_step.simps pu_uri_def Let_def usual_iff)
  then have "scan pu_step m b p (pu_sw_uri, r) = scan pu_step m b (Suc p) (pu_sw_uri, ?r)"
    using Cons.prems by (simp add: scan_Next)
  with Cons.IH [of "Suc p" ?r] Cons.prems show ?case
    using pu_same_trans [of r ?r] by auto
qed (auto simp: scan_end)

text \<open>A path the first pass has not marked stands in memory as it will be used.\<close>

definition pu_rel ::
  "mem \<Rightarrow> nat \<Rightarrow> nat \<Rightarrow> byte list list \<Rightarrow> byte list \<Rightarrow> pu_state \<Rightarrow> ngx_http_request_t \<Rightarrow> bool" where
  "pu_rel m a p segs s st r \<longleftrightarrow>
    a \<le> p \<and> mslice m a p = path_of (segs @ [s]) \<and> r_args_start r = None \<and>
    \<not> r_complex_uri r \<and> \<not> r_quoted_uri r \<and>
    seg_ext s = map_option (\<lambda>e. mslice m e p) (r_uri_ext r) \<and> (\<forall>e. r_uri_ext r = Some e \<longrightarrow> e \<le> p) \<and>
    (st = pu_sw_after_slash_in_uri \<and> set s \<subseteq> {c_plus} \<or> st = pu_sw_check_uri \<and> s \<noteq> [] \<and> hd s \<noteq> c_dot)"

lemma pu_rel_put:
  assumes "pu_rel m a p segs s st r" "pu_same r r'" "\<not> r_complex_uri r'" "\<not> r_quoted_uri r'" "r_args_start r' = None"
    "r_uri_ext r' = (if m p = c_dot \<and> seg_state s = cu_sw_usual then Some (Suc p) else r_uri_ext r)"
    "st' = pu_sw_after_slash_in_uri \<and> set (s @ [m p]) \<subseteq> {c_plus} \<or> st' = pu_sw_check_uri \<and> hd (s @ [m p]) \<noteq> c_dot"
  shows "pu_rel m a (Suc p) segs (s @ [m p]) st' r'"
  using assms unfolding pu_rel_def
  by (cases "r_uri_ext r") (auto simp: mslice_Suc)

lemma pu_rel_hd: "pu_rel m a p segs s st r \<Longrightarrow> s \<noteq> [] \<Longrightarrow> hd s \<noteq> c_dot"
  by (cases s) (auto simp: pu_rel_def)

lemma pu_step_byte:
  assumes rel: "pu_rel m a p segs s st r" and c: "m p \<notin> {c_percent, c_quest, c_hash}"
  shows "pu_step m p (st, r) = Next (pu_sw_uri, r\<lparr>r_complex_uri := True\<rparr>) \<or>
    (\<exists>st' r' segs' s'. pu_step m p (st, r) = Next (st', r') \<and> norm_byte merge (segs, s) (m p) = Some (segs', s') \<and>
      pu_rel m a (Suc p) segs' s' st' r' \<and> pu_same r r')"
proof -
  let ?r = "if m p = c_sp then r\<lparr>r_space_in_uri := True\<rparr> else if m p = c_plus then r\<lparr>r_plus_in_uri := True\<rparr> else r"
  let ?c = "m p"
  have u: "usual ?c \<Longrightarrow> ?c \<notin> {c_sp, c_slash, c_percent, c_quest, c_hash, c_dot, c_plus}"
    using usual_special [of ?c] by (auto simp: usual_iff)
  consider (slow) "st = pu_sw_after_slash_in_uri" "?c \<in> {c_dot, c_slash}"
    | (slash) "st = pu_sw_check_uri" "?c = c_slash"
    | (dot) "st = pu_sw_check_uri" "?c = c_dot"
    | (check) "st = pu_sw_check_uri \<or> ?c \<noteq> c_plus" "?c \<notin> {c_dot, c_slash}"
    | (plus) "st = pu_sw_after_slash_in_uri" "?c = c_plus"
    using rel by (auto simp: pu_rel_def)
  then show ?thesis
  proof cases
    case slow
    then show ?thesis using u by (auto simp: pu_step.simps pu_after_slash_in_uri_def Let_def)
  next
    case slash
    have "close_seg merge segs s = Some (segs @ [s])"
      using rel slash by (auto simp: close_seg_def pu_rel_def)
    moreover have "pu_step m p (st, r) = Next (pu_sw_after_slash_in_uri, r\<lparr>r_uri_ext := None\<rparr>)"
      using slash u by (auto simp: pu_step.simps pu_check_uri_def Let_def)
    moreover have "pu_rel m a (Suc p) (segs @ [s]) [] pu_sw_after_slash_in_uri (r\<lparr>r_uri_ext := None\<rparr>)"
      using rel slash by (auto simp: pu_rel_def mslice_Suc seg_ext_def)
    ultimately show ?thesis using slash by auto
  next
    case dot
    have "seg_state s = cu_sw_usual" using rel dot by (auto simp: pu_rel_def seg_state_def)
    then have "pu_rel m a (Suc p) segs (s @ [m p]) pu_sw_check_uri (r\<lparr>r_uri_ext := Some (p + 1)\<rparr>)"
      using dot rel by (intro pu_rel_put [OF rel]) (auto simp: pu_rel_def)
    moreover have "pu_step m p (st, r) = Next (pu_sw_check_uri, r\<lparr>r_uri_ext := Some (p + 1)\<rparr>)"
      using dot u by (auto simp: pu_step.simps pu_check_uri_def Let_def)
    ultimately show ?thesis using dot by auto
  next
    case check
    have "pu_rel m a (Suc p) segs (s @ [m p]) pu_sw_check_uri ?r"
      using check rel pu_rel_hd [OF rel] by (intro pu_rel_put [OF rel]) (auto simp: pu_rel_def hd_append)
    moreover have "pu_step m p (st, r) = Next (pu_sw_check_uri, ?r)"
      using rel check u c by (auto simp: pu_rel_def pu_step.simps pu_check_uri_def pu_after_slash_in_uri_def Let_def)
    ultimately show ?thesis using check by auto
  next
    case plus
    have "pu_rel m a (Suc p) segs (s @ [m p]) pu_sw_after_slash_in_uri ?r"
      using plus rel by (intro pu_rel_put [OF rel]) (auto simp: pu_rel_def)
    moreover have "pu_step m p (st, r) = Next (pu_sw_after_slash_in_uri, ?r)"
      using plus u by (auto simp: pu_step.simps pu_after_slash_in_uri_def Let_def)
    ultimately show ?thesis using plus by auto
  qed
qed

definition uri_path_end :: "nat \<Rightarrow> ngx_http_request_t \<Rightarrow> nat" where
  "uri_path_end b r = (case r_args_start r of None \<Rightarrow> b | Some k \<Rightarrow> k - 1)"

text \<open>What the first pass found is what the reference computes from the bytes.\<close>

definition pu_plain ::
  "bool \<Rightarrow> mem \<Rightarrow> nat \<Rightarrow> nat \<Rightarrow> byte list list \<times> byte list \<Rightarrow> byte list \<Rightarrow> ngx_http_request_t \<Rightarrow> bool" where
  "pu_plain merge m a b st cs r \<longleftrightarrow>
    (\<exists>ds args segs s. uri_unquote cs = Some (ds, args) \<and> norm_path merge st ds = Some (segs, s) \<and>
      mslice m a (uri_path_end b r) = path_of (segs @ [s]) \<and>
      seg_ext s = map_option (\<lambda>e. mslice m e (uri_path_end b r)) (r_uri_ext r) \<and>
      args = map_option (\<lambda>k. mslice m k b) (r_args_start r) \<and>
      (\<forall>k. r_args_start r = Some k \<longrightarrow> 0 < k \<and> k \<le> b) \<and>
      (\<forall>xs. args = Some xs \<longrightarrow> r_complex_uri r = (c_hash \<in> set xs)))"

lemma pu_plain_byte:
  assumes "norm_byte merge st c = Some st'" "c \<notin> {c_percent, c_quest, c_hash}" "pu_plain merge m a b st' cs r"
  shows "pu_plain merge m a b st (c # cs) r"
  using assms unfolding pu_plain_def by (auto simp: apfst_def map_prod_def)

lemma pu_scan:
  "pu_rel m a p segs s st r \<Longrightarrow> mem_at m p cs \<Longrightarrow> b = p + length cs \<Longrightarrow>
    \<exists>st' r'. scan pu_step m b p (st, r) = Again b (st', r') \<and> pu_same r r' \<and>
      (r_args_start r' = None \<and> (r_complex_uri r' \<or> r_quoted_uri r') \<or>
       \<not> r_quoted_uri r' \<and> pu_plain merge m a b (segs, s) cs r')"
proof (induction cs arbitrary: p segs s st r)
  case Nil
  then have "pu_plain merge m a b (segs, s) [] r"
    by (auto simp: pu_plain_def pu_rel_def uri_path_end_def)
  with Nil show ?case by (auto simp: scan_end pu_rel_def)
next
  case (Cons c cs)
  note rel = \<open>pu_rel m a p segs s st r\<close>
  have at: "m p = c" "p < b" "mem_at m (Suc p) cs" "b = Suc p + length cs" using Cons.prems by auto
  have st: "st \<in> {pu_sw_after_slash_in_uri, pu_sw_check_uri}" and none: "r_args_start r = None"
    and flags: "\<not> r_complex_uri r" "\<not> r_quoted_uri r"
    using rel by (auto simp: pu_rel_def)
  consider "c = c_quest" | "c \<in> {c_hash, c_percent}" | "c \<notin> {c_percent, c_quest, c_hash}" by blast
  then show ?case
  proof cases
    case 1
    let ?r = "r\<lparr>r_args_start := Some (p + 1)\<rparr>"
    have step: "pu_step m p (st, r) = Next (pu_sw_uri, ?r)"
      using st at 1 by (auto simp: pu_step.simps pu_after_slash_in_uri_def pu_check_uri_def Let_def usual_iff)
    obtain r' where r': "scan pu_step m b (Suc p) (pu_sw_uri, ?r) = Again b (pu_sw_uri, r')" "pu_same ?r r'"
      "r_complex_uri r' = (c_hash \<in> set cs)" "\<not> r_quoted_uri r'" "r_args_start r' = Some (p + 1)" "r_uri_ext r' = r_uri_ext r"
      using pu_scan_uri [OF at(3,4), of ?r] flags by auto
    have "pu_plain merge m a b (segs, s) (c # cs) r'"
      using rel 1 r' at mem_at_mslice [OF at(3,4)] by (auto simp: pu_plain_def pu_rel_def uri_path_end_def)
    with r' step at show ?thesis using pu_same_trans [of r ?r r'] by (auto simp: scan_Next)
  next
    case 2
    let ?r = "if c = c_hash then r\<lparr>r_complex_uri := True\<rparr> else r\<lparr>r_quoted_uri := True\<rparr>"
    have step: "pu_step m p (st, r) = Next (pu_sw_uri, ?r)"
      using st at 2 by (auto simp: pu_step.simps pu_after_slash_in_uri_def pu_check_uri_def Let_def usual_iff)
    with pu_scan_uri [OF at(3,4), of ?r] none at show ?thesis
      using pu_same_trans [of r ?r] by (auto simp: scan_Next)
  next
    case 3
    from pu_step_byte [OF rel, of merge] 3 at(1) consider
      "pu_step m p (st, r) = Next (pu_sw_uri, r\<lparr>r_complex_uri := True\<rparr>)"
      | st' r' segs' s' where "pu_step m p (st, r) = Next (st', r')" "norm_byte merge (segs, s) c = Some (segs', s')"
        "pu_rel m a (Suc p) segs' s' st' r'" "pu_same r r'"
      by blast
    then show ?thesis
    proof cases
      case 1
      with pu_scan_uri [OF at(3,4), of "r\<lparr>r_complex_uri := True\<rparr>"] none at show ?thesis
        using pu_same_trans [of r "r\<lparr>r_complex_uri := True\<rparr>"] by (auto simp: scan_Next)
    next
      case (2 st' r' segs' s')
      with Cons.IH [OF 2(3) at(3,4)] at(2) show ?thesis
        using pu_same_trans [of r r'] pu_plain_byte [OF 2(2) 3] by (fastforce simp: scan_Next)
    qed
  qed
qed

section \<open>The URI of a request\<close>

text \<open>The path, the extension and the arguments the bytes of a URI stand for.\<close>

definition uri_spec :: "bool \<Rightarrow> byte list \<Rightarrow> (byte list \<times> byte list \<times> byte list) option" where
  "uri_spec merge xs =
    Option.bind (uri_unquote (tl xs)) (\<lambda>(ds, args).
      map_option (\<lambda>(segs, s).
          (path_of (segs @ [s]),
           case seg_ext s of None \<Rightarrow> [] | Some e \<Rightarrow> e,
           case args of None \<Rightarrow> [] | Some ys \<Rightarrow> takeWhile (\<lambda>c. c \<noteq> c_hash) ys))
        (norm_path merge ([], []) ds))"

lemma cu_scan_uri:
  assumes "m a = c_slash" "a < b"
  shows "cu_follows merge m b r ([], []) (uri_unquote (mslice m (Suc a) b)) (scan (cu_step merge) m b a (cu_init, r))"
proof -
  let ?l = "cu_init\<lparr>cu_out := [c_slash], cu_st := cu_sw_slash\<rparr>"
  have "scan (cu_step merge) m b a (cu_init, r) = scan (cu_step merge) m b (Suc a) (?l, r)"
    using assms by (simp add: scan_Next cu_step.simps cu_path_def cu_usual_def usual_iff cu_init_def)
  moreover have "cu_rel [] [] ?l" by (simp add: cu_rel_def seg_state_def cu_init_def)
  moreover have "mem_at m (Suc a) (mslice m (Suc a) b)" using assms(2) by (simp add: mem_at_nth nth_mslice)
  ultimately show ?thesis using cu_scan [of "[]" "[]" ?l m "Suc a" "mslice m (Suc a) b" b merge r] assms(2) by simp
qed

lemma find_hash:
  assumes "a \<le> b"
  shows "find_byte c_hash m a b = None \<Longrightarrow> takeWhile (\<lambda>c. c \<noteq> c_hash) (mslice m a b) = mslice m a b"
    "find_byte c_hash m a b = Some q \<Longrightarrow> takeWhile (\<lambda>c. c \<noteq> c_hash) (mslice m a b) = mslice m a q"
proof -
  assume "find_byte c_hash m a b = None"
  then show "takeWhile (\<lambda>c. c \<noteq> c_hash) (mslice m a b) = mslice m a b"
    using find_byte_None [of c_hash m a b] by (simp add: span_mslice)
next
  assume "find_byte c_hash m a b = Some q"
  then have q: "a \<le> q" "q < b" "m q = c_hash" "span (\<lambda>c. c \<noteq> c_hash) m a q" using find_byte_Some by blast+
  then have "mslice m a b = mslice m a q @ c_hash # mslice m (Suc q) b"
    by (metis mslice_Cons mslice_append less_imp_le)
  with q(4) show "takeWhile (\<lambda>c. c \<noteq> c_hash) (mslice m a b) = mslice m a q"
    by (simp add: span_mslice takeWhile_append2)
qed

text \<open>The fields the second pass leaves behind.\<close>

lemma complex_uri_result:
  assumes start: "r_uri_start r = Some a" "r_uri_end r = Some b" "a < b" "m a = c_slash"
    and empty: "r_exten r = []" "r_args r = []"
  shows "case ngx_http_parse_complex_uri merge m r of (rc, r') \<Rightarrow>
    case uri_spec merge (mslice m a b) of
      None \<Rightarrow> rc = NGX_HTTP_PARSE_INVALID_REQUEST
    | Some (u, e, q) \<Rightarrow> rc = NGX_OK \<and> r_uri r' = u \<and> r_exten r' = e \<and> r_uri_ext r' = None \<and>
        (case r_args_start r' of None \<Rightarrow> r_args r' = q | Some k \<Rightarrow> r_args r' = [] \<and> mslice m k b = q)"
proof -
  let ?r = "r\<lparr>r_uri_ext := None, r_args_start := None\<rparr>"
  let ?res = "scan (cu_step merge) m b a (cu_init, ?r)"
  have xs: "tl (mslice m a b) = mslice m (Suc a) b" using start(3) by (simp add: mslice_Cons)
  have "cu_follows merge m b ?r ([], []) (uri_unquote (mslice m (Suc a) b)) ?res"
    using start(4,3) by (rule cu_scan_uri)
  then consider "uri_spec merge (mslice m a b) = None" "cu_invalid ?res"
    | ds args segs s where "uri_unquote (mslice m (Suc a) b) = Some (ds, args)" "norm_path merge ([], []) ds = Some (segs, s)"
        "cu_ends m b ?r (segs, s) args ?res"
    by (cases rule: cu_follows_cases) (auto simp: uri_spec_def xs)
  then show ?thesis
  proof cases
    case 1
    then show ?thesis using start by (auto simp: ngx_http_parse_complex_uri_def Let_def cu_invalid_def)
  next
    case 2
    then obtain q l r' where res: "cu_same ?r r'" "cu_out l = path_of (segs @ [s])" "ext_ok s (cu_out l) (cu_ext l)"
      "case args of None \<Rightarrow> ?res \<in> {Again q (l, r'), Exited Cu_done q (l, r')}
       | Some xs \<Rightarrow> q < b \<and> mslice m (q + 1) b = xs \<and> ?res = Exited Cu_args q (l, r'\<lparr>r_args_start := Some (q + 1)\<rparr>)"
      by (auto simp: cu_ends_def)
    have spec: "uri_spec merge (mslice m a b) = Some (cu_out l, case seg_ext s of None \<Rightarrow> [] | Some e \<Rightarrow> e,
        case args of None \<Rightarrow> [] | Some ys \<Rightarrow> takeWhile (\<lambda>c. c \<noteq> c_hash) ys)"
      using 2 res(2) by (simp add: uri_spec_def xs)
    have r': "r_exten r' = []" "r_args r' = []" "r_args_start r' = None"
      using res(1) empty by (auto simp: cu_same_def)
    have ext: "seg_ext s = map_option (\<lambda>e. drop e (cu_out l)) (cu_ext l)" using res(3) by (simp add: ext_ok_def)
    show ?thesis
    proof (cases args)
      case None
      with res(4) have "ngx_http_parse_complex_uri merge m r = (NGX_OK, cu_done l r')"
        using start by (auto simp: ngx_http_parse_complex_uri_def Let_def)
      then show ?thesis using spec r' ext None by (auto simp: cu_done_def Let_def split: option.splits)
    next
      case (Some xs)
      with res(4) have "ngx_http_parse_complex_uri merge m r =
          (NGX_OK, cu_done l (cu_args m (q + 1) b (r'\<lparr>r_args_start := Some (q + 1)\<rparr>)))"
        using start by (auto simp: ngx_http_parse_complex_uri_def Let_def)
      then show ?thesis using spec r' ext Some res(4) find_hash [of "q + 1" b m]
        by (auto simp: cu_done_def cu_args_def Let_def simp del: takeWhile_eq_all_conv split: option.splits)
    qed
  qed
qed

lemma pu_same_fields:
  assumes "pu_same r r'"
  shows "r_uri_start r' = r_uri_start r" "r_uri_end r' = r_uri_end r" "r_exten r' = r_exten r" "r_args r' = r_args r"
  using arg_cong [OF assms [unfolded pu_same_def], of r_uri_start] arg_cong [OF assms [unfolded pu_same_def], of r_uri_end]
    arg_cong [OF assms [unfolded pu_same_def], of r_exten] arg_cong [OF assms [unfolded pu_same_def], of r_args]
  by simp_all

text \<open>What \<open>ngx_http_parse_uri\<close> has found when it accepts a URI.\<close>

lemma parse_uri_result:
  assumes start: "r_uri_start r = Some a" "r_uri_end r = Some b" "a < b"
    and flags: "\<not> r_complex_uri r" "\<not> r_quoted_uri r" "r_uri_ext r = None" "r_args_start r = None"
    and parse: "ngx_http_parse_uri m r = (NGX_OK, r1)"
  shows "m a = c_slash" "pu_same r r1"
    "r_args_start r1 = None \<and> (r_complex_uri r1 \<or> r_quoted_uri r1) \<or>
      \<not> r_quoted_uri r1 \<and> pu_plain merge m a b ([], []) (mslice m (Suc a) b) r1"
proof -
  show slash: "m a = c_slash"
    by (rule ccontr) (use parse start in \<open>simp add: ngx_http_parse_uri_def scan_Exit pu_step.simps pu_start_def\<close>)
  have "scan pu_step m b a (pu_sw_start, r) = scan pu_step m b (Suc a) (pu_sw_after_slash_in_uri, r)"
    using start slash by (simp add: scan_Next pu_step.simps pu_start_def)
  moreover have "pu_rel m a (Suc a) [] [] pu_sw_after_slash_in_uri r"
    using flags slash by (simp add: pu_rel_def mslice_Suc seg_ext_def)
  moreover have "mem_at m (Suc a) (mslice m (Suc a) b)" using start(3) by (simp add: mem_at_nth nth_mslice)
  ultimately show "pu_same r r1" "r_args_start r1 = None \<and> (r_complex_uri r1 \<or> r_quoted_uri r1) \<or>
      \<not> r_quoted_uri r1 \<and> pu_plain merge m a b ([], []) (mslice m (Suc a) b) r1"
    using pu_scan [of m a "Suc a" "[]" "[]" pu_sw_after_slash_in_uri r "mslice m (Suc a) b" b merge] start parse
    by (auto simp: ngx_http_parse_uri_def)
qed

lemma takeWhile_notin: "c \<notin> set xs \<Longrightarrow> takeWhile (\<lambda>x. x \<noteq> c) xs = xs"
  by (auto simp: takeWhile_eq_all_conv)

text \<open>A URI that is not marked is used as it stands.\<close>

lemma plain_uri_result:
  assumes start: "r_uri_start r = Some a" "r_uri_end r = Some b" "a < b"
    and empty: "r_exten r = []" "r_args r = []" and plain: "\<not> r_complex_uri r" "\<not> r_quoted_uri r"
      "pu_plain merge m a b ([], []) (mslice m (Suc a) b) r"
  shows "case ngx_http_process_request_uri merge m r of (rc, r') \<Rightarrow>
    \<exists>u e q. uri_spec merge (mslice m a b) = Some (u, e, q) \<and> rc = NGX_OK \<and> r_uri r' = u \<and> r_exten r' = e \<and> r_args r' = q"
proof -
  obtain ds args segs s where spec: "uri_unquote (mslice m (Suc a) b) = Some (ds, args)"
    "norm_path merge ([], []) ds = Some (segs, s)" and path: "mslice m a (uri_path_end b r) = path_of (segs @ [s])"
    and ext: "seg_ext s = map_option (\<lambda>e. mslice m e (uri_path_end b r)) (r_uri_ext r)"
    and args: "args = map_option (\<lambda>k. mslice m k b) (r_args_start r)" "\<forall>xs. args = Some xs \<longrightarrow> c_hash \<notin> set xs"
    using plain by (auto simp: pu_plain_def)
  have "tl (mslice m a b) = mslice m (Suc a) b" using start(3) by (simp add: mslice_Cons)
  then have "uri_spec merge (mslice m a b) = Some (mslice m a (uri_path_end b r),
      case r_uri_ext r of None \<Rightarrow> [] | Some e \<Rightarrow> mslice m e (uri_path_end b r),
      case r_args_start r of None \<Rightarrow> [] | Some k \<Rightarrow> mslice m k b)"
    using args takeWhile_notin by (auto simp: uri_spec_def spec path ext split: option.splits)
  then show ?thesis
    using start empty plain(1,2) by (auto simp: ngx_http_process_request_uri_def Let_def uri_path_end_def split: option.splits)
qed

text \<open>What the reference promises of its result.\<close>

definition seg_closed :: "bool \<Rightarrow> byte list \<Rightarrow> bool" where
  "seg_closed merge t \<longleftrightarrow> t \<noteq> [c_dot] \<and> t \<noteq> [c_dot, c_dot] \<and> c_slash \<notin> set t \<and> (merge \<longrightarrow> t \<noteq> [])"

lemma pop_seg_prefix: "pop_seg segs = Some xs \<Longrightarrow> \<exists>ys. segs = xs @ ys"
proof (cases segs rule: rev_cases)
  case segs: (snoc zs t)
  assume "pop_seg segs = Some xs"
  with segs show ?thesis by (cases zs rule: rev_cases) (auto simp: pop_seg_def butlast_append split: if_splits)
qed (simp add: pop_seg_def)

lemma close_seg_cases:
  "close_seg merge segs s = Some segs' \<Longrightarrow>
    (\<exists>ys. segs = segs' @ ys) \<or> segs' = segs @ [s] \<and> s \<noteq> [c_dot] \<and> s \<noteq> [c_dot, c_dot] \<and> (merge \<longrightarrow> s \<noteq> [])"
  unfolding close_seg_def by (simp split: if_splits; blast dest: pop_seg_prefix)

lemma close_seg_closed:
  assumes "close_seg merge segs s = Some segs'" "\<forall>t\<in>set segs. seg_closed merge t" "c_slash \<notin> set s"
  shows "(\<forall>t\<in>set segs'. seg_closed merge t) \<and> length (path_of segs') \<le> length (path_of (segs @ [s]))"
  using close_seg_cases [OF assms(1)]
proof
  assume "\<exists>ys. segs = segs' @ ys"
  then obtain ys where "segs = segs' @ ys" ..
  with assms(2) show ?thesis by simp
next
  assume "segs' = segs @ [s] \<and> s \<noteq> [c_dot] \<and> s \<noteq> [c_dot, c_dot] \<and> (merge \<longrightarrow> s \<noteq> [])"
  with assms(2,3) show ?thesis by (simp add: seg_closed_def)
qed

lemma norm_path_closed:
  assumes "norm_path merge (segs, s) ds = Some (segs', s')" "\<forall>t\<in>set segs. seg_closed merge t" "c_slash \<notin> set s"
  shows "(\<forall>t\<in>set segs'. seg_closed merge t) \<and> c_slash \<notin> set s' \<and>
    length (path_of (segs' @ [s'])) \<le> length (path_of (segs @ [s])) + length ds"
  using assms
proof (induction ds arbitrary: segs s)
  case (Cons d ds)
  show ?case
  proof (cases "d = c_slash")
    case True
    with Cons.prems obtain segs1 where c: "close_seg merge segs s = Some segs1" "norm_path merge (segs1, []) ds = Some (segs', s')"
      by (cases "close_seg merge segs s") auto
    with Cons.IH [OF c(2)] close_seg_closed [OF c(1) Cons.prems(2,3)] show ?thesis by auto
  next
    case False
    with Cons.prems Cons.IH [of segs "s @ [d]"] show ?thesis by auto
  qed
qed auto

lemma uri_unquote_length: "uri_unquote cs = Some (ds, args) \<Longrightarrow> length ds \<le> length cs"
  by (induction cs arbitrary: ds args rule: uri_unquote.induct)
    (fastforce simp: apfst_def map_prod_def split: if_splits list.splits)+

lemma uri_spec_confined:
  assumes "uri_spec merge xs = Some (u, e, q)" "xs \<noteq> []"
  shows "\<exists>segs s. u = path_of (segs @ [s]) \<and> (\<forall>t\<in>set segs. seg_closed merge t) \<and> c_slash \<notin> set s \<and> length u \<le> length xs"
proof -
  obtain ds args segs s where *: "uri_unquote (tl xs) = Some (ds, args)" "norm_path merge ([], []) ds = Some (segs, s)"
    "u = path_of (segs @ [s])"
    using assms(1) by (auto simp: uri_spec_def bind_eq_Some_conv)
  with norm_path_closed [OF *(2)] uri_unquote_length [OF *(1)] assms(2) show ?thesis
    by (intro exI [of _ segs] exI [of _ s]) (cases xs; auto)
qed

text \<open>The bytes written never outnumber the bytes read.\<close>

lemma cu_back_length: "cu_back out n = Some out' \<Longrightarrow> length out' \<le> length out"
  by (induction n) (auto split: if_splits)

lemma cu_path_length: "cu_path merge ch p l r = Next (l', r') \<Longrightarrow> length (cu_out l') \<le> Suc (length (cu_out l))"
  by (auto simp: cu_path_def cu_defs dest!: cu_back_length split: cu_state.splits if_splits option.splits)

lemma cu_step_length: "cu_step merge m p (l, r) = Next (l', r') \<Longrightarrow> length (cu_out l') \<le> Suc (length (cu_out l))"
  by (auto simp: cu_step.simps cu_quoted_first_def cu_quoted_second_def Let_def
      dest: cu_path_length split: cu_state.splits if_splits)

interpretation cu_writes: scanner_inv "cu_step merge" "\<lambda>m p (l, r). length (cu_out l) \<le> p - a \<and> a \<le> p" "\<lambda>m p x s. True"
  for merge a
  by unfold_locales (auto dest: cu_step_length)

lemma request_uri_result:
  assumes start: "r_uri_start r = Some a" "r_uri_end r = Some b" "a < b"
    and fresh: "\<not> r_complex_uri r" "\<not> r_quoted_uri r" "r_uri_ext r = None" "r_args_start r = None"
      "r_exten r = []" "r_args r = []"
    and parse: "ngx_http_parse_uri m r = (NGX_OK, r1)"
    and process: "ngx_http_process_request_uri merge m r1 = (rc, r2)"
  shows "case uri_spec merge (mslice m a b) of
      None \<Rightarrow> rc = NGX_ERROR
    | Some (u, e, q) \<Rightarrow> rc = NGX_OK \<and> r_uri r2 = u \<and> r_exten r2 = e \<and> r_args r2 = q"
proof -
  note res = parse_uri_result [OF start fresh(1-4) parse]
  note r1 = pu_same_fields [OF res(2)]
  show ?thesis
  proof (cases "r_complex_uri r1 \<or> r_quoted_uri r1")
    case False
    then have "pu_plain merge m a b ([], []) (mslice m (Suc a) b) r1" using res(3) by blast
    with False show ?thesis
      using plain_uri_result [of r1 a b merge m] start fresh r1 process by auto
  next
    case True
    obtain rc' r' where c: "ngx_http_parse_complex_uri merge m r1 = (rc', r')" by fastforce
    have "r_uri_end r1 = Some b" using r1 start by simp
    from True c show ?thesis
      using complex_uri_result [of r1 a b m merge] start fresh r1 process res(1)
      by (auto simp: ngx_http_process_request_uri_def Let_def split: option.splits if_splits)
  qed
qed

text \<open>The buffer of \<open>ngx_http_process_request_uri\<close>, \<open>uri.len + 1\<close> bytes.\<close>

definition uri_alloc :: "nat \<Rightarrow> nat \<Rightarrow> ngx_http_request_t \<Rightarrow> nat" where
  "uri_alloc a b r = uri_path_end b r - a + 1"

lemma complex_uri_writes:
  assumes at: "m a = c_slash" "a < b" "lim \<le> b"
    and plain: "r_args_start r \<noteq> None \<Longrightarrow> pu_plain merge m a b ([], []) (mslice m (Suc a) b) r"
    and scan: "scan (cu_step merge) m lim a
      (cu_init, r0) = Again p (l, r')"
  shows "length (cu_out l) < uri_alloc a b r"
proof -
  have p: "p = max a lim" using scan_Again_pos [OF scan] .
  have out: "length (cu_out l) \<le> p - a" using cu_writes.scan_inv_Again [OF _ scan, of a] by (simp add: cu_init_def)
  show ?thesis
  proof (cases "r_args_start r")
    case None
    with p out at show ?thesis by (simp add: uri_alloc_def uri_path_end_def)
  next
    case (Some k)
    with plain obtain ds segs s where u: "uri_unquote (mslice m (Suc a) b) = Some (ds, Some (mslice m k b))"
      "norm_path merge ([], []) ds = Some (segs, s)" "0 < k" "k \<le> b" by (auto simp: pu_plain_def)
    have "cu_follows merge m b r0 ([], []) (uri_unquote (mslice m (Suc a) b)) (scan (cu_step merge) m b a (cu_init, r0))"
      using at(1,2) by (rule cu_scan_uri)
    with u obtain q l1 r1 where q: "scan (cu_step merge) m b a (cu_init, r0) = Exited Cu_args q (l1, r1)" "q < b"
      "mslice m (q + 1) b = mslice m k b"
      by (auto simp: cu_follows_def cu_ends_def)
    have "b - (q + 1) = b - k" using arg_cong [OF q(3), of length] by simp
    then have qk: "q = k - 1" using q(2) u(3,4) by simp
    have "scan (cu_step merge) m b a (cu_init, r0) = scan (cu_step merge) m b p (l, r')"
      using scan_resume [OF at(3), of "cu_step merge" m a "(cu_init, r0)"] by (simp add: scan)
    then have "p \<le> q" using q(1) scan_Exited_pos by metis
    with qk out Some show ?thesis by (simp add: uri_alloc_def uri_path_end_def)
  qed
qed

section \<open>Properties\<close>

text \<open>
  C6. A URI that \<open>ngx_http_parse_uri\<close> accepts is given the path, the extension and the
  arguments the reference computes from its bytes: percent-encoded bytes are decoded, dot
  segments are resolved, slashes merged when configured. This holds whether or not the first
  pass marked the URI, so the shortcut for unmarked URIs is right. The request is refused
  exactly when the reference has no result.
\<close>

theorem request_uri_normalised:
  assumes start: "r_uri_start r = Some a" "r_uri_end r = Some b" "a < b"
    and fresh: "\<not> r_complex_uri r" "\<not> r_quoted_uri r" "r_uri_ext r = None" "r_args_start r = None"
      "r_exten r = []" "r_args r = []"
    and parse: "ngx_http_parse_uri m r = (NGX_OK, r1)"
    and process: "ngx_http_process_request_uri merge m r1 = (rc, r2)"
  shows "case uri_spec merge (mslice m a b) of
      None \<Rightarrow> rc = NGX_ERROR
    | Some (u, e, q) \<Rightarrow> rc = NGX_OK \<and> r_uri r2 = u \<and> r_exten r2 = e \<and> r_args r2 = q"
  using request_uri_result [OF assms] .

definition uri_example :: "string \<Rightarrow> ngx_http_request_t" where
  "uri_example s = ngx_http_create_request\<lparr>r_uri_start := Some 0, r_uri_end := Some (length s)\<rparr>"

lemma uri_example_simps [simp]:
  "r_uri_start (uri_example s) = Some 0" "r_uri_end (uri_example s) = Some (length s)"
  "\<not> r_complex_uri (uri_example s)" "\<not> r_quoted_uri (uri_example s)" "r_uri_ext (uri_example s) = None"
  "r_args_start (uri_example s) = None" "r_exten (uri_example s) = []" "r_args (uri_example s) = []"
  by (simp_all add: uri_example_def ngx_http_create_request_def)

theorem request_uri_normalised_witness:
  "let s = ''/a/./b%2e/..//c.d?x#y''; m = mem_of (bytes s)
   in case ngx_http_process_request_uri True m (snd (ngx_http_parse_uri m (uri_example s))) of (rc, r2) \<Rightarrow>
     rc = NGX_OK \<and> r_uri r2 = bytes ''/a/c.d'' \<and> r_exten r2 = bytes ''d'' \<and> r_args r2 = bytes ''x''"
proof -
  let ?s = "''/a/./b%2e/..//c.d?x#y''"
  let ?m = "mem_of (bytes ?s)" and ?r = "uri_example ?s"
  have "fst (ngx_http_parse_uri ?m ?r) = NGX_OK" by code_simp
  moreover have "uri_spec True (mslice ?m 0 21) = Some (bytes ''/a/c.d'', bytes ''d'', bytes ''x'')" by code_simp
  ultimately show ?thesis
    using request_uri_normalised [of ?r 0 21 ?m "snd (ngx_http_parse_uri ?m ?r)" True
      "fst (ngx_http_process_request_uri True ?m (snd (ngx_http_parse_uri ?m ?r)))"
      "snd (ngx_http_process_request_uri True ?m (snd (ngx_http_parse_uri ?m ?r)))"]
    by (simp add: prod_eq_iff Let_def case_prod_unfold)
qed

text \<open>
  C17. The path given to an accepted URI is a sequence of segments, each after a slash: no
  segment but the last is \<open>.\<close> or \<open>..\<close>, none but the last is empty when slashes are merged, and
  no segment contains a slash, so an encoded slash has become a separator. The path is not
  longer than the URI.
\<close>

theorem request_uri_confined:
  assumes start: "r_uri_start r = Some a" "r_uri_end r = Some b" "a < b"
    and fresh: "\<not> r_complex_uri r" "\<not> r_quoted_uri r" "r_uri_ext r = None" "r_args_start r = None"
      "r_exten r = []" "r_args r = []"
    and parse: "ngx_http_parse_uri m r = (NGX_OK, r1)"
    and process: "ngx_http_process_request_uri merge m r1 = (NGX_OK, r2)"
  shows "\<exists>segs s. r_uri r2 = path_of (segs @ [s]) \<and> length (r_uri r2) \<le> b - a \<and> c_slash \<notin> set s \<and>
    (\<forall>t\<in>set segs. t \<noteq> [c_dot] \<and> t \<noteq> [c_dot, c_dot] \<and> c_slash \<notin> set t \<and> (merge \<longrightarrow> t \<noteq> []))"
proof -
  obtain u e q where "uri_spec merge (mslice m a b) = Some (u, e, q)" "r_uri r2 = u"
    using request_uri_result [OF assms] by (auto split: option.splits)
  with uri_spec_confined [of merge "mslice m a b"] start(3) show ?thesis
    unfolding seg_closed_def by (metis length_mslice length_0_conv zero_less_diff less_irrefl)
qed

theorem request_uri_confined_witness:
  "let s = ''/a/%2e./b''; m = mem_of (bytes s);
       r2 = snd (ngx_http_process_request_uri True m (snd (ngx_http_parse_uri m (uri_example s))))
   in length (r_uri r2) \<le> 9 \<and> (\<exists>segs s. r_uri r2 = path_of (segs @ [s]) \<and> (\<forall>t\<in>set segs. t \<noteq> [c_dot, c_dot]))"
proof -
  let ?s = "''/a/%2e./b''"
  let ?m = "mem_of (bytes ?s)" and ?r = "uri_example ?s"
  have ok: "fst (ngx_http_parse_uri ?m ?r) = NGX_OK"
    "fst (ngx_http_process_request_uri True ?m (snd (ngx_http_parse_uri ?m ?r))) = NGX_OK"
    by code_simp+
  have "length ?s = 9" by simp
  with ok request_uri_confined [of ?r 0 9 ?m "snd (ngx_http_parse_uri ?m ?r)" True
      "snd (ngx_http_process_request_uri True ?m (snd (ngx_http_parse_uri ?m ?r)))"]
  show ?thesis by (simp add: prod_eq_iff Let_def) blast
qed

text \<open>
  C7. While \<open>ngx_http_parse_complex_uri\<close> copies the path, it never has written more bytes than
  \<open>ngx_http_process_request_uri\<close> allocated, \<open>uri.len + 1\<close>, at any point of its loop, also when
  the first pass put the end of the path at a question mark.
\<close>

theorem complex_uri_buffer:
  assumes start: "r_uri_start r = Some a" "r_uri_end r = Some b" "a < b"
    and fresh: "\<not> r_complex_uri r" "\<not> r_quoted_uri r" "r_uri_ext r = None" "r_args_start r = None"
    and parse: "ngx_http_parse_uri m r = (NGX_OK, r1)" and lim: "lim \<le> b"
    and scan: "scan (cu_step merge) m lim a
      (cu_init,
       r1\<lparr>r_uri_ext := None, r_args_start := None\<rparr>) = Again p (l, r')"
  shows "length (cu_out l) < uri_alloc a b r1"
  using parse_uri_result(1) [OF start fresh parse] parse_uri_result(3) [OF start fresh parse, of merge] start(3) lim
  by (intro complex_uri_writes [of m a b lim r1 merge, OF _ _ _ _ scan]) auto

theorem complex_uri_buffer_witness:
  "case scan (cu_step True) (mem_of (bytes ''/a?#'')) 2 0
      (cu_init,
       (snd (ngx_http_parse_uri (mem_of (bytes ''/a?#'')) (uri_example ''/a?#'')))\<lparr>r_uri_ext := None, r_args_start := None\<rparr>) of
     Again p (l, r') \<Rightarrow> length (cu_out l) = 2 \<and>
       length (cu_out l) < uri_alloc 0 4 (snd (ngx_http_parse_uri (mem_of (bytes ''/a?#'')) (uri_example ''/a?#'')))
   | _ \<Rightarrow> False"
proof -
  let ?m = "mem_of (bytes ''/a?#'')" and ?r = "uri_example ''/a?#''"
  let ?res = "scan (cu_step True) ?m 2 0 (cu_init, (snd (ngx_http_parse_uri ?m ?r))\<lparr>r_uri_ext := None, r_args_start := None\<rparr>)"
  have ok: "fst (ngx_http_parse_uri ?m ?r) = NGX_OK" by code_simp
  have "case ?res of Again p (l, r') \<Rightarrow> length (cu_out l) = 2 | _ \<Rightarrow> False" by code_simp
  then obtain p l r' where res: "?res = Again p (l, r')" "length (cu_out l) = 2"
    by (auto split: outcome.splits)
  from complex_uri_buffer [of ?r 0 4 ?m "snd (ngx_http_parse_uri ?m ?r)" 2 True p l r'] ok res show ?thesis
    by (simp add: prod_eq_iff)
qed


end
