(* ===== verification/Upstream_Round_Robin.thy ===== *)
theory Upstream_Round_Robin
  imports Prelude
begin

text \<open>
  The choice of an upstream server, \<open>src/http/ngx_http_upstream_round_robin.c\<close>: the groups of
  peers made from the configuration, the data kept per request, the choice of a peer by
  smooth weighted round robin, and what the end of a connection changes. The SSL session
  functions are not compiled in. An allocation that fails is not modelled.
\<close>

section \<open>Data\<close>

text \<open>An \<open>ngx_addr_t\<close>: the bytes of \<open>sockaddr\<close> (\<open>socklen\<close> of them) and its name.\<close>

record ngx_addr_t =
  a_sockaddr :: "byte list"
  a_name :: "byte list"

record ngx_http_upstream_server_t =
  us_name :: "byte list"
  us_addrs :: "ngx_addr_t list"
  us_weight :: ngx_uint_t
  us_max_fails :: ngx_uint_t
  us_fail_timeout :: time_t
  us_down :: bool
  us_backup :: bool

record ngx_http_upstream_rr_peer_t =
  p_sockaddr :: "byte list"
  p_name :: "byte list"
  p_server :: "byte list"
  p_current_weight :: ngx_int_t
  p_effective_weight :: ngx_int_t
  p_weight :: ngx_int_t
  p_fails :: ngx_uint_t
  p_accessed :: time_t
  p_checked :: time_t
  p_max_fails :: ngx_uint_t
  p_fail_timeout :: time_t
  p_down :: bool

text \<open>
  A group of peers. The groups linked by \<open>next\<close> are a list, so \<open>next\<close> is its tail.
  \<open>number\<close> is bounded by the memory of the peers and does not wrap around.
\<close>

record ngx_http_upstream_rr_peers_t =
  ps_number :: nat
  ps_total_weight :: ngx_uint_t
  ps_single :: bool
  ps_weighted :: bool
  ps_name :: "byte list"
  ps_peer :: "ngx_http_upstream_rr_peer_t list"

text \<open>
  The data of a request: the group (how many \<open>next\<close> it is away from the first one), the
  peer chosen, and the bits of the peers tried (\<open>tried\<close> points to \<open>data\<close> for up to 32 peers).
\<close>

record ngx_http_upstream_rr_peer_data_t =
  rrp_peers :: nat
  rrp_current :: nat
  rrp_tried :: "32 word list"

record ngx_peer_connection_t =
  pc_connection :: bool
  pc_sockaddr :: "byte list"
  pc_name :: "byte list"
  pc_tries :: nat
  pc_cached :: bool

definition NGX_PEER_FAILED :: ngx_uint_t where
  "NGX_PEER_FAILED = 4"

section \<open>The groups of a configuration\<close>

text \<open>The loop that counts the addresses and the weight of the servers that are (not) backups.\<close>

definition rr_count :: "bool \<Rightarrow> ngx_http_upstream_server_t list \<Rightarrow> nat \<times> ngx_uint_t" where
  "rr_count backup servers =
    foldl (\<lambda>(n, w) server.
        if us_backup server \<noteq> backup then (n, w)
        else (n + length (us_addrs server), w + of_nat (length (us_addrs server)) * us_weight server))
      (0, 0) servers"

definition rr_peer_of :: "ngx_http_upstream_server_t \<Rightarrow> ngx_addr_t \<Rightarrow> ngx_http_upstream_rr_peer_t" where
  "rr_peer_of server addr =
    \<lparr>p_sockaddr = a_sockaddr addr, p_name = a_name addr, p_server = us_name server,
     p_current_weight = 0, p_effective_weight = us_weight server, p_weight = us_weight server,
     p_fails = 0, p_accessed = 0, p_checked = 0, p_max_fails = us_max_fails server,
     p_fail_timeout = us_fail_timeout server, p_down = us_down server\<rparr>"

definition rr_fill :: "bool \<Rightarrow> ngx_http_upstream_server_t list \<Rightarrow> ngx_http_upstream_rr_peer_t list" where
  "rr_fill backup servers =
    concat (map (\<lambda>server. if us_backup server \<noteq> backup then [] else map (rr_peer_of server) (us_addrs server)) servers)"

definition rr_group :: "byte list \<Rightarrow> bool \<Rightarrow> bool \<Rightarrow> ngx_http_upstream_server_t list \<Rightarrow> ngx_http_upstream_rr_peers_t" where
  "rr_group host single backup servers =
    (let (n, w) = rr_count backup servers in
     \<lparr>ps_number = n, ps_total_weight = w, ps_single = single, ps_weighted = (w \<noteq> of_nat n),
      ps_name = host, ps_peer = rr_fill backup servers\<rparr>)"

definition rr_implicit_peer :: "ngx_addr_t \<Rightarrow> ngx_http_upstream_rr_peer_t" where
  "rr_implicit_peer addr =
    \<lparr>p_sockaddr = a_sockaddr addr, p_name = a_name addr, p_server = [],
     p_current_weight = 0, p_effective_weight = 1, p_weight = 1,
     p_fails = 0, p_accessed = 0, p_checked = 0, p_max_fails = 1, p_fail_timeout = 10, p_down = False\<rparr>"

text \<open>
  \<open>servers\<close> is \<open>us->servers\<close>, None when \<open>NULL\<close>; \<open>resolve\<close> is what the system's resolver, called
  by \<open>ngx_inet_resolve_host\<close>, answers for the host and the port, None for an error.
\<close>

definition ngx_http_upstream_init_round_robin ::
  "(byte list \<Rightarrow> nat \<Rightarrow> ngx_addr_t list option) \<Rightarrow> byte list \<Rightarrow> nat \<Rightarrow> ngx_http_upstream_server_t list option \<Rightarrow>
    ngx_rc \<times> ngx_http_upstream_rr_peers_t list" where
  "ngx_http_upstream_init_round_robin resolve host port servers =
    (case servers of
       Some servers \<Rightarrow>
         if fst (rr_count False servers) = 0 then (NGX_ERROR, [])
         else if fst (rr_count True servers) = 0
         then (NGX_OK, [rr_group host (fst (rr_count False servers) = 1) False servers])
         else (NGX_OK, [rr_group host False False servers, rr_group host False True servers])
     | None \<Rightarrow>
         if port = 0 then (NGX_ERROR, [])
         else
           (case resolve host port of
              None \<Rightarrow> (NGX_ERROR, [])
            | Some addrs \<Rightarrow>
                (NGX_OK, [\<lparr>ps_number = length addrs, ps_total_weight = of_nat (length addrs),
                   ps_single = (length addrs = 1), ps_weighted = False, ps_name = host,
                   ps_peer = map rr_implicit_peer addrs\<rparr>])))"

section \<open>The data of a request\<close>

definition ngx_http_upstream_init_round_robin_peer ::
  "ngx_http_upstream_rr_peers_t list \<Rightarrow> ngx_peer_connection_t \<Rightarrow>
    ngx_peer_connection_t \<times> ngx_http_upstream_rr_peer_data_t" where
  "ngx_http_upstream_init_round_robin_peer groups pc =
    (let n = ps_number (hd groups);
         n = (if tl groups \<noteq> [] \<and> ps_number (hd (tl groups)) > n then ps_number (hd (tl groups)) else n);
         tried = (if n \<le> 32 then [0] else replicate ((n + 31) div 32) 0)
     in (pc\<lparr>pc_tries := ps_number (hd groups)\<rparr>, \<lparr>rrp_peers = 0, rrp_current = 0, rrp_tried = tried\<rparr>))"

section \<open>The choice of a peer\<close>

definition tried_bit :: "nat \<Rightarrow> 32 word" where
  "tried_bit i = push_bit (i mod 32) 1"

type_synonym gp_acc = "ngx_http_upstream_rr_peer_t list \<times> nat option \<times> ngx_int_t"

text \<open>One round of the loop over the peers; \<open>best\<close> is the index of the peer pointed to.\<close>

definition gp_step :: "time_t \<Rightarrow> 32 word list \<Rightarrow> nat \<Rightarrow> gp_acc \<Rightarrow> gp_acc" where
  "gp_step now tried i = (\<lambda>(ps, best, tot).
    (let peer = ps ! i in
     if tried ! (i div 32) AND tried_bit i \<noteq> 0 then (ps, best, tot)
     else if p_down peer then (ps, best, tot)
     else if p_max_fails peer \<noteq> 0 \<and> p_fails peer \<ge> p_max_fails peer \<and> now - p_checked peer \<le>s p_fail_timeout peer
     then (ps, best, tot)
     else
       let tot' = tot + p_effective_weight peer;
           peer = peer\<lparr>p_current_weight := p_current_weight peer + p_effective_weight peer\<rparr>;
           peer = (if p_effective_weight peer <s p_weight peer
                   then peer\<lparr>p_effective_weight := p_effective_weight peer + 1\<rparr> else peer);
           ps = ps[i := peer];
           best = (case best of
                     None \<Rightarrow> Some i
                   | Some b \<Rightarrow> if p_current_weight (ps ! b) <s p_current_weight peer then Some i else best)
       in (ps, best, tot')))"

definition ngx_http_upstream_get_peer ::
  "time_t \<Rightarrow> ngx_http_upstream_rr_peer_data_t \<Rightarrow> ngx_http_upstream_rr_peers_t \<Rightarrow>
    nat option \<times> ngx_http_upstream_rr_peer_data_t \<times> ngx_http_upstream_rr_peers_t" where
  "ngx_http_upstream_get_peer now rrp peers =
    (case fold (gp_step now (rrp_tried rrp)) [0..<ps_number peers] (ps_peer peers, None, 0) of
       (ps, None, tot) \<Rightarrow> (None, rrp, peers\<lparr>ps_peer := ps\<rparr>)
     | (ps, Some i, tot) \<Rightarrow>
         (let rrp = rrp\<lparr>rrp_current := i,
                rrp_tried := (rrp_tried rrp)[i div 32 := rrp_tried rrp ! (i div 32) OR tried_bit i]\<rparr>;
              best = (ps ! i)\<lparr>p_current_weight := p_current_weight (ps ! i) - tot\<rparr>;
              best = (if p_fail_timeout best <s now - p_checked best then best\<lparr>p_checked := now\<rparr> else best)
          in (Some i, rrp, peers\<lparr>ps_peer := ps[i := best]\<rparr>)))"

definition clear_tried :: "nat \<Rightarrow> 32 word list \<Rightarrow> 32 word list" where
  "clear_tried number tried = foldl (\<lambda>t i. t[i := 0]) tried [0..<(number + 31) div 32]"

text \<open>
  \<open>groups\<close> are the group \<open>rrp->peers\<close> points to and those behind it. A failed choice goes on
  with the backup group; when that is busy too, the failures of this group are forgotten.
\<close>

definition mark_live :: "ngx_http_upstream_rr_peers_t \<Rightarrow> ngx_http_upstream_rr_peers_t" where
  "mark_live peers =
    peers\<lparr>ps_peer := map (\<lambda>p. p\<lparr>p_fails := 0\<rparr>) (take (ps_number peers) (ps_peer peers)) @ drop (ps_number peers) (ps_peer peers)\<rparr>"

fun ngx_http_upstream_get_round_robin_peer ::
  "time_t \<Rightarrow> ngx_peer_connection_t \<Rightarrow> ngx_http_upstream_rr_peer_data_t \<Rightarrow> ngx_http_upstream_rr_peers_t list \<Rightarrow>
    ngx_rc \<times> ngx_peer_connection_t \<times> ngx_http_upstream_rr_peer_data_t \<times> ngx_http_upstream_rr_peers_t list" where
  "ngx_http_upstream_get_round_robin_peer now pc rrp [] = (NGX_BUSY, pc, rrp, [])"
| "ngx_http_upstream_get_round_robin_peer now pc rrp (peers # next) =
    (let pc = pc\<lparr>pc_cached := False, pc_connection := False\<rparr>;
         (choice, rrp, peers) =
           (if ps_single peers
            then (if p_down (ps_peer peers ! 0) then None else Some 0, rrp, peers)
            else ngx_http_upstream_get_peer now rrp peers)
     in case choice of
          Some i \<Rightarrow>
            (let peer = ps_peer peers ! i;
                 pc = pc\<lparr>pc_sockaddr := p_sockaddr peer, pc_name := p_name peer\<rparr>;
                 pc = (if pc_tries pc = 1 \<and> next \<noteq> [] then pc\<lparr>pc_tries := pc_tries pc + ps_number (hd next)\<rparr> else pc)
             in (NGX_OK, pc, rrp, peers # next))
        | None \<Rightarrow>
            (let (rc, pc, rrp, next) =
               (if next = [] then (NGX_BUSY, pc, rrp, [])
                else
                  ngx_http_upstream_get_round_robin_peer now
                    (pc\<lparr>pc_tries := ps_number (hd next)\<rparr>)
                    (rrp\<lparr>rrp_peers := rrp_peers rrp + 1, rrp_tried := clear_tried (ps_number (hd next)) (rrp_tried rrp)\<rparr>)
                    next)
             in if rc \<noteq> NGX_BUSY then (rc, pc, rrp, peers # next)
                else (NGX_BUSY, pc\<lparr>pc_name := ps_name peers\<rparr>, rrp, mark_live peers # next)))"

section \<open>The end of a connection\<close>

definition fp_failed :: "time_t \<Rightarrow> ngx_http_upstream_rr_peer_t \<Rightarrow> ngx_http_upstream_rr_peer_t" where
  "fp_failed now peer =
    (let peer = peer\<lparr>p_fails := p_fails peer + 1, p_accessed := now, p_checked := now\<rparr>;
         peer = (if p_max_fails peer \<noteq> 0
                 then peer\<lparr>p_effective_weight := p_effective_weight peer - p_weight peer div p_max_fails peer\<rparr> else peer)
     in if p_effective_weight peer <s 0 then peer\<lparr>p_effective_weight := 0\<rparr> else peer)"

definition ngx_http_upstream_free_round_robin_peer ::
  "time_t \<Rightarrow> ngx_peer_connection_t \<Rightarrow> ngx_http_upstream_rr_peer_data_t \<Rightarrow> ngx_http_upstream_rr_peers_t list \<Rightarrow> ngx_uint_t \<Rightarrow>
    ngx_peer_connection_t \<times> ngx_http_upstream_rr_peers_t list" where
  "ngx_http_upstream_free_round_robin_peer now pc rrp groups state =
    (let peers = groups ! rrp_peers rrp in
     if ps_single peers then (pc\<lparr>pc_tries := 0\<rparr>, groups)
     else
       let peer = ps_peer peers ! rrp_current rrp;
           peer =
             (if state AND NGX_PEER_FAILED \<noteq> 0 then fp_failed now peer
              else if p_accessed peer <s p_checked peer then peer\<lparr>p_fails := 0\<rparr> else peer);
           groups = groups[rrp_peers rrp := peers\<lparr>ps_peer := (ps_peer peers)[rrp_current rrp := peer]\<rparr>]
       in (if pc_tries pc \<noteq> 0 then pc\<lparr>pc_tries := pc_tries pc - 1\<rparr> else pc, groups))"

section \<open>What a round of the loop does\<close>

definition rr_eligible :: "time_t \<Rightarrow> 32 word list \<Rightarrow> nat \<Rightarrow> ngx_http_upstream_rr_peer_t \<Rightarrow> bool" where
  "rr_eligible now tried i p \<longleftrightarrow> tried ! (i div 32) AND tried_bit i = 0 \<and> \<not> p_down p \<and>
    \<not> (p_max_fails p \<noteq> 0 \<and> p_fails p \<ge> p_max_fails p \<and> now - p_checked p \<le>s p_fail_timeout p)"

definition rr_bump :: "ngx_http_upstream_rr_peer_t \<Rightarrow> ngx_http_upstream_rr_peer_t" where
  "rr_bump p = p\<lparr>p_current_weight := p_current_weight p + p_effective_weight p,
     p_effective_weight := (if p_effective_weight p <s p_weight p then p_effective_weight p + 1 else p_effective_weight p)\<rparr>"

lemma gp_step_eq:
  "gp_step now tried i (ps, best, tot) =
    (if rr_eligible now tried i (ps ! i)
     then
       (ps[i := rr_bump (ps ! i)],
        case best of
          None \<Rightarrow> Some i
        | Some b \<Rightarrow>
            if p_current_weight (ps[i := rr_bump (ps ! i)] ! b) <s p_current_weight (rr_bump (ps ! i)) then Some i else Some b,
        tot + p_effective_weight (ps ! i))
     else (ps, best, tot))"
proof -
  have "(if p_effective_weight p <s p_weight p then p\<lparr>p_current_weight := c, p_effective_weight := e\<rparr> else p\<lparr>p_current_weight := c\<rparr>) =
    p\<lparr>p_current_weight := c, p_effective_weight := (if p_effective_weight p <s p_weight p then e else p_effective_weight p)\<rparr>"
    for p :: ngx_http_upstream_rr_peer_t and c e by simp
  then show ?thesis
    by (auto simp: gp_step_def rr_eligible_def rr_bump_def Let_def split: option.splits)
qed

definition rr_elig :: "time_t \<Rightarrow> 32 word list \<Rightarrow> ngx_http_upstream_rr_peer_t list \<Rightarrow> nat \<Rightarrow> nat list" where
  "rr_elig now tried ps k = filter (\<lambda>i. rr_eligible now tried i (ps ! i)) [0..<k]"

definition rr_bumped :: "time_t \<Rightarrow> 32 word list \<Rightarrow> ngx_http_upstream_rr_peer_t list \<Rightarrow> nat \<Rightarrow> ngx_http_upstream_rr_peer_t list" where
  "rr_bumped now tried ps k = map (\<lambda>i. if i \<in> set (rr_elig now tried ps k) then rr_bump (ps ! i) else ps ! i) [0..<length ps]"

lemma rr_bumped_Suc:
  "k < length ps \<Longrightarrow> rr_bumped now tried ps (Suc k) =
    (if rr_eligible now tried k (ps ! k) then (rr_bumped now tried ps k)[k := rr_bump (ps ! k)] else rr_bumped now tried ps k)"
  by (rule nth_equalityI) (auto simp: rr_bumped_def rr_elig_def nth_list_update)

lemma rr_bumped_nth: "i < length ps \<Longrightarrow>
   rr_bumped now tried ps k ! i = (if i \<in> set (rr_elig now tried ps k) then rr_bump (ps ! i) else ps ! i)"
  by (simp add: rr_bumped_def)

lemma length_rr_bumped [simp]: "length (rr_bumped now tried ps k) = length ps"
  by (simp add: rr_bumped_def)

text \<open>The loop adds up the weights of the eligible peers and finds one of the heaviest.\<close>

lemma gp_loop:
  assumes "k \<le> length ps" "fold (gp_step now tried) [0..<k] (ps, None, 0) = (ps', best, tot)"
  shows "ps' = rr_bumped now tried ps k \<and> tot = sum_list (map (\<lambda>i. p_effective_weight (ps ! i)) (rr_elig now tried ps k)) \<and>
    (case best of
       None \<Rightarrow> rr_elig now tried ps k = []
     | Some b \<Rightarrow> b \<in> set (rr_elig now tried ps k) \<and>
         (\<forall>j\<in>set (rr_elig now tried ps k). \<not> p_current_weight (ps' ! b) <s p_current_weight (ps' ! j)))"
  using assms
proof (induction k arbitrary: ps' best tot)
  case 0
  then show ?case by (auto simp: rr_elig_def rr_bumped_def map_nth)
next
  case (Suc k)
  obtain ps1 b1 t1 where 1: "fold (gp_step now tried) [0..<k] (ps, None, 0) = (ps1, b1, t1)" by (cases "fold (gp_step now tried) [0..<k] (ps, None, 0)") auto
  have k: "k < length ps" using Suc.prems by simp
  note IH = Suc.IH [OF _ 1]
  have step: "gp_step now tried k (ps1, b1, t1) = (ps', best, tot)" using Suc.prems(2) 1 by simp
  have nth: "rr_bumped now tried ps k ! k = ps ! k" using k by (simp add: rr_bumped_nth rr_elig_def)
  show ?case
  proof (cases "rr_eligible now tried k (ps ! k)")
    case False
    then have "rr_elig now tried ps (Suc k) = rr_elig now tried ps k" by (simp add: rr_elig_def)
    with False IH step k nth show ?thesis by (auto simp: gp_step_eq rr_bumped_Suc split: option.splits)
  next
    case True
    then have e: "rr_elig now tried ps (Suc k) = rr_elig now tried ps k @ [k]" by (simp add: rr_elig_def)
    have lt: "j < k" if "j \<in> set (rr_elig now tried ps k)" for j using that by (auto simp: rr_elig_def)
    have ps1: "ps1 = rr_bumped now tried ps k" and t1: "t1 = sum_list (map (\<lambda>i. p_effective_weight (ps ! i)) (rr_elig now tried ps k))"
      and b1: "case b1 of None \<Rightarrow> rr_elig now tried ps k = [] | Some b \<Rightarrow> b \<in> set (rr_elig now tried ps k) \<and>
         (\<forall>j\<in>set (rr_elig now tried ps k). \<not> p_current_weight (ps1 ! b) <s p_current_weight (ps1 ! j))"
      using IH k by auto
    have ps': "ps' = ps1[k := rr_bump (ps ! k)]" and tot: "tot = t1 + p_effective_weight (ps ! k)"
      using step True by (auto simp: gp_step_eq ps1 nth)
    have same: "ps' ! j = ps1 ! j" if "j \<in> set (rr_elig now tried ps k)" for j using lt [OF that] by (simp add: ps')
    have new: "ps' ! k = rr_bump (ps ! k)" using k by (simp add: ps' ps1)
    have "case best of None \<Rightarrow> False | Some b \<Rightarrow> b \<in> set (rr_elig now tried ps (Suc k)) \<and>
         (\<forall>j\<in>set (rr_elig now tried ps (Suc k)). \<not> p_current_weight (ps' ! b) <s p_current_weight (ps' ! j))"
    proof (cases b1)
      case None
      with step True b1 e show ?thesis by (auto simp: gp_step_eq ps1 nth)
    next
      case (Some b)
      then have "best = Some (if p_current_weight (ps' ! b) <s p_current_weight (ps' ! k) then k else b)"
        using step True new by (auto simp: gp_step_eq ps1 nth)
      with Some b1 e same show ?thesis by (auto simp: word_sless_alt)
    qed
    with True k e ps' ps1 tot t1 show ?thesis by (auto simp: rr_bumped_Suc split: option.splits)
  qed
qed

lemma get_peer_cases:
  assumes "ps_number peers = length (ps_peer peers)"
  obtains (busy) "rr_elig now (rrp_tried rrp) (ps_peer peers) (ps_number peers) = []"
      "ngx_http_upstream_get_peer now rrp peers = (None, rrp, peers)"
    | (chosen) b rrp' peers' where
      "ngx_http_upstream_get_peer now rrp peers = (Some b, rrp', peers')"
      "b \<in> set (rr_elig now (rrp_tried rrp) (ps_peer peers) (ps_number peers))"
      "\<And>j. j \<in> set (rr_elig now (rrp_tried rrp) (ps_peer peers) (ps_number peers)) \<Longrightarrow>
        \<not> p_current_weight (rr_bump (ps_peer peers ! b)) <s p_current_weight (rr_bump (ps_peer peers ! j))"
      "rrp' = rrp\<lparr>rrp_current := b, rrp_tried := (rrp_tried rrp)[b div 32 := rrp_tried rrp ! (b div 32) OR tried_bit b]\<rparr>"
      "\<exists>c. peers' = peers\<lparr>ps_peer := (rr_bumped now (rrp_tried rrp) (ps_peer peers) (ps_number peers))
        [b := (rr_bump (ps_peer peers ! b))\<lparr>p_current_weight := p_current_weight (rr_bump (ps_peer peers ! b)) -
           sum_list (map (\<lambda>i. p_effective_weight (ps_peer peers ! i)) (rr_elig now (rrp_tried rrp) (ps_peer peers) (ps_number peers))),
           p_checked := c\<rparr>]\<rparr>"
proof -
  let ?ps = "ps_peer peers" and ?tr = "rrp_tried rrp" and ?k = "ps_number peers"
  obtain ps' best tot where f: "fold (gp_step now ?tr) [0..<?k] (?ps, None, 0) = (ps', best, tot)"
    by (cases "fold (gp_step now ?tr) [0..<?k] (?ps, None, 0)") auto
  note g = gp_loop [OF _ f]
  show ?thesis
  proof (cases best)
    case None
    then have e: "rr_elig now ?tr ?ps ?k = []" using g assms by auto
    then have "ps' = ?ps" using g assms by (auto simp: rr_bumped_def map_nth)
    then have "ngx_http_upstream_get_peer now rrp peers = (None, rrp, peers)"
      by (simp add: ngx_http_upstream_get_peer_def f None)
    with e show ?thesis by (rule busy)
  next
    case (Some b)
    have b: "b \<in> set (rr_elig now ?tr ?ps ?k)" "b < length ?ps" and ps': "ps' = rr_bumped now ?tr ?ps ?k"
      and tot: "tot = sum_list (map (\<lambda>i. p_effective_weight (?ps ! i)) (rr_elig now ?tr ?ps ?k))"
      using g assms Some by (auto simp: rr_elig_def)
    have nth: "ps' ! j = rr_bump (?ps ! j)" if "j \<in> set (rr_elig now ?tr ?ps ?k)" for j
      using that assms by (auto simp: ps' rr_bumped_nth) (auto simp: rr_elig_def rr_bumped_nth)
    have max: "\<not> p_current_weight (rr_bump (?ps ! b)) <s p_current_weight (rr_bump (?ps ! j))"
      if "j \<in> set (rr_elig now ?tr ?ps ?k)" for j
      using g assms Some that nth [OF that] nth [OF b(1)] by auto
    let ?p = "(rr_bump (?ps ! b))\<lparr>p_current_weight := p_current_weight (rr_bump (?ps ! b)) - tot\<rparr>"
    let ?q = "if p_fail_timeout ?p <s now - p_checked ?p then ?p\<lparr>p_checked := now\<rparr> else ?p"
    have "?q = ?p\<lparr>p_checked := (if p_fail_timeout ?p <s now - p_checked ?p then now else p_checked ?p)\<rparr>" by simp
    then obtain c where q: "?q = ?p\<lparr>p_checked := c\<rparr>" by metis
    have "ngx_http_upstream_get_peer now rrp peers =
      (Some b, rrp\<lparr>rrp_current := b, rrp_tried := ?tr[b div 32 := ?tr ! (b div 32) OR tried_bit b]\<rparr>,
       peers\<lparr>ps_peer := ps'[b := ?q]\<rparr>)"
      by (simp add: ngx_http_upstream_get_peer_def f Some nth [OF b(1)] Let_def)
    note this [unfolded q]
    from this [unfolded ps' tot] show ?thesis
      using b(1) max refl by (rule chosen) (assumption, rule exI, rule refl)
  qed
qed

section \<open>The bits of the peers tried\<close>

definition rr_tried :: "32 word list \<Rightarrow> nat \<Rightarrow> bool" where
  "rr_tried tried i \<longleftrightarrow> bit (tried ! (i div 32)) (i mod 32)"

lemma tried_bit_and: "t AND tried_bit i = 0 \<longleftrightarrow> \<not> bit t (i mod 32)" for t :: "32 word"
proof -
  have "t AND tried_bit i = (if bit t (i mod 32) then push_bit (i mod 32) 1 else 0)"
    by (rule bit_word_eqI) (auto simp: bit_simps tried_bit_def)
  moreover have "bit (push_bit (i mod 32) 1 :: 32 word) (i mod 32)" by (simp add: bit_simps)
  ultimately show ?thesis by (metis bit_0_eq bot_apply bot_bool_def)
qed




definition rr_sized :: "nat \<Rightarrow> ngx_http_upstream_rr_peers_t \<Rightarrow> bool" where
  "rr_sized n peers \<longleftrightarrow> ps_number peers = n \<and> length (ps_peer peers) = n"



section \<open>Smooth weighted round robin\<close>

text \<open>
  The abstract process: every weight is added to its counter, one of the largest counters is
  chosen and the sum of the weights is taken from it.
\<close>

definition wrr_step :: "int list \<Rightarrow> int list \<Rightarrow> nat \<Rightarrow> int list \<Rightarrow> bool" where
  "wrr_step w v b v' \<longleftrightarrow> length v = length w \<and> b < length w \<and> (\<forall>j < length w. v ! j + w ! j \<le> v ! b + w ! b) \<and>
     v' = (map2 (+) v w)[b := v ! b + w ! b - sum_list w]"

inductive wrr :: "int list \<Rightarrow> int list \<Rightarrow> nat list \<Rightarrow> int list \<Rightarrow> bool" for w where
  wrr_Nil: "wrr w v [] v"
| wrr_Cons: "wrr_step w v b v' \<Longrightarrow> wrr w v' bs v'' \<Longrightarrow> wrr w v (b # bs) v''"

definition wrr_inv :: "int list \<Rightarrow> int list \<Rightarrow> bool" where
  "wrr_inv w v \<longleftrightarrow> length v = length w \<and> sum_list v = 0 \<and> (\<forall>x\<in>set v. - sum_list w < x)"

lemma sum_list_map2_plus: "length v = length w \<Longrightarrow> sum_list (map2 (+) v w) = sum_list v + sum_list (w :: int list)"
  by (induction v w rule: list_induct2) auto

lemma sum_list_set_nth: "k < length xs \<Longrightarrow> sum_list (xs[k := x]) = sum_list xs + x - xs ! k" for x :: int
  by (induction xs arbitrary: k) (auto split: nat.split)

lemma wrr_inv_nth: "wrr_inv w v \<Longrightarrow> j < length w \<Longrightarrow> - sum_list w < v ! j"
  by (simp add: wrr_inv_def)

lemma wrr_step_inv:
  assumes "wrr_step w v b v'" "wrr_inv w v" "\<forall>x\<in>set w. 0 \<le> x" "0 < sum_list w"
  shows "wrr_inv w v'"
proof -
  let ?u = "map2 (+) v w"
  have len: "length v = length w" "b < length w" and max: "\<forall>j < length w. v ! j + w ! j \<le> v ! b + w ! b"
    and v': "v' = ?u[b := v ! b + w ! b - sum_list w]"
    using assms(1) by (auto simp: wrr_step_def)
  have sum: "sum_list ?u = sum_list w" using assms(2) len by (simp add: sum_list_map2_plus wrr_inv_def)
  have "0 < v ! b + w ! b"
  proof (rule ccontr)
    assume "\<not> 0 < v ! b + w ! b"
    then have "\<forall>x\<in>set ?u. x \<le> 0" using max len by (auto simp: set_zip)
    then have "sum_list ?u \<le> 0" by (intro sum_list_nonpos) blast
    with sum assms(4) show False by simp
  qed
  moreover have "- sum_list w < v ! j + w ! j" if "j < length w" for j
  proof -
    have "0 \<le> w ! j" using assms(3) that by simp
    with wrr_inv_nth [OF assms(2) that] show ?thesis by linarith
  qed
  ultimately have "\<forall>x\<in>set v'. - sum_list w < x"
    using len by (auto simp: v' in_set_conv_nth nth_list_update)
  moreover have "sum_list v' = 0"
    using len sum by (simp add: v' sum_list_set_nth)
  ultimately show ?thesis using len by (simp add: wrr_inv_def v')
qed

lemma wrr_count:
  "wrr w v bs v' \<Longrightarrow> length v = length w \<Longrightarrow> i < length w \<Longrightarrow>
    v' ! i = v ! i + int (length bs) * w ! i - sum_list w * int (count_list bs i)"
  by (induction rule: wrr.induct) (auto simp: wrr_step_def nth_list_update algebra_simps)

lemma wrr_step_less: "wrr_step w v b v' \<Longrightarrow> b < length w"
  by (simp add: wrr_step_def)

lemma wrr_run_inv:
  "wrr w v bs v' \<Longrightarrow> wrr_inv w v \<Longrightarrow> \<forall>x\<in>set w. 0 \<le> x \<Longrightarrow> 0 < sum_list w \<Longrightarrow>
    wrr_inv w v' \<and> set bs \<subseteq> {..<length w}"
  by (induction rule: wrr.induct) (auto dest: wrr_step_inv wrr_step_less)

text \<open>After as many choices as the sum of the weights, each was chosen as often as its weight.\<close>

lemma wrr_fair:
  assumes run: "wrr w (replicate (length w) 0) bs v" and w: "\<forall>x\<in>set w. 0 \<le> x" "0 < sum_list w"
    and len: "int (length bs) = sum_list w" and i: "i < length w"
  shows "int (count_list bs i) = w ! i"
proof -
  let ?n = "length w" and ?c = "\<lambda>i. int (count_list bs i)"
  have inv: "wrr_inv w v" "set bs \<subseteq> {..<?n}"
    using wrr_run_inv [OF run _ w] w by (auto simp: wrr_inv_def sum_list_replicate)
  have le: "?c j \<le> w ! j" if j: "j < ?n" for j
  proof -
    have "v ! j = sum_list w * (w ! j - ?c j)" using wrr_count [OF run] j len by (simp add: algebra_simps)
    moreover have "- sum_list w < v ! j" using inv(1) j by (auto simp: wrr_inv_def)
    ultimately have "sum_list w * (- 1) < sum_list w * (w ! j - ?c j)" by simp
    then have "- 1 < w ! j - ?c j" using w(2) mult_less_cancel_left_pos by blast
    then show ?thesis by simp
  qed
  have "(\<Sum>j<?n. ?c j) = (\<Sum>j<?n. w ! j)"
    using sum_count_set [of bs "{..<?n}"] inv(2) len by (simp add: sum_list_sum_nth atLeast0LessThan flip: of_nat_sum)
  then have "(\<Sum>j<?n. w ! j - ?c j) = 0" by (simp add: sum_subtractf)
  then have "\<forall>j<?n. w ! j - ?c j = 0"
    using le by (subst (asm) sum_nonneg_eq_0_iff) auto
  with i show ?thesis by simp
qed

section \<open>The peers follow the abstract process\<close>

text \<open>A group whose peers are all up and have not failed.\<close>

definition rr_live :: "ngx_http_upstream_rr_peer_t \<Rightarrow> bool" where
  "rr_live p \<longleftrightarrow> \<not> p_down p \<and> p_fails p = 0 \<and> p_effective_weight p = p_weight p \<and> 0 \<le> sint (p_weight p)"

lemma rr_live_bump [simp]: "rr_live p \<Longrightarrow> rr_live (rr_bump p)"
  by (auto simp: rr_live_def rr_bump_def word_sless_alt)

lemma rr_live_update [simp]: "rr_live (p\<lparr>p_current_weight := x, p_checked := c\<rparr>) = rr_live p"
  by (simp add: rr_live_def)

definition rr_up :: "ngx_http_upstream_rr_peers_t \<Rightarrow> bool" where
  "rr_up peers \<longleftrightarrow> ps_number peers = length (ps_peer peers) \<and> \<not> ps_single peers \<and>
    (\<forall>p\<in>set (ps_peer peers). rr_live p)"

definition rr_weights :: "ngx_http_upstream_rr_peers_t \<Rightarrow> int list" where
  "rr_weights peers = map (\<lambda>p. sint (p_weight p)) (ps_peer peers)"

definition rr_view :: "ngx_http_upstream_rr_peers_t \<Rightarrow> int list" where
  "rr_view peers = map (\<lambda>p. sint (p_current_weight p)) (ps_peer peers)"

text \<open>The counters stay far enough from the ends of the 32-bit range.\<close>

definition rr_small :: "ngx_http_upstream_rr_peers_t \<Rightarrow> bool" where
  "rr_small peers \<longleftrightarrow> 0 < sum_list (rr_weights peers) \<and> int (ps_number peers) * sum_list (rr_weights peers) < 2 ^ 31"

lemma wrr_inv_upper:
  assumes "wrr_inv w v" "x \<in> set v"
  shows "x \<le> int (length w) * sum_list w - sum_list w"
proof -
  let ?t = "sum_list w"
  have "x + ?t \<le> sum_list (map (\<lambda>y. y + ?t) v)"
    using assms by (intro member_le_sum_list) (auto simp: wrr_inv_def less_imp_le)
  also have "\<dots> = sum_list v + int (length v) * ?t" by (induction v) (auto simp: algebra_simps)
  finally show ?thesis using assms(1) by (simp add: wrr_inv_def)
qed

lemma sum_list_word: "sum_list (map f xs) = (word_of_int (sum_list (map (\<lambda>x. sint (f x)) xs)) :: 'a::len word)"
  by (induction xs) simp_all

lemma rr_up_elig:
  assumes up: "rr_up peers" and tried: "\<And>i. i < ps_number peers \<Longrightarrow> \<not> rr_tried tried i"
  shows "rr_elig now tried (ps_peer peers) (ps_number peers) = [0..<ps_number peers]"
proof -
  have "rr_eligible now tried i (ps_peer peers ! i)" if "i < ps_number peers" for i
  proof -
    have "ps_peer peers ! i \<in> set (ps_peer peers)" using up that by (simp add: rr_up_def)
    with up tried [OF that] show ?thesis by (auto simp: rr_eligible_def rr_up_def rr_live_def rr_tried_def tried_bit_and word_le_nat_alt unat_eq_0)
  qed
  then show ?thesis by (simp add: rr_elig_def)
qed

lemma rr_small_total:
  assumes "rr_small peers" "ps_number peers = length (ps_peer peers)"
  shows "0 < ps_number peers" "sum_list (rr_weights peers) < 2 ^ 31"
    "sum_list (rr_weights peers) \<le> int (ps_number peers) * sum_list (rr_weights peers)"
proof -
  show n: "0 < ps_number peers" using assms by (cases "ps_peer peers") (auto simp: rr_weights_def rr_small_def)
  show le: "sum_list (rr_weights peers) \<le> int (ps_number peers) * sum_list (rr_weights peers)"
    using assms(1) n by (simp add: rr_small_def)
  with assms(1) show "sum_list (rr_weights peers) < 2 ^ 31" unfolding rr_small_def by linarith
qed

text \<open>Neither the counters nor the sum of the weights overflow.\<close>

lemma rr_bump_sint:
  assumes up: "rr_up peers" and small: "rr_small peers" and inv: "wrr_inv (rr_weights peers) (rr_view peers)"
    and i: "i < ps_number peers"
  shows "sint (p_current_weight (rr_bump (ps_peer peers ! i))) = rr_view peers ! i + rr_weights peers ! i"
    "rr_view peers ! i + rr_weights peers ! i < 2 ^ 31"
proof -
  let ?ps = "ps_peer peers" and ?w = "rr_weights peers" and ?v = "rr_view peers" and ?n = "ps_number peers"
  let ?t = "sum_list ?w"
  have n: "?n = length ?ps" and live: "rr_live (?ps ! i)" using up i by (simp_all add: rr_up_def)
  have nth: "sint (p_weight (?ps ! i)) = ?w ! i" "sint (p_current_weight (?ps ! i)) = ?v ! i"
    using i n by (simp_all add: rr_weights_def rr_view_def)
  have "\<forall>x\<in>set ?w. 0 \<le> x" using up by (auto simp: rr_up_def rr_live_def rr_weights_def)
  then have w: "0 \<le> ?w ! i" "?w ! i \<le> ?t" using i n by (auto simp: rr_weights_def intro!: member_le_sum_list)
  have v: "- ?t < ?v ! i" "?v ! i \<le> int ?n * ?t - ?t"
    using inv wrr_inv_upper [OF inv, of "?v ! i"] i n by (auto simp: wrr_inv_def rr_weights_def rr_view_def)
  have t: "int ?n * ?t < 2 ^ 31" using small by (simp add: rr_small_def)
  note rr_small_total [OF small n]
  with v w t have "- (2 ^ 31) \<le> ?v ! i + ?w ! i" and lt: "?v ! i + ?w ! i < 2 ^ 31" by linarith+
  then show "sint (p_current_weight (rr_bump (?ps ! i))) = ?v ! i + ?w ! i"
    using live nth by (simp add: rr_bump_def rr_live_def sint_arith)
  show "?v ! i + ?w ! i < 2 ^ 31" by (rule lt)
qed

lemma rr_total_sint:
  assumes "rr_up peers" "rr_small peers"
  shows "sint (sum_list (map (\<lambda>i. p_effective_weight (ps_peer peers ! i)) [0..<ps_number peers])) = sum_list (rr_weights peers)"
proof -
  have n: "ps_number peers = length (ps_peer peers)" using assms(1) by (simp add: rr_up_def)
  have "map (\<lambda>i. sint (p_effective_weight (ps_peer peers ! i))) [0..<ps_number peers] = rr_weights peers"
    using assms(1) by (intro nth_equalityI) (auto simp: rr_weights_def rr_up_def rr_live_def)
  moreover have "sum_list (rr_weights peers) < 2 ^ 31" "0 < sum_list (rr_weights peers)"
    using rr_small_total(2) [OF assms(2) n] assms(2) by (simp_all add: rr_small_def)
  ultimately show ?thesis unfolding sum_list_word by (simp add: sint_word_of_int)
qed

lemma get_peer_refines:
  assumes up: "rr_up peers" and small: "rr_small peers" and inv: "wrr_inv (rr_weights peers) (rr_view peers)"
    and tried: "\<And>i. i < ps_number peers \<Longrightarrow> \<not> rr_tried (rrp_tried rrp) i"
  shows "\<exists>b rrp' peers'. ngx_http_upstream_get_peer now rrp peers = (Some b, rrp', peers') \<and>
    rrp_current rrp' = b \<and> rrp_peers rrp' = rrp_peers rrp \<and>
    wrr_step (rr_weights peers) (rr_view peers) b (rr_view peers') \<and> rr_up peers' \<and>
    rr_weights peers' = rr_weights peers \<and> ps_number peers' = ps_number peers"
proof -
  let ?ps = "ps_peer peers" and ?w = "rr_weights peers" and ?v = "rr_view peers" and ?n = "ps_number peers"
  let ?t = "sum_list ?w" and ?tot = "sum_list (map (\<lambda>i. p_effective_weight (?ps ! i)) [0..<?n])"
  have n: "?n = length ?ps" using up by (simp add: rr_up_def)
  have lens: "length ?v = ?n" "length ?w = ?n" using n by (simp_all add: rr_weights_def rr_view_def)
  have elig: "rr_elig now (rrp_tried rrp) ?ps ?n = [0..<?n]" using up tried by (rule rr_up_elig)
  note bump = rr_bump_sint [OF up small inv] and tot = rr_total_sint [OF up small]
  note t = rr_small_total [OF small n] small [unfolded rr_small_def, THEN conjunct1]
  from n show ?thesis
  proof (cases rule: get_peer_cases [where now = now and rrp = rrp])
    case busy
    with elig have "length [0..<?n] = 0" by simp
    with t(1) show ?thesis by simp
  next
    case (chosen b rrp' peers')
    have b: "b < ?n" using chosen(2) elig by simp
    have max: "?v ! j + ?w ! j \<le> ?v ! b + ?w ! b" if "j < ?n" for j
      using chosen(3) [of j] that elig bump(1) [OF b] bump(1) [OF that] by (simp add: word_sless_alt)
    obtain c where peers': "peers' = peers\<lparr>ps_peer := (rr_bumped now (rrp_tried rrp) ?ps ?n)
        [b := (rr_bump (?ps ! b))\<lparr>p_current_weight := p_current_weight (rr_bump (?ps ! b)) - ?tot, p_checked := c\<rparr>]\<rparr>"
      using chosen(5) unfolding elig by blast
    have nth: "ps_peer peers' ! j = (if j = b then (rr_bump (?ps ! b))\<lparr>p_current_weight := p_current_weight (rr_bump (?ps ! b)) - ?tot, p_checked := c\<rparr>
        else rr_bump (?ps ! j))" if "j < ?n" for j
      using that n elig by (auto simp: peers' nth_list_update rr_bumped_nth)
    have len: "length (ps_peer peers') = ?n" using n by (simp add: peers')
    let ?v' = "(map2 (+) ?v ?w)[b := ?v ! b + ?w ! b - ?t]"
    have step: "wrr_step ?w ?v b ?v'" using b n max by (simp add: wrr_step_def rr_weights_def rr_view_def)
    have "\<forall>x\<in>set ?w. 0 \<le> x" using up by (auto simp: rr_up_def rr_live_def rr_weights_def)
    then have "- ?t < ?v' ! b"
      using wrr_inv_nth [OF wrr_step_inv [OF step inv _ t(4)], of b] b lens by simp
    then have "- (2 ^ 31) \<le> ?v ! b + ?w ! b - ?t" "?v ! b + ?w ! b - ?t < 2 ^ 31"
      using bump(2) [OF b] t b lens by simp_all
    then have cb: "sint (p_current_weight (rr_bump (?ps ! b)) - ?tot) = ?v ! b + ?w ! b - ?t"
      by (simp add: sint_arith bump(1) [OF b] tot)
    have "rr_view peers' = ?v'"
    proof (rule nth_equalityI)
      show "length (rr_view peers') = length ?v'" using len lens by (simp add: rr_view_def)
      fix i
      assume "i < length (rr_view peers')"
      then have i: "i < ?n" using len by (simp add: rr_view_def)
      then have "rr_view peers' ! i = sint (p_current_weight (ps_peer peers' ! i))" using len by (simp add: rr_view_def)
      then show "rr_view peers' ! i = ?v' ! i" using i b lens cb bump(1) [OF i] by (auto simp: nth nth_list_update)
    qed
    moreover have "rr_weights peers' = ?w"
      using n len by (intro nth_equalityI) (auto simp: rr_weights_def nth rr_bump_def)
    moreover have "rr_up peers'"
    proof -
      have "rr_live (ps_peer peers' ! i)" if "i < ?n" for i using up that n b by (simp add: rr_up_def nth)
      with up len n show ?thesis unfolding rr_up_def all_set_conv_all_nth by (simp add: peers')
    qed
    ultimately show ?thesis
      using chosen(1,4) step by (auto simp: peers')
  qed
qed

section \<open>Requests\<close>

text \<open>A request that is served: its peer is chosen at one time and freed at another.\<close>

definition rr_request ::
  "ngx_peer_connection_t \<Rightarrow> time_t \<times> time_t \<Rightarrow> ngx_http_upstream_rr_peers_t list \<Rightarrow> ngx_rc \<times> nat \<times> ngx_http_upstream_rr_peers_t list" where
  "rr_request pc = (\<lambda>(t1, t2) groups.
    (let (pc, rrp) = ngx_http_upstream_init_round_robin_peer groups pc;
         (rc, pc, rrp, groups) = ngx_http_upstream_get_round_robin_peer t1 pc rrp groups;
         (pc, groups) = ngx_http_upstream_free_round_robin_peer t2 pc rrp groups 0
     in (rc, rrp_current rrp, groups)))"

fun rr_requests ::
  "ngx_peer_connection_t \<Rightarrow> (time_t \<times> time_t) list \<Rightarrow> ngx_http_upstream_rr_peers_t list \<Rightarrow> (ngx_rc \<times> nat) list" where
  "rr_requests pc [] groups = []"
| "rr_requests pc (t # ts) groups =
    (case rr_request pc t groups of (rc, b, groups') \<Rightarrow> (rc, b) # rr_requests pc ts groups')"

lemma init_peer_tried:
  assumes "ngx_http_upstream_init_round_robin_peer groups pc = (pc', rrp)" "groups \<noteq> []"
  shows "rrp_peers rrp = 0" "\<And>i. i < ps_number (hd groups) \<Longrightarrow> \<not> rr_tried (rrp_tried rrp) i"
    "\<And>g. g \<in> set (take 2 groups) \<Longrightarrow> ps_number g \<le> 32 * length (rrp_tried rrp)"
proof -
  show "rrp_peers rrp = 0" using assms by (auto simp: ngx_http_upstream_init_round_robin_peer_def Let_def)
  show "\<not> rr_tried (rrp_tried rrp) i" if "i < ps_number (hd groups)" for i
  proof -
    have "i div 32 < length (rrp_tried rrp) \<and> (\<forall>w\<in>set (rrp_tried rrp). w = 0)"
      using assms(1) that by (auto simp: ngx_http_upstream_init_round_robin_peer_def Let_def split: if_splits)
    then have "rrp_tried rrp ! (i div 32) = 0" by simp
    then show ?thesis by (simp add: rr_tried_def)
  qed
  show "ps_number g \<le> 32 * length (rrp_tried rrp)" if "g \<in> set (take 2 groups)" for g
  proof -
    have "g = hd groups \<or> tl groups \<noteq> [] \<and> g = hd (tl groups)"
      using that assms(2) by (cases groups; cases "tl groups") (auto simp: numeral_2_eq_2)
    then show ?thesis
      using assms(1) by (auto simp: ngx_http_upstream_init_round_robin_peer_def Let_def split: if_splits)
  qed
qed

lemma request_refines:
  assumes up: "rr_up peers" and small: "rr_small peers" and inv: "wrr_inv (rr_weights peers) (rr_view peers)"
  shows "\<exists>b peers'. rr_request pc t [peers] = (NGX_OK, b, [peers']) \<and>
    wrr_step (rr_weights peers) (rr_view peers) b (rr_view peers') \<and> rr_up peers' \<and>
    rr_weights peers' = rr_weights peers \<and> ps_number peers' = ps_number peers"
proof -
  obtain t1 t2 where t: "t = (t1, t2)" by (cases t)
  obtain pc1 rrp where i: "ngx_http_upstream_init_round_robin_peer [peers] pc = (pc1, rrp)" by fastforce
  note tried = init_peer_tried [OF i]
  obtain b rrp' peers' where g: "ngx_http_upstream_get_peer t1 rrp peers = (Some b, rrp', peers')"
    and r: "rrp_current rrp' = b" "rrp_peers rrp' = 0" and step: "wrr_step (rr_weights peers) (rr_view peers) b (rr_view peers')"
    and up': "rr_up peers'" and same: "rr_weights peers' = rr_weights peers" "ps_number peers' = ps_number peers"
    using get_peer_refines [OF up small inv, of rrp t1] tried by auto
  have b: "b < length (ps_peer peers')"
    using wrr_step_less [OF step] arg_cong [OF same(1), of length] by (simp add: rr_weights_def)
  then have "ps_peer peers' ! b \<in> set (ps_peer peers')" by simp
  with up' have "p_fails (ps_peer peers' ! b) = 0" by (simp add: rr_up_def rr_live_def)
  then have "(ps_peer peers' ! b)\<lparr>p_fails := 0\<rparr> = ps_peer peers' ! b" by simp
  moreover have "\<not> ps_single peers" "\<not> ps_single peers'" using up up' by (simp_all add: rr_up_def)
  ultimately have "rr_request pc t [peers] = (NGX_OK, b, [peers'])"
    by (simp add: rr_request_def t i g r Let_def ngx_http_upstream_free_round_robin_peer_def)
  with step up' same show ?thesis by blast
qed

lemma requests_refine:
  assumes "rr_up peers" "rr_small peers" "wrr_inv (rr_weights peers) (rr_view peers)"
  shows "\<exists>bs v. rr_requests pc ts [peers] = map (Pair NGX_OK) bs \<and> wrr (rr_weights peers) (rr_view peers) bs v"
  using assms
proof (induction ts arbitrary: peers)
  case Nil
  show ?case by (auto intro: wrr.intros)
next
  case (Cons t ts)
  obtain b peers' where *: "rr_request pc t [peers] = (NGX_OK, b, [peers'])"
    "wrr_step (rr_weights peers) (rr_view peers) b (rr_view peers')" "rr_up peers'"
    "rr_weights peers' = rr_weights peers" "ps_number peers' = ps_number peers"
    using request_refines [OF Cons.prems] by blast
  have "rr_small peers'" using Cons.prems(2) * by (simp add: rr_small_def)
  moreover have "wrr_inv (rr_weights peers') (rr_view peers')"
    using wrr_step_inv [OF *(2) Cons.prems(3)] Cons.prems(1,2) *(4)
    by (auto simp: rr_up_def rr_live_def rr_small_def rr_weights_def)
  ultimately obtain bs v where "rr_requests pc ts [peers'] = map (Pair NGX_OK) bs"
    "wrr (rr_weights peers) (rr_view peers') bs v"
    using Cons.IH [OF *(3)] *(4) by auto
  with * show ?case by (intro exI [of _ "b # bs"] exI [of _ v]) (auto intro: wrr.intros)
qed

lemma length_requests: "length (rr_requests pc ts groups) = length ts"
  by (induction pc ts groups rule: rr_requests.induct) (auto split: prod.splits)

section \<open>The groups of a configuration\<close>

lemma rr_count_fill: "fst (rr_count backup servers) = length (rr_fill backup servers)"
proof -
  have "fst (foldl (\<lambda>(n, w) server. if us_backup server \<noteq> backup then (n, w)
        else (n + length (us_addrs server), w + of_nat (length (us_addrs server)) * us_weight server)) (n, w) servers) =
      n + length (rr_fill backup servers)" for n and w :: "32 word"
    by (induction servers arbitrary: n w) (auto simp: rr_fill_def)
  then show ?thesis by (simp add: rr_count_def)
qed

lemma rr_group_peers [simp]:
  "ps_number (rr_group host single backup servers) = length (rr_fill backup servers)"
  "ps_peer (rr_group host single backup servers) = rr_fill backup servers"
  "ps_single (rr_group host single backup servers) = single"
  by (auto simp: rr_group_def rr_count_fill [symmetric] split: prod.splits)

lemma rr_fill_fresh:
  "p \<in> set (rr_fill backup servers) \<Longrightarrow> \<exists>s\<in>set servers. \<exists>a. p = rr_peer_of s a"
  by (auto simp: rr_fill_def split: if_splits)

lemma sint_unat: "unat w < 2 ^ 31 \<Longrightarrow> sint w = int (unat w)" for w :: "32 word"
  by (simp add: sint_unat_cases)

lemma rr_group_up:
  assumes "\<forall>s\<in>set servers. \<not> us_down s \<and> unat (us_weight s) < 2 ^ 31"
  shows "rr_up (rr_group host False False servers)"
    "rr_view (rr_group host False False servers) = replicate (length (rr_fill False servers)) 0"
proof -
  have live: "rr_live p" if p: "p \<in> set (rr_fill False servers)" for p
  proof -
    obtain s a where sa: "s \<in> set servers" "p = rr_peer_of s a" using rr_fill_fresh [OF p] by blast
    with assms show ?thesis by (simp add: rr_live_def rr_peer_of_def sint_unat)
  qed
  then show "rr_up (rr_group host False False servers)" by (simp add: rr_up_def)
  have "p_current_weight p = 0" if "p \<in> set (rr_fill False servers)" for p
    using rr_fill_fresh [OF that] by (auto simp: rr_peer_of_def)
  then show "rr_view (rr_group host False False servers) = replicate (length (rr_fill False servers)) 0"
    by (intro replicate_eqI) (auto simp: rr_view_def)
qed

lemma rr_weights_unat:
  assumes "\<forall>p\<in>set (ps_peer peers). unat (p_weight p) < 2 ^ 31"
  shows "rr_weights peers = map (\<lambda>p. int (unat (p_weight p))) (ps_peer peers)"
  using assms by (auto simp: rr_weights_def sint_unat simp del: of_nat_unat)

section \<open>The invariant of the peers\<close>

text \<open>The effective weight stays between zero and the configured weight.\<close>

definition rr_weight_ok :: "ngx_http_upstream_rr_peer_t \<Rightarrow> bool" where
  "rr_weight_ok p \<longleftrightarrow> 0 \<le> sint (p_effective_weight p) \<and> sint (p_effective_weight p) \<le> sint (p_weight p)"

definition rr_wf :: "ngx_http_upstream_rr_peers_t \<Rightarrow> bool" where
  "rr_wf peers \<longleftrightarrow> ps_number peers = length (ps_peer peers) \<and> (\<forall>p\<in>set (ps_peer peers). rr_weight_ok p)"

lemma sint32_range: "- (2 ^ 31) \<le> sint w" "sint w < 2 ^ 31" for w :: "32 word"
  using sint_greater_eq [of w] sint_less [of w] by simp_all

lemma rr_weight_ok_bump: "rr_weight_ok p \<Longrightarrow> rr_weight_ok (rr_bump p)"
  using sint32_range [of "p_weight p"] by (auto simp: rr_weight_ok_def rr_bump_def word_sless_alt sint_arith)

lemma rr_weight_ok_update [simp]:
  "rr_weight_ok (p\<lparr>p_current_weight := x, p_checked := c\<rparr>) = rr_weight_ok p" "rr_weight_ok (p\<lparr>p_fails := f\<rparr>) = rr_weight_ok p"
  by (simp_all add: rr_weight_ok_def)

lemma fp_failed_ok:
  assumes "rr_weight_ok p"
  shows "rr_weight_ok (fp_failed now p)"
proof -
  let ?q = "p_weight p div p_max_fails p"
  have w: "0 \<le> sint (p_weight p)" using assms by (simp add: rr_weight_ok_def)
  then have "unat (p_weight p) < 2 ^ 31"
    using uint_lt2p [of "p_weight p"] by (simp add: sint_unat_cases split: if_splits)
  then have "unat ?q < 2 ^ 31" by (simp add: unat_div) (meson div_le_dividend order.strict_trans1)
  then have q: "0 \<le> sint ?q" by (simp add: sint_unat)
  have "sint (p_effective_weight p - ?q) = sint (p_effective_weight p) - sint ?q"
    using assms q sint32_range [of "p_weight p"] sint32_range [of ?q] by (intro sint_diff) (auto simp: rr_weight_ok_def)
  with assms q w show ?thesis by (auto simp: rr_weight_ok_def fp_failed_def Let_def word_sless_alt)
qed

lemma get_peer_wf:
  assumes "rr_wf peers"
  shows "rr_wf (snd (snd (ngx_http_upstream_get_peer now rrp peers)))"
proof -
  have n: "ps_number peers = length (ps_peer peers)" using assms by (simp add: rr_wf_def)
  then show ?thesis
  proof (cases rule: get_peer_cases [where now = now and rrp = rrp])
    case busy
    with assms show ?thesis by simp
  next
    case (chosen b rrp' peers')
    have "rr_weight_ok (rr_bumped now (rrp_tried rrp) (ps_peer peers) (ps_number peers) ! i)" if "i < ps_number peers" for i
      using assms that by (auto simp: rr_wf_def rr_bumped_nth rr_weight_ok_bump)
    moreover have "rr_weight_ok (rr_bump (ps_peer peers ! b))"
      using assms chosen(2) by (auto simp: rr_wf_def rr_elig_def rr_weight_ok_bump)
    moreover have "b < ps_number peers" using chosen(2) by (simp add: rr_elig_def)
    ultimately show ?thesis using chosen(1,5) n by (auto simp: rr_wf_def all_set_conv_all_nth nth_list_update)
  qed
qed

lemma mark_live_wf: "rr_wf peers \<Longrightarrow> rr_wf (mark_live peers)"
  by (auto simp: rr_wf_def mark_live_def)

lemma get_round_robin_wf:
  "ngx_http_upstream_get_round_robin_peer now pc rrp groups = (rc, pc', rrp', groups') \<Longrightarrow> \<forall>g\<in>set groups. rr_wf g \<Longrightarrow>
    \<forall>g\<in>set groups'. rr_wf g"
proof (induction now pc rrp groups arbitrary: rc pc' rrp' groups' rule: ngx_http_upstream_get_round_robin_peer.induct)
  case (2 now pc rrp peers nxt)
  obtain choice rrp1 peers1 where sel: "(if ps_single peers then (if p_down (ps_peer peers ! 0) then None else Some 0, rrp, peers)
     else ngx_http_upstream_get_peer now rrp peers) = (choice, rrp1, peers1)" by (metis prod_cases3)
  have wf1: "rr_wf peers1" using sel 2(3) get_peer_wf [of peers now rrp] by (auto split: if_splits)
  show ?case
  proof (cases choice)
    case (Some i)
    then have "groups' = peers1 # nxt" using 2(2) sel by (auto simp: Let_def)
    with wf1 2(3) show ?thesis by simp
  next
    case None
    let ?pc = "pc\<lparr>pc_cached := False, pc_connection := False, pc_tries := ps_number (hd nxt)\<rparr>"
    let ?rrp = "rrp1\<lparr>rrp_peers := rrp_peers rrp1 + 1, rrp_tried := clear_tried (ps_number (hd nxt)) (rrp_tried rrp1)\<rparr>"
    obtain rc2 pc2 rrp2 nxt2 where n: "(if nxt = [] then (NGX_BUSY, pc\<lparr>pc_cached := False, pc_connection := False\<rparr>, rrp1, [])
      else ngx_http_upstream_get_round_robin_peer now ?pc ?rrp nxt) = (rc2, pc2, rrp2, nxt2)" by (metis prod_cases4)
    have "\<forall>g\<in>set nxt2. rr_wf g"
    proof (cases "nxt = []")
      case False
      with n have "ngx_http_upstream_get_round_robin_peer now ?pc ?rrp nxt = (rc2, pc2, rrp2, nxt2)" by simp
      with 2(1) [OF refl sel [symmetric] refl refl None False] 2(3) show ?thesis by simp
    qed (use n in auto)
    moreover have "groups' = (if rc2 \<noteq> NGX_BUSY then peers1 else mark_live peers1) # nxt2"
      using 2(2) sel n None by (auto simp: Let_def split: if_splits prod.splits)
    ultimately show ?thesis using wf1 mark_live_wf by auto
  qed
qed simp

text \<open>
  What any number of requests can do to the groups of an upstream: each step is a choice or
  the end of a connection of some request, in the group its data points to.
\<close>

inductive rr_reachable ::
  "(byte list \<Rightarrow> nat \<Rightarrow> ngx_addr_t list option) \<Rightarrow> byte list \<Rightarrow> nat \<Rightarrow> ngx_http_upstream_server_t list option \<Rightarrow>
    ngx_http_upstream_rr_peers_t list \<Rightarrow> bool"
  for resolve host port servers where
  rr_init: "ngx_http_upstream_init_round_robin resolve host port servers = (NGX_OK, groups) \<Longrightarrow>
    rr_reachable resolve host port servers groups"
| rr_get: "rr_reachable resolve host port servers groups \<Longrightarrow>
    ngx_http_upstream_get_round_robin_peer now pc rrp (drop (rrp_peers rrp) groups) = (rc, pc', rrp', groups') \<Longrightarrow>
    rr_reachable resolve host port servers (take (rrp_peers rrp) groups @ groups')"
| rr_free: "rr_reachable resolve host port servers groups \<Longrightarrow>
    ngx_http_upstream_free_round_robin_peer now pc rrp groups state = (pc', groups') \<Longrightarrow>
    rr_reachable resolve host port servers groups'"

lemma init_round_robin_wf:
  assumes "ngx_http_upstream_init_round_robin resolve host port servers = (NGX_OK, groups)"
    and "\<forall>ss. servers = Some ss \<longrightarrow> (\<forall>s\<in>set ss. unat (us_weight s) < 2 ^ 31)"
  shows "\<forall>g\<in>set groups. rr_wf g"
proof (cases servers)
  case None
  with assms show ?thesis
    by (auto simp: ngx_http_upstream_init_round_robin_def rr_wf_def rr_weight_ok_def rr_implicit_peer_def split: if_splits option.splits)
next
  case (Some ss)
  have "rr_weight_ok p" if p: "p \<in> set (rr_fill backup ss)" for p backup
  proof -
    obtain s a where "s \<in> set ss" "p = rr_peer_of s a" using rr_fill_fresh [OF p] by blast
    with assms(2) Some show ?thesis by (simp add: rr_weight_ok_def rr_peer_of_def sint_unat)
  qed
  with assms(1) Some show ?thesis
    by (auto simp: ngx_http_upstream_init_round_robin_def rr_wf_def split: if_splits)
qed

lemma free_round_robin_wf:
  assumes "ngx_http_upstream_free_round_robin_peer now pc rrp groups state = (pc', groups')" "\<forall>g\<in>set groups. rr_wf g"
  shows "\<forall>g\<in>set groups'. rr_wf g"
proof (cases "rrp_peers rrp < length groups")
  case True
  let ?g = "groups ! rrp_peers rrp"
  let ?p = "ps_peer ?g ! rrp_current rrp"
  let ?q = "if state AND NGX_PEER_FAILED \<noteq> 0 then fp_failed now ?p else if p_accessed ?p <s p_checked ?p then ?p\<lparr>p_fails := 0\<rparr> else ?p"
  have g: "rr_wf ?g" using assms(2) True by simp
  have "rr_wf (?g\<lparr>ps_peer := (ps_peer ?g)[rrp_current rrp := ?q]\<rparr>)"
  proof (cases "rrp_current rrp < length (ps_peer ?g)")
    case True
    with g have "rr_weight_ok ?p" by (simp add: rr_wf_def)
    then have "rr_weight_ok ?q" by (simp add: fp_failed_ok)
    with g show ?thesis by (auto simp: rr_wf_def dest!: set_update_subset_insert [THEN subsetD])
  next
    case False
    with g show ?thesis by (simp add: rr_wf_def list_update_beyond)
  qed
  with assms show ?thesis
    by (auto simp: ngx_http_upstream_free_round_robin_peer_def Let_def split: if_splits dest!: set_update_subset_insert [THEN subsetD])
next
  case False
  with assms show ?thesis
    by (auto simp: ngx_http_upstream_free_round_robin_peer_def Let_def list_update_beyond split: if_splits)
qed

lemma sum_list_int: "(\<Sum>x\<leftarrow>xs. int (f x)) = int (\<Sum>x\<leftarrow>xs. f x)"
  by (induction xs) auto

section \<open>The choice and the backup group\<close>

lemma length_clear [simp]: "length (foldl (\<lambda>t i. t[i := 0]) t [0..<k]) = length t" for t :: "32 word list"
  by (induction k) auto

lemma clear_tried_nth:
  "j < length t \<Longrightarrow> foldl (\<lambda>t i. t[i := 0]) t [0..<k] ! j = (if j < k then 0 else t ! j)" for t :: "32 word list"
proof (induction k)
  case (Suc k)
  then show ?case by (cases "j = k") auto
qed simp

lemma rr_tried_clear:
  assumes "i < n" "n \<le> 32 * length t"
  shows "\<not> rr_tried (clear_tried n t) i"
proof -
  have "(i + 32) div 32 \<le> (n + 31) div 32" using assms(1) by (intro div_le_mono) simp
  then have "i div 32 < (n + 31) div 32" by simp
  moreover have "i div 32 < length t" using assms by auto
  ultimately show ?thesis by (simp add: rr_tried_def clear_tried_def clear_tried_nth)
qed

text \<open>A peer that may be tried: not down, and not failed within its timeout.\<close>

definition rr_usable :: "time_t \<Rightarrow> ngx_http_upstream_rr_peer_t \<Rightarrow> bool" where
  "rr_usable now p \<longleftrightarrow> \<not> p_down p \<and>
    \<not> (p_max_fails p \<noteq> 0 \<and> p_fails p \<ge> p_max_fails p \<and> now - p_checked p \<le>s p_fail_timeout p)"

lemma rr_elig_iff:
  "i \<in> set (rr_elig now tried ps k) \<longleftrightarrow> i < k \<and> \<not> rr_tried tried i \<and> rr_usable now (ps ! i)"
  by (auto simp: rr_elig_def rr_eligible_def rr_usable_def rr_tried_def tried_bit_and)

lemma get_peer_None_iff:
  assumes "rr_sized n g"
  shows "fst (ngx_http_upstream_get_peer now rrp g) = None \<longleftrightarrow>
    (\<forall>i<n. rr_tried (rrp_tried rrp) i \<or> \<not> rr_usable now (ps_peer g ! i))"
proof -
  have n: "ps_number g = length (ps_peer g)" "ps_number g = n" using assms by (simp_all add: rr_sized_def)
  from n(1) show ?thesis
  proof (cases rule: get_peer_cases [where now = now and rrp = rrp])
    case busy
    then have "i \<notin> set (rr_elig now (rrp_tried rrp) (ps_peer g) n)" for i using n by simp
    then show ?thesis using busy by (auto simp: rr_elig_iff)
  next
    case (chosen b rrp' g')
    then show ?thesis using n by (auto simp: rr_elig_iff)
  qed
qed

lemma get_peer_SomeD:
  assumes "ngx_http_upstream_get_peer now rrp g = (Some b, rrp', g')" "rr_sized n g"
  shows "b < n \<and> \<not> rr_tried (rrp_tried rrp) b \<and> rr_usable now (ps_peer g ! b) \<and> rrp_current rrp' = b \<and>
    rrp_peers rrp' = rrp_peers rrp \<and> p_sockaddr (ps_peer g' ! b) = p_sockaddr (ps_peer g ! b)"
proof -
  have n: "ps_number g = length (ps_peer g)" "ps_number g = n" using assms by (simp_all add: rr_sized_def)
  from n(1) show ?thesis
  proof (cases rule: get_peer_cases [where now = now and rrp = rrp])
    case busy
    with assms show ?thesis by simp
  next
    case (chosen c rrp1 g1)
    with assms n show ?thesis by (auto simp: rr_elig_iff rr_bumped_nth rr_bump_def)
  qed
qed

lemma mark_live_fails: "rr_sized n g \<Longrightarrow> \<forall>p\<in>set (ps_peer (mark_live g)). p_fails p = 0"
  by (auto simp: mark_live_def rr_sized_def)

lemma get_peer_sized: "rr_sized n g \<Longrightarrow> rr_sized n (snd (snd (ngx_http_upstream_get_peer now rrp g)))"
  by (cases rule: get_peer_cases [where now = now and rrp = rrp and peers = g]) (auto simp: rr_sized_def)

section \<open>Properties\<close>

text \<open>
  C5. Smooth weighted round robin is fair. Take an upstream of several servers, none of them
  a backup or down, with weights small enough for 32 bits. When as many requests as the sum of
  the weights have been served, none of them failing, each peer was chosen exactly as often as
  its weight, whatever the times of the requests.
\<close>

theorem round_robin_fair:
  assumes init: "ngx_http_upstream_init_round_robin resolve host port (Some servers) = (NGX_OK, [peers])"
    and several: "2 \<le> ps_number peers"
    and up: "\<forall>s\<in>set servers. \<not> us_down s"
    and small: "\<forall>s\<in>set servers. unat (us_weight s) < 2 ^ 31"
      "ps_number peers * (\<Sum>p\<leftarrow>ps_peer peers. unat (p_weight p)) < 2 ^ 31"
    and pos: "0 < (\<Sum>p\<leftarrow>ps_peer peers. unat (p_weight p))"
    and len: "length ts = (\<Sum>p\<leftarrow>ps_peer peers. unat (p_weight p))"
  shows "(\<forall>x\<in>set (rr_requests pc ts [peers]). fst x = NGX_OK) \<and>
    (\<forall>i < ps_number peers. count_list (map snd (rr_requests pc ts [peers])) i = unat (p_weight (ps_peer peers ! i)))"
proof -
  have g: "peers = rr_group host False False servers"
    using init several by (auto simp: ngx_http_upstream_init_round_robin_def rr_count_fill split: if_splits)
  have rup: "rr_up peers" and view: "rr_view peers = replicate (length (rr_fill False servers)) 0"
    using rr_group_up [of servers host] up small(1) g by auto
  have "\<forall>p\<in>set (ps_peer peers). unat (p_weight p) < 2 ^ 31"
    using rr_fill_fresh small(1) by (fastforce simp: g rr_peer_of_def)
  then have w: "rr_weights peers = map (\<lambda>p. int (unat (p_weight p))) (ps_peer peers)" by (rule rr_weights_unat)
  have sum: "sum_list (rr_weights peers) = int (\<Sum>p\<leftarrow>ps_peer peers. unat (p_weight p))"
    unfolding w sum_list_int by simp
  have "int (ps_number peers * (\<Sum>p\<leftarrow>ps_peer peers. unat (p_weight p))) < 2 ^ 31"
    using small(2) by (metis of_nat_less_iff of_nat_numeral of_nat_power)
  then have rsmall: "rr_small peers" using pos by (simp add: rr_small_def sum del: of_nat_unat)
  have n: "ps_number peers = length (ps_peer peers)" "length (rr_weights peers) = ps_number peers"
    and lf: "length (rr_fill False servers) = ps_number peers"
    by (simp_all add: g rr_weights_def)
  have "wrr_inv (rr_weights peers) (rr_view peers)"
    using pos sum n by (auto simp: wrr_inv_def view sum_list_replicate lf)
  with requests_refine [OF rup rsmall] obtain bs v where run:
    "rr_requests pc ts [peers] = map (Pair NGX_OK) bs" "wrr (rr_weights peers) (rr_view peers) bs v" by blast
  have "length bs = length ts" using arg_cong [OF run(1), of length] by (simp add: length_requests)
  then have fair: "int (count_list bs i) = rr_weights peers ! i" if "i < ps_number peers" for i
    using wrr_fair [of "rr_weights peers" bs v i] run(2) that n len sum pos rup
    by (auto simp: view lf rr_weights_def rr_up_def rr_live_def)
  have "map snd (rr_requests pc ts [peers]) = bs" using run(1) by (simp add: comp_def)
  moreover have "rr_weights peers ! i = int (unat (p_weight (ps_peer peers ! i)))" if "i < ps_number peers" for i
    using that n unfolding w by (simp del: of_nat_unat)
  ultimately have "\<forall>i < ps_number peers. count_list (map snd (rr_requests pc ts [peers])) i = unat (p_weight (ps_peer peers ! i))"
    using fair by (metis of_nat_eq_iff)
  then show ?thesis using run(1) by auto
qed

definition rr_server :: "string \<Rightarrow> nat \<Rightarrow> ngx_http_upstream_server_t" where
  "rr_server name w = \<lparr>us_name = bytes name, us_addrs = [\<lparr>a_sockaddr = bytes name, a_name = bytes name\<rparr>], us_weight = of_nat w,
     us_max_fails = 1, us_fail_timeout = 10, us_down = False, us_backup = False\<rparr>"

definition rr_example :: "ngx_http_upstream_rr_peers_t list" where
  "rr_example = snd (ngx_http_upstream_init_round_robin (\<lambda>h p. None) [] 80 (Some [rr_server ''a'' 5, rr_server ''b'' 1, rr_server ''c'' 1]))"

definition pc_example :: ngx_peer_connection_t where
  "pc_example = \<lparr>pc_connection = False, pc_sockaddr = [], pc_name = [], pc_tries = 0, pc_cached = False\<rparr>"

lemma rr_example_simps:
  "ngx_http_upstream_init_round_robin (\<lambda>h p. None) [] 80 (Some [rr_server ''a'' 5, rr_server ''b'' 1, rr_server ''c'' 1]) =
    (NGX_OK, [hd rr_example])"
  "ps_number (hd rr_example) = 3" "map (\<lambda>p. unat (p_weight p)) (ps_peer (hd rr_example)) = [5, 1, 1]"
  by (simp_all add: rr_example_def ngx_http_upstream_init_round_robin_def rr_count_def rr_group_def rr_fill_def rr_server_def rr_peer_of_def)

theorem round_robin_fair_witness:
  "let rs = rr_requests pc_example (replicate 7 (0, 1)) [hd rr_example] in
   fst (hd rs) = NGX_OK \<and> count_list (map snd rs) 0 = 5 \<and> count_list (map snd rs) 1 = 1 \<and> count_list (map snd rs) 2 = 1"
proof -
  let ?rs = "rr_requests pc_example (replicate 7 (0, 1)) [hd rr_example]"
  note ex = rr_example_simps
  have w: "unat (p_weight (ps_peer (hd rr_example) ! i)) = [5, 1, 1] ! i" if "i < 3" for i
    using arg_cong [OF ex(3), of "\<lambda>xs. xs ! i"] arg_cong [OF ex(3), of length] that by simp
  have "rr_requests pc_example (replicate 7 (0, 1)) [hd rr_example] \<noteq> []"
    using length_requests [of pc_example "replicate 7 (0, 1)" "[hd rr_example]"] by auto
  moreover have "(\<forall>x\<in>set ?rs. fst x = NGX_OK) \<and>
      (\<forall>i < ps_number (hd rr_example). count_list (map snd ?rs) i = unat (p_weight (ps_peer (hd rr_example) ! i)))"
    by (rule round_robin_fair [OF ex(1)]) (simp_all add: ex(2,3) rr_server_def)
  ultimately show ?thesis using w [of 0] w [of 1] w [of 2] by (simp add: ex(2) Let_def numeral_2_eq_2)
qed



text \<open>
  C25. In every state that any requests can bring the groups of an upstream to, by choosing
  peers and by ending connections with or without a failure, in any order, the number of peers
  is right and every effective weight is between zero and the configured weight.
\<close>

theorem round_robin_weights:
  assumes "rr_reachable resolve host port servers groups"
    and "\<forall>ss. servers = Some ss \<longrightarrow> (\<forall>s\<in>set ss. unat (us_weight s) < 2 ^ 31)"
  shows "\<forall>g\<in>set groups. ps_number g = length (ps_peer g) \<and>
    (\<forall>p\<in>set (ps_peer g). 0 \<le> sint (p_effective_weight p) \<and> sint (p_effective_weight p) \<le> sint (p_weight p))"
proof -
  have "\<forall>g\<in>set groups. rr_wf g"
    using assms
  proof (induction rule: rr_reachable.induct)
    case (rr_init groups)
    then show ?case by (rule init_round_robin_wf)
  next
    case (rr_get groups now pc rrp rc pc' rrp' groups')
    have "\<forall>g\<in>set (drop (rrp_peers rrp) groups). rr_wf g" using rr_get by (auto dest: in_set_dropD)
    from get_round_robin_wf [OF rr_get.hyps(2) this] rr_get show ?case by (auto dest: in_set_takeD)
  next
    case (rr_free groups now pc rrp state pc' groups')
    then show ?case using free_round_robin_wf by blast
  qed
  then show ?thesis by (simp add: rr_wf_def rr_weight_ok_def)
qed

theorem round_robin_weights_witness:
  "case ngx_http_upstream_free_round_robin_peer 5 pc_example (snd (ngx_http_upstream_init_round_robin_peer [hd rr_example] pc_example))
      [hd rr_example] NGX_PEER_FAILED of (pc, groups) \<Rightarrow>
    map (\<lambda>p. sint (p_effective_weight p)) (ps_peer (hd groups)) = [0, 1, 1] \<and>
    (\<forall>p\<in>set (ps_peer (hd groups)). sint (p_effective_weight p) \<le> sint (p_weight p))"
proof -
  let ?rrp = "snd (ngx_http_upstream_init_round_robin_peer [hd rr_example] pc_example)"
  let ?x = "ngx_http_upstream_free_round_robin_peer 5 pc_example ?rrp [hd rr_example] NGX_PEER_FAILED"
  let ?ss = "[rr_server ''a'' 5, rr_server ''b'' 1, rr_server ''c'' 1]"
  have "rr_reachable (\<lambda>h p. None) [] 80 (Some ?ss) (snd ?x)"
    by (rule rr_free [OF rr_init [OF rr_example_simps(1)]]) (rule prod.collapse [symmetric])
  from round_robin_weights [OF this]
  have "\<forall>g\<in>set (snd ?x). \<forall>p\<in>set (ps_peer g). sint (p_effective_weight p) \<le> sint (p_weight p)"
    by (simp add: rr_server_def)
  moreover have "map (\<lambda>p. sint (p_effective_weight p)) (ps_peer (hd (snd ?x))) = [0, 1, 1] \<and> snd ?x \<noteq> []" by code_simp
  ultimately show ?thesis by (cases "snd ?x") (auto simp: case_prod_unfold)
qed

text \<open>
  C26. The choice with a backup group. A request is given a usable peer it has not tried while
  the first group has one, then a usable peer of the backup group; only when no group has one
  is it refused, and then the failures of all peers are forgotten.
\<close>

theorem round_robin_choice:
  assumes "rr_sized n g" "rr_sized k h" "\<not> ps_single g" "\<not> ps_single h" "k \<le> 32 * length (rrp_tried rrp)"
    and "ngx_http_upstream_get_round_robin_peer now pc rrp [g, h] = (rc, pc', rrp', groups)"
  shows "if \<exists>i<n. \<not> rr_tried (rrp_tried rrp) i \<and> rr_usable now (ps_peer g ! i)
    then rc = NGX_OK \<and> rrp_peers rrp' = rrp_peers rrp \<and> rrp_current rrp' < n \<and>
      \<not> rr_tried (rrp_tried rrp) (rrp_current rrp') \<and> rr_usable now (ps_peer g ! rrp_current rrp') \<and>
      pc_sockaddr pc' = p_sockaddr (ps_peer g ! rrp_current rrp')
    else if \<exists>i<k. rr_usable now (ps_peer h ! i)
    then rc = NGX_OK \<and> rrp_peers rrp' = rrp_peers rrp + 1 \<and> rrp_current rrp' < k \<and>
      rr_usable now (ps_peer h ! rrp_current rrp') \<and> pc_sockaddr pc' = p_sockaddr (ps_peer h ! rrp_current rrp')
    else rc = NGX_BUSY \<and> (\<forall>g\<in>set groups. \<forall>p\<in>set (ps_peer g). p_fails p = 0)"
proof -
  obtain b1 r1 g1 where 1: "ngx_http_upstream_get_peer now rrp g = (b1, r1, g1)" by (metis prod_cases3)
  note none1 = get_peer_None_iff [OF assms(1), of now rrp, unfolded 1, simplified]
  show ?thesis
  proof (cases b1)
    case (Some b)
    with get_peer_SomeD [OF 1 [unfolded Some] assms(1)] none1 assms(3,6) 1 show ?thesis by (auto simp: Let_def split: if_splits)
  next
    case None
    have "ps_number g = length (ps_peer g)" using assms(1) by (simp add: rr_sized_def)
    then have r1: "r1 = rrp \<and> g1 = g"
      by (cases rule: get_peer_cases [where now = now and rrp = rrp]) (use 1 None in auto)
    let ?rrp = "rrp\<lparr>rrp_peers := rrp_peers rrp + 1, rrp_tried := clear_tried k (rrp_tried rrp)\<rparr>"
    obtain b2 r2 h2 where 2: "ngx_http_upstream_get_peer now ?rrp h = (b2, r2, h2)" by (metis prod_cases3)
    have fresh: "\<not> rr_tried (rrp_tried ?rrp) i" if "i < k" for i using rr_tried_clear [OF that assms(5)] by simp
    note none2 = get_peer_None_iff [OF assms(2), of now ?rrp, unfolded 2, simplified]
    have k: "ps_number h = k" using assms(2) by (simp add: rr_sized_def)
    show ?thesis
    proof (cases b2)
      case (Some b)
      with get_peer_SomeD [OF 2 [unfolded Some] assms(2)] none1 none2 None assms(3,4,6) 1 2 r1 k fresh show ?thesis
        by (auto simp: Let_def split: if_splits)
    next
      case b2: None
      have "rr_sized n g" "rr_sized k h2" using assms(1) get_peer_sized [OF assms(2), of now ?rrp] 2 by auto
      then have "\<forall>p\<in>set (ps_peer (mark_live g)). p_fails p = 0" "\<forall>p\<in>set (ps_peer (mark_live h2)). p_fails p = 0"
        by (auto dest: mark_live_fails)
      with b2 none1 none2 None assms(3,4,6) 1 2 r1 k fresh show ?thesis by (auto simp: Let_def split: if_splits)
    qed
  qed
qed

theorem round_robin_choice_witness:
  "let g = hd rr_example; h = mark_live g; down = g\<lparr>ps_peer := map (\<lambda>p. p\<lparr>p_down := True\<rparr>) (ps_peer g)\<rparr>;
       rrp = \<lparr>rrp_peers = 0, rrp_current = 0, rrp_tried = [0]\<rparr>;
       (rc, pc, rrp', groups) = ngx_http_upstream_get_round_robin_peer 0 pc_example rrp [down, h]
   in rc = NGX_OK \<and> rrp_peers rrp' = 1 \<and> rrp_current rrp' < 3"
proof -
  let ?g = "hd rr_example" and ?rrp = "\<lparr>rrp_peers = 0, rrp_current = 0, rrp_tried = [0]\<rparr>"
  let ?h = "mark_live ?g" and ?d = "?g\<lparr>ps_peer := map (\<lambda>p. p\<lparr>p_down := True\<rparr>) (ps_peer ?g)\<rparr>"
  let ?x = "ngx_http_upstream_get_round_robin_peer 0 pc_example ?rrp [?d, ?h]"
  have sz: "rr_sized 3 ?d" "rr_sized 3 ?h" "\<not> ps_single ?d" "\<not> ps_single ?h"
    and us: "\<not> (\<exists>i<3. rr_usable 0 (ps_peer ?d ! i))" "rr_usable 0 (ps_peer ?h ! 0)"
    unfolding rr_sized_def by code_simp+
  have x: "?x = (fst ?x, fst (snd ?x), fst (snd (snd ?x)), snd (snd (snd ?x)))" by simp
  from round_robin_choice [OF sz _ x] us show ?thesis by (auto simp: Let_def case_prod_unfold split: if_splits)
qed

end
