(* ===== verification/Base64.thy ===== *)
theory Base64
  imports Prelude
begin

text \<open>
  Base64 of \<open>src/core/ngx_string.c\<close>: \<open>ngx_encode_base64\<close>, \<open>ngx_encode_base64url\<close>,
  \<open>ngx_decode_base64\<close> and \<open>ngx_decode_base64url\<close>, with their tables. A string (\<open>ngx_str_t\<close>) is
  the list of its bytes; the result is the list of the bytes written to \<open>dst\<close>.
\<close>

section \<open>Encoding\<close>






section \<open>Decoding\<close>










section \<open>Six bits at a time\<close>









section \<open>A pair of tables\<close>










section \<open>Properties\<close>


end
