(* ===== verification/Uri_Escape.thy ===== *)
theory Uri_Escape
  imports Digits
begin

text \<open>
  \<open>ngx_escape_uri\<close> and \<open>ngx_unescape_uri\<close> of \<open>src/core/ngx_string.c\<close>, with the seven tables of
  bytes to be escaped. Strings are lists of bytes.
\<close>

section \<open>Escaping\<close>

definition esc_uri :: "uint32_t list" where
  "esc_uri = [0xffffffff, 0x80000029, 0x00000000, 0x80000000, 0xffffffff, 0xffffffff, 0xffffffff, 0xffffffff]"

definition esc_args :: "uint32_t list" where
  "esc_args = [0xffffffff, 0x88000869, 0x00000000, 0x80000000, 0xffffffff, 0xffffffff, 0xffffffff, 0xffffffff]"

definition esc_uri_component :: "uint32_t list" where
  "esc_uri_component = [0xffffffff, 0xfc009fff, 0x78000001, 0xb8000001, 0xffffffff, 0xffffffff, 0xffffffff, 0xffffffff]"

definition esc_html :: "uint32_t list" where
  "esc_html = [0xffffffff, 0x000000ad, 0x00000000, 0x80000000, 0xffffffff, 0xffffffff, 0xffffffff, 0xffffffff]"

definition esc_refresh :: "uint32_t list" where
  "esc_refresh = [0xffffffff, 0x00000085, 0x00000000, 0x80000000, 0xffffffff, 0xffffffff, 0xffffffff, 0xffffffff]"

definition esc_memcached :: "uint32_t list" where
  "esc_memcached = [0xffffffff, 0x00000021, 0x00000000, 0x00000000, 0x00000000, 0x00000000, 0x00000000, 0x00000000]"

definition esc_map :: "uint32_t list list" where
  "esc_map = [esc_uri, esc_args, esc_uri_component, esc_html, esc_refresh, esc_memcached, esc_memcached]"

definition escaped :: "nat \<Rightarrow> byte \<Rightarrow> bool" where
  "escaped type c \<longleftrightarrow> (esc_map ! type) ! unat (drop_bit 5 c) AND push_bit (unat (c AND 0x1f)) 1 \<noteq> 0"

definition esc_hex :: "byte list" where
  "esc_hex = bytes ''0123456789abcdef''"

lemma esc_hex_code [code]:
  "esc_hex = [0x30, 0x31, 0x32, 0x33, 0x34, 0x35, 0x36, 0x37, 0x38, 0x39, 0x61, 0x62, 0x63, 0x64, 0x65, 0x66]"
  by (simp add: esc_hex_def bytes_def)

text \<open>With \<open>dst == NULL\<close> the bytes to be escaped are counted.\<close>

fun ngx_escape_uri_count :: "byte list \<Rightarrow> nat \<Rightarrow> nat" where
  "ngx_escape_uri_count [] type = 0"
| "ngx_escape_uri_count (c # src) type = (if escaped type c then 1 else 0) + ngx_escape_uri_count src type"

fun ngx_escape_uri :: "byte list \<Rightarrow> nat \<Rightarrow> byte list" where
  "ngx_escape_uri [] type = []"
| "ngx_escape_uri (c # src) type =
    (if escaped type c
     then [c_percent, esc_hex ! unat (drop_bit 4 c), esc_hex ! unat (c AND 0xf)] @ ngx_escape_uri src type
     else c # ngx_escape_uri src type)"

section \<open>Unescaping\<close>

datatype ue_state = ue_usual | ue_quoted | ue_quoted_second

definition NGX_UNESCAPE_URI :: ngx_uint_t where
  "NGX_UNESCAPE_URI = 1"

definition NGX_UNESCAPE_REDIRECT :: ngx_uint_t where
  "NGX_UNESCAPE_REDIRECT = 2"

abbreviation put_bytes :: "byte list \<Rightarrow> byte list \<times> byte list \<Rightarrow> byte list \<times> byte list" where
  "put_bytes bs \<equiv> apfst ((@) bs)"

text \<open>
  The loop over \<open>s\<close>: what it writes and what it leaves unread. \<open>prev\<close> is the byte read before,
  \<open>*(s - 2)\<close> once \<open>ch\<close> has been read.
\<close>

function ue_loop :: "ngx_uint_t \<Rightarrow> ue_state \<Rightarrow> byte \<Rightarrow> byte \<Rightarrow> byte list \<Rightarrow> byte list \<times> byte list" where
  "ue_loop type st decoded prev [] = ([], [])"
| "ue_loop type ue_usual decoded prev (ch # s) =
    (if ch = c_quest \<and> type AND (NGX_UNESCAPE_URI OR NGX_UNESCAPE_REDIRECT) \<noteq> 0 then ([ch], s)
     else if ch = c_percent then ue_loop type ue_quoted decoded ch s
     else put_bytes [ch] (ue_loop type ue_usual decoded ch s))"
| "ue_loop type ue_quoted decoded prev (ch # s) =
    (if c_0 \<le> ch \<and> ch \<le> c_9 then ue_loop type ue_quoted_second (ch - c_0) ch s
     else
       let c = lower_bit ch in
       if c_a \<le> c \<and> c \<le> c_f then ue_loop type ue_quoted_second (c - c_a + 10) ch s
       else put_bytes [ch] (ue_loop type ue_usual decoded ch s))"
| "ue_loop type ue_quoted_second decoded prev (ch # s) =
    (if c_0 \<le> ch \<and> ch \<le> c_9
     then
       let b = push_bit 4 decoded + ch - c_0 in
       if type AND NGX_UNESCAPE_REDIRECT \<noteq> 0
       then put_bytes (if c_percent < b \<and> b < 0x7f then [b] else [c_percent, prev, ch]) (ue_loop type ue_usual decoded ch s)
       else put_bytes [b] (ue_loop type ue_usual decoded ch s)
     else
       let c = lower_bit ch in
       if c_a \<le> c \<and> c \<le> c_f
       then
         let b = push_bit 4 decoded + c - c_a + 10 in
         if type AND NGX_UNESCAPE_URI \<noteq> 0
         then (if b = c_quest then ([b], s) else put_bytes [b] (ue_loop type ue_usual decoded ch s))
         else if type AND NGX_UNESCAPE_REDIRECT \<noteq> 0
         then
           (if b = c_quest then ([b], s)
            else put_bytes (if c_percent < b \<and> b < 0x7f then [b] else [c_percent, prev, ch]) (ue_loop type ue_usual decoded ch s))
         else put_bytes [b] (ue_loop type ue_usual decoded ch s)
       else ue_loop type ue_usual decoded ch s)"
  by pat_completeness auto
termination by (relation "measure (\<lambda>(type, st, decoded, prev, s). length s)") auto

definition ngx_unescape_uri :: "byte list \<Rightarrow> ngx_uint_t \<Rightarrow> byte list \<times> byte list" where
  "ngx_unescape_uri src type = ue_loop type ue_usual 0 0 src"

section \<open>Lengths\<close>

lemma length_escape: "length (ngx_escape_uri src type) = length src + 2 * ngx_escape_uri_count src type"
  by (induction src type rule: ngx_escape_uri.induct) auto

text \<open>What has been read of a quoted byte is not written yet.\<close>

fun ue_pending :: "ue_state \<Rightarrow> nat" where
  "ue_pending ue_usual = 0"
| "ue_pending ue_quoted = 1"
| "ue_pending ue_quoted_second = 2"

definition ue_fits :: "nat \<Rightarrow> byte list \<times> byte list \<Rightarrow> bool" where
  "ue_fits n r \<longleftrightarrow> length (fst r) + length (snd r) \<le> n"

lemma ue_fits_put: "length bs \<le> n \<Longrightarrow> ue_fits (n - length bs) r \<Longrightarrow> ue_fits n (put_bytes bs r)"
  by (simp add: ue_fits_def)

lemma ue_fits_mono: "ue_fits n r \<Longrightarrow> n \<le> n' \<Longrightarrow> ue_fits n' r"
  by (simp add: ue_fits_def)

lemma ue_fits_if: "ue_fits n x \<Longrightarrow> ue_fits n y \<Longrightarrow> ue_fits n (if b then x else y)"
  by simp

lemma length_ue_loop: "ue_fits (length s + ue_pending st) (ue_loop type st decoded prev s)"
proof (induction s arbitrary: st decoded prev)
  case Nil
  show ?case by (simp add: ue_fits_def)
next
  case (Cons ch s)
  note IH = ue_fits_mono [OF Cons.IH]
  show ?case
    by (cases st; hypsubst; unfold ue_loop.simps Let_def; intro ue_fits_if)
      ((rule IH, simp; fail) | (rule ue_fits_put, simp, rule IH, simp; fail) | (simp add: ue_fits_def; fail))+
qed

section \<open>Round trip\<close>

lemma ue_loop_0:
  "ue_loop 0 ue_usual decoded prev (ch # s) =
    (if ch = c_percent then ue_loop 0 ue_quoted decoded ch s else put_bytes [ch] (ue_loop 0 ue_usual decoded ch s))"
  "is_xdigit ch \<Longrightarrow> ue_loop 0 ue_quoted decoded prev (ch # s) = ue_loop 0 ue_quoted_second (of_nat (xdigit ch)) ch s"
  "is_xdigit ch \<Longrightarrow> ue_loop 0 ue_quoted_second decoded prev (ch # s) =
     put_bytes [push_bit 4 decoded + of_nat (xdigit ch)] (ue_loop 0 ue_usual decoded ch s)"
  using xdigit_byte [of ch]
  by (auto simp: is_xdigit_def Let_def add_diff_eq [symmetric] add.assoc split: if_splits)

lemma esc_hex_byte:
  "is_xdigit (esc_hex ! unat (drop_bit 4 c)) \<and> is_xdigit (esc_hex ! unat (c AND 0xf)) \<and>
   push_bit 4 (of_nat (xdigit (esc_hex ! unat (drop_bit 4 c)))) + of_nat (xdigit (esc_hex ! unat (c AND 0xf))) = c" for c :: byte
  by (rule all_bytes [of "\<lambda>c. is_xdigit (esc_hex ! unat (drop_bit 4 c)) \<and> is_xdigit (esc_hex ! unat (c AND 0xf)) \<and>
    push_bit 4 (of_nat (xdigit (esc_hex ! unat (drop_bit 4 c)))) + of_nat (xdigit (esc_hex ! unat (c AND 0xf))) = c" c])
    code_simp

lemma ue_loop_escape:
  assumes "escaped type c_percent"
  shows "ue_loop 0 ue_usual decoded prev (ngx_escape_uri src type) = (src, [])"
proof (induction src arbitrary: decoded prev)
  case (Cons c src)
  then show ?case using esc_hex_byte [of c] assms by (auto simp: ue_loop_0 simp del: ue_loop.simps(2-4))
qed simp

section \<open>Properties\<close>

text \<open>
  C9. Unescaping gives back every string that was escaped, for each of the seven types but
  \<open>NGX_ESCAPE_REFRESH\<close> (4), whose table leaves the percent sign alone. The first pass of
  \<open>ngx_escape_uri\<close> counts exactly the room the second pass needs, and \<open>ngx_unescape_uri\<close> never
  writes more bytes than it has read, for any type and any input, so it may work in place.
\<close>

theorem escape_uri_roundtrip:
  assumes "type < 7"
  shows "((\<forall>src. ngx_unescape_uri (ngx_escape_uri src type) 0 = (src, [])) \<longleftrightarrow> type \<noteq> 4) \<and>
    length (ngx_escape_uri src type) = length src + 2 * ngx_escape_uri_count src type \<and>
    length (fst (ngx_unescape_uri s ty)) + length (snd (ngx_unescape_uri s ty)) \<le> length s"
proof (cases "type = 4")
  case True
  have "ngx_unescape_uri (ngx_escape_uri (bytes ''%41'') 4) 0 \<noteq> (bytes ''%41'', [])" by code_simp
  with True show ?thesis using length_escape length_ue_loop [of s ue_usual ty 0 0] by (auto simp: ngx_unescape_uri_def ue_fits_def)
next
  case False
  have "list_all (\<lambda>type. escaped type c_percent) [0, 1, 2, 3, 5, 6]" by code_simp
  moreover have "type \<in> set [0, 1, 2, 3, 5, 6]" using assms False by auto
  ultimately have "escaped type c_percent" unfolding list_all_iff by blast
  with False show ?thesis
    using ue_loop_escape length_escape length_ue_loop [of s ue_usual ty 0 0] by (simp add: ngx_unescape_uri_def ue_fits_def)
qed

theorem escape_uri_roundtrip_witness:
  "(1 :: nat) < 7 \<and> ngx_unescape_uri (ngx_escape_uri (bytes ''a b%'') 1) 0 = (bytes ''a b%'', []) \<and>
   ngx_escape_uri (bytes ''a b%'') 1 = bytes ''a%20b%25''"
proof -
  have "ngx_escape_uri (bytes ''a b%'') 1 = bytes ''a%20b%25''" by code_simp
  moreover have "\<forall>src. ngx_unescape_uri (ngx_escape_uri src 1) 0 = (src, [])"
    using escape_uri_roundtrip [of 1 "[]" "[]" 0] by simp
  then have "ngx_unescape_uri (ngx_escape_uri (bytes ''a b%'') 1) 0 = (bytes ''a b%'', [])" by blast
  ultimately show ?thesis by simp
qed

end
