(* ===== verification/Utf8.thy ===== *)
theory Utf8
  imports Digits
begin

text \<open>
  UTF-8 of \<open>src/core/ngx_string.c\<close>: \<open>ngx_utf8_decode\<close>, \<open>ngx_utf8_length\<close> and
  \<open>ngx_utf8_cpystrn\<close>. A string is memory and the offset of its first byte, because the
  functions may read behind the length they are given.
\<close>

section \<open>Decoding a character\<close>

text \<open>The loop over the bytes that follow the first one.\<close>

fun utf8_cont :: "mem \<Rightarrow> nat \<Rightarrow> uint32_t \<Rightarrow> nat \<Rightarrow> uint32_t option \<times> nat" where
  "utf8_cont m p u 0 = (Some u, p)"
| "utf8_cont m p u (Suc len) =
    (if m p < 0x80 then (None, p + 1)
     else utf8_cont m (p + 1) (push_bit 6 u OR (ucast (m p) AND 0x3f)) len)"

text \<open>The value returned and the pointer afterwards. \<open>n\<close> is a \<open>size_t\<close>: \<open>n - 1\<close> wraps for 0.\<close>

definition ngx_utf8_decode :: "mem \<Rightarrow> nat \<Rightarrow> uint32_t \<Rightarrow> uint32_t \<times> nat" where
  "ngx_utf8_decode m p n =
    (let u = ucast (m p) :: uint32_t in
     case (if u \<ge> 0xf0 then Some (u AND 0x07, 0xffff, 3 :: nat)
           else if u \<ge> 0xe0 then Some (u AND 0x0f, 0x7ff, 2)
           else if u \<ge> 0xc2 then Some (u AND 0x1f, 0x7f, 1)
           else None) of
       None \<Rightarrow> (0xffffffff, p + 1)
     | Some (u, valid, len) \<Rightarrow>
         if n - 1 < of_nat len then (0xfffffffe, p)
         else
           (case utf8_cont m (p + 1) u len of
              (None, p) \<Rightarrow> (0xffffffff, p)
            | (Some u, p) \<Rightarrow> if u > valid then (u, p) else (0xffffffff, p)))"

lemma utf8_cont_pos: "p \<le> snd (utf8_cont m p u len)"
  by (induction m p u len rule: utf8_cont.induct) auto

lemma utf8_decode_pos: "fst (ngx_utf8_decode m p n) \<noteq> 0xfffffffe \<Longrightarrow> p < snd (ngx_utf8_decode m p n)"
  using utf8_cont_pos [of "p + 1" m]
  by (auto simp: ngx_utf8_decode_def Let_def Suc_le_eq split: option.splits prod.splits if_splits)
    (metis snd_conv Suc_le_eq)+

section \<open>Counting characters\<close>

text \<open>The loop of \<open>ngx_utf8_length\<close>: \<open>p\<close> and \<open>last\<close> are pointers, \<open>n\<close> is the whole length.\<close>

function utf8_count :: "mem \<Rightarrow> uint32_t \<Rightarrow> nat \<Rightarrow> nat \<Rightarrow> nat \<Rightarrow> nat" where
  "utf8_count m n lst p len =
    (if p < lst
     then
       (if m p < 0x80 then utf8_count m n lst (p + 1) (len + 1)
        else if fst (ngx_utf8_decode m p n) > 0x10ffff then unat n
        else utf8_count m n lst (snd (ngx_utf8_decode m p n)) (len + 1))
     else len)"
  by pat_completeness auto
termination
proof (relation "measure (\<lambda>(m, n, lst, p, len). lst - p)")
  fix m n lst p len
  assume a: "p < lst" and "\<not> m p < 0x80" and le: "\<not> fst (ngx_utf8_decode m p n) > 0x10ffff"
  then have "fst (ngx_utf8_decode m p n) \<noteq> 0xfffffffe" by auto
  then have "p < snd (ngx_utf8_decode m p n)" by (rule utf8_decode_pos)
  with a show "((m, n, lst, snd (ngx_utf8_decode m p n), len + 1), m, n, lst, p, len) \<in> measure (\<lambda>(m, n, lst, p, len). lst - p)"
    by simp
qed auto

declare utf8_count.simps [simp del]

definition ngx_utf8_length :: "mem \<Rightarrow> nat \<Rightarrow> uint32_t \<Rightarrow> nat" where
  "ngx_utf8_length m p n = utf8_count m n (p + unat n) p 0"

section \<open>Copying characters\<close>

text \<open>
  The loop of \<open>ngx_utf8_cpystrn\<close>, one round for each character: the bytes in front of the
  terminating NUL.
\<close>

fun utf8_cpy :: "mem \<Rightarrow> nat \<Rightarrow> nat \<Rightarrow> uint32_t \<Rightarrow> byte list" where
  "utf8_cpy m src 0 len = []"
| "utf8_cpy m src (Suc n) len =
    (if m src < 0x80
     then (if m src \<noteq> NUL then m src # utf8_cpy m (src + 1) n (len - 1) else [])
     else
       (case ngx_utf8_decode m src len of
          (u, nxt) \<Rightarrow>
            if u > 0x10ffff then []
            else mslice m src nxt @ utf8_cpy m nxt n (len - of_nat (nxt - src))))"

definition ngx_utf8_cpystrn :: "mem \<Rightarrow> nat \<Rightarrow> nat \<Rightarrow> uint32_t \<Rightarrow> byte list" where
  "ngx_utf8_cpystrn m src n len = (if n = 0 then [] else utf8_cpy m src (n - 1) len)"

section \<open>Reference\<close>

definition utf8_encode :: "nat \<Rightarrow> byte list" where
  "utf8_encode c =
    (if c < 0x80 then [of_nat c]
     else if c < 0x800 then [of_nat (0xc0 + c div 64), of_nat (0x80 + c mod 64)]
     else if c < 0x10000 then [of_nat (0xe0 + c div 4096), of_nat (0x80 + c div 64 mod 64), of_nat (0x80 + c mod 64)]
     else [of_nat (0xf0 + c div 262144), of_nat (0x80 + c div 4096 mod 64), of_nat (0x80 + c div 64 mod 64), of_nat (0x80 + c mod 64)])"

definition utf8_string :: "nat list \<Rightarrow> byte list" where
  "utf8_string cs = concat (map utf8_encode cs)"

lemma utf8_string_simps [simp]:
  "utf8_string [] = []" "utf8_string (c # cs) = utf8_encode c @ utf8_string cs"
  by (simp_all add: utf8_string_def)

text \<open>The bytes that follow the first one are digits to the base 64.\<close>

definition base64_acc :: "nat \<Rightarrow> nat list \<Rightarrow> nat" where
  "base64_acc a ds = foldl (\<lambda>a d. 64 * a + d) a ds"

lemma unat_byte: "n < 256 \<Longrightarrow> unat (of_nat n :: byte) = n"
  by (simp add: unat_of_nat)

lemma ucast_byte_mask: "n < 256 \<Longrightarrow> (ucast (of_nat n :: byte) :: uint32_t) AND mask k = of_nat (n mod 2 ^ k)"
proof -
  assume "n < 256"
  then have "(ucast (of_nat n :: byte) :: uint32_t) = of_nat n" by (simp add: unsigned_of_nat take_bit_nat_eq_self)
  then have "(ucast (of_nat n :: byte) :: uint32_t) AND mask k = of_nat (take_bit k n)"
    by (simp only: take_bit_eq_mask [symmetric] take_bit_of_nat)
  then show ?thesis by (simp only: take_bit_eq_mod)
qed

lemma cont_digit: "d < 64 \<Longrightarrow> push_bit 6 u OR (ucast (of_nat (0x80 + d) :: byte) AND 0x3f) = 64 * u + of_nat d" for u :: uint32_t
proof -
  assume d: "d < 64"
  have m: "(0x3f :: uint32_t) = mask 6" by (simp add: mask_eq_exp_minus_1)
  have e: "ucast (of_nat (0x80 + d) :: byte) AND 0x3f = (of_nat d :: uint32_t)"
    unfolding m using d ucast_byte_mask [of "0x80 + d" 6] mod_add_left_eq [of 128 64 d] by simp
  have "push_bit 6 u OR (of_nat d) = push_bit 6 u + (of_nat d :: uint32_t)"
  proof (rule disjunctive_add [symmetric])
    fix n
    have "take_bit 6 d = d" using d by (simp add: take_bit_nat_eq_self)
    then have "bit d n \<Longrightarrow> n < 6" by (metis bit_take_bit_iff)
    then show "\<not> bit (push_bit 6 u) n \<or> \<not> bit (of_nat d :: uint32_t) n" by (auto simp: bit_simps)
  qed
  then show ?thesis unfolding e by (simp add: push_bit_eq_mult mult.commute)
qed

lemma utf8_cont_digits:
  "mem_at m p (map (\<lambda>d. of_nat (0x80 + d)) ds) \<Longrightarrow> \<forall>d\<in>set ds. d < 64 \<Longrightarrow>
    utf8_cont m p (of_nat a) (length ds) = (Some (of_nat (base64_acc a ds)), p + length ds)"
proof (induction ds arbitrary: p a)
  case (Cons d ds)
  have "unat (of_nat (128 + d) :: byte) = 128 + d" using Cons.prems by (intro unat_byte) simp
  then have "\<not> (of_nat (128 + d) :: byte) < 0x80" by (simp add: word_less_nat_alt)
  then show ?case
    using Cons.prems Cons.IH [of "Suc p" "64 * a + d"] cont_digit [of d "of_nat a"]
    by (simp add: base64_acc_def)
qed (simp add: base64_acc_def)

lemma size_check: "len < unat n \<Longrightarrow> \<not> n - 1 < (of_nat len :: uint32_t)"
proof -
  assume l: "len < unat n"
  then have nz: "n \<noteq> 0" by auto
  then have "unat (n - 1) = unat n - 1" by (rule unat_minus_one)
  moreover have "len < 2 ^ 32" using l unsigned_less [of n, where 'a = nat] by simp
  then have "unat (of_nat len :: uint32_t) = len" by (simp add: unat_of_nat_small)
  ultimately show ?thesis using l by (simp add: word_less_nat_alt)
qed

lemma utf8_decode_digits:
  assumes lead: "m p = of_nat k" "0xc2 \<le> k" "k < 0xf8"
    and cls: "(bits, valid, len) = (if 0xf0 \<le> k then (3, 0xffff, 3) else if 0xe0 \<le> k then (4, 0x7ff, 2) else (5, 0x7f, 1))"
    and ds: "length ds = len" "mem_at m (p + 1) (map (\<lambda>d. of_nat (0x80 + d)) ds)" "\<forall>d\<in>set ds. d < 64"
    and n: "len < unat n" and c: "c = base64_acc (k mod 2 ^ bits) ds" "valid < c" "c < 2 ^ 32"
  shows "ngx_utf8_decode m p n = (of_nat c, p + 1 + len)"
proof -
  have mk: "(0x1f :: uint32_t) = mask 5" "(0x0f :: uint32_t) = mask 4" "(0x07 :: uint32_t) = mask 3"
    by (simp_all add: mask_eq_exp_minus_1)
  have uc: "unat (of_nat c :: uint32_t) = c" using c(3) by (intro unat_of_nat_small) simp
  have k: "k < 256" using lead by simp
  have u: "unat (ucast (of_nat k :: byte) :: uint32_t) = k"
    using k by (simp add: unsigned_of_nat take_bit_nat_eq_self)
  have cont: "utf8_cont m (p + 1) (of_nat (k mod 2 ^ bits)) len = (Some (of_nat c), p + 1 + len)"
    using utf8_cont_digits [OF ds(2,3), of "k mod 2 ^ bits"] ds(1) c(1) by simp
  note sz = size_check [OF n]
  consider "0xf0 \<le> k" "bits = 3" "valid = 0xffff" "len = 3" | "0xe0 \<le> k" "k < 0xf0" "bits = 4" "valid = 0x7ff" "len = 2"
    | "k < 0xe0" "bits = 5" "valid = 0x7f" "len = 1"
    using cls by (cases "0xf0 \<le> k"; cases "0xe0 \<le> k") auto
  then show ?thesis
    by cases (use lead u uc cont sz c(2) ucast_byte_mask [OF k, of 3] ucast_byte_mask [OF k, of 4] ucast_byte_mask [OF k, of 5] in
      \<open>simp_all add: ngx_utf8_decode_def Let_def word_le_nat_alt word_less_nat_alt mk\<close>)
qed

lemma mod_add_multiple: "x < d \<Longrightarrow> a mod d = 0 \<Longrightarrow> (a + x) mod d = x" for a x d :: nat
  by (metis add_0 mod_add_left_eq mod_less)

lemma base64_digits:
  "base64_acc (c div 64) [c mod 64] = c" "base64_acc (c div 4096) [c div 64 mod 64, c mod 64] = c"
  "base64_acc (c div 262144) [c div 4096 mod 64, c div 64 mod 64, c mod 64] = c"
proof -
  have div: "c div 4096 = c div 64 div 64" "c div 262144 = c div 64 div 64 div 64" by (simp_all add: div_mult2_eq [symmetric])
  show "base64_acc (c div 64) [c mod 64] = c" "base64_acc (c div 4096) [c div 64 mod 64, c mod 64] = c"
    "base64_acc (c div 262144) [c div 4096 mod 64, c div 64 mod 64, c mod 64] = c"
    unfolding div base64_acc_def by simp_all
qed

text \<open>Decoding reads the characters of the reference back.\<close>

lemma utf8_decode_encode:
  assumes c: "0x80 \<le> c" "c \<le> 0x10ffff" and at: "mem_at m p (utf8_encode c)" and n: "length (utf8_encode c) \<le> unat n"
  shows "ngx_utf8_decode m p n = (of_nat c, p + length (utf8_encode c))"
proof -
  consider "c < 0x800" | "0x800 \<le> c" "c < 0x10000" | "0x10000 \<le> c" by linarith
  then show ?thesis
  proof cases
    case 1
    then have q: "(0xc0 + c div 64) mod 2 ^ 5 = c div 64" by (intro mod_add_multiple) auto
    have acc: "c = base64_acc ((0xc0 + c div 64) mod 2 ^ 5) [c mod 64]" unfolding q by (simp only: base64_digits)
    have "ngx_utf8_decode m p n = (of_nat c, p + 1 + 1)"
      using 1 c at n acc
      by (intro utf8_decode_digits [of m p "0xc0 + c div 64" 5 "0x7f" 1 "[c mod 64]"]) (auto simp: utf8_encode_def)
    with 1 c show ?thesis by (simp add: utf8_encode_def)
  next
    case 2
    then have q: "(0xe0 + c div 4096) mod 2 ^ 4 = c div 4096" by (intro mod_add_multiple) auto
    have acc: "c = base64_acc ((0xe0 + c div 4096) mod 2 ^ 4) [c div 64 mod 64, c mod 64]" unfolding q by (simp only: base64_digits)
    have "ngx_utf8_decode m p n = (of_nat c, p + 1 + 2)"
      using 2 c at n acc
      by (intro utf8_decode_digits [of m p "0xe0 + c div 4096" 4 "0x7ff" 2 "[c div 64 mod 64, c mod 64]"]) (auto simp: utf8_encode_def)
    with 2 c show ?thesis by (simp add: utf8_encode_def)
  next
    case 3
    have q: "(0xf0 + c div 262144) mod 2 ^ 3 = c div 262144" using c(2) by (intro mod_add_multiple) auto
    have acc: "c = base64_acc ((0xf0 + c div 262144) mod 2 ^ 3) [c div 4096 mod 64, c div 64 mod 64, c mod 64]" unfolding q by (simp only: base64_digits)
    have "ngx_utf8_decode m p n = (of_nat c, p + 1 + 3)"
      using 3 c at n acc
      by (intro utf8_decode_digits [of m p "0xf0 + c div 262144" 3 "0xffff" 3 "[c div 4096 mod 64, c div 64 mod 64, c mod 64]"])
        (auto simp: utf8_encode_def)
    with 3 c show ?thesis by (simp add: utf8_encode_def)
  qed
qed

lemma utf8_encode_ascii: "c < 0x80 \<Longrightarrow> utf8_encode c = [of_nat c] \<and> (of_nat c :: byte) < 0x80"
  using unat_byte [of c] by (simp add: utf8_encode_def word_less_nat_alt)

lemma utf8_encode_first: "0x80 \<le> c \<Longrightarrow> c \<le> 0x10ffff \<Longrightarrow> mem_at m p (utf8_encode c) \<Longrightarrow> \<not> m p < 0x80"
proof -
  assume c: "0x80 \<le> c" "c \<le> 0x10ffff" and at: "mem_at m p (utf8_encode c)"
  have "\<exists>k. m p = of_nat k \<and> 0x80 \<le> k \<and> k < 256"
  proof -
    consider "c < 0x800" | "0x800 \<le> c" "c < 0x10000" | "0x10000 \<le> c" by linarith
    then show ?thesis
    proof cases
      case 1
      with c at show ?thesis by (intro exI [of _ "0xc0 + c div 64"]) (simp add: utf8_encode_def)
    next
      case 2
      with c at show ?thesis by (intro exI [of _ "0xe0 + c div 4096"]) (simp add: utf8_encode_def)
    next
      case 3
      with c at show ?thesis by (intro exI [of _ "0xf0 + c div 262144"]) (simp add: utf8_encode_def)
    qed
  qed
  then show ?thesis using unat_byte by (auto simp: word_less_nat_alt)
qed

lemma utf8_decode_value:
  assumes "0x80 \<le> c" "c \<le> 0x10ffff" "mem_at m p (utf8_encode c)" "length (utf8_encode c) \<le> unat n"
  shows "\<not> fst (ngx_utf8_decode m p n) > 0x10ffff" "snd (ngx_utf8_decode m p n) = p + length (utf8_encode c)"
proof -
  have "unat (of_nat c :: uint32_t) = c" using assms(2) by (simp add: unat_of_nat_small)
  then show "\<not> fst (ngx_utf8_decode m p n) > 0x10ffff" "snd (ngx_utf8_decode m p n) = p + length (utf8_encode c)"
    using assms(2) by (simp_all add: utf8_decode_encode [OF assms] word_less_nat_alt)
qed

lemma utf8_count_string:
  "mem_at m p (utf8_string cs) \<Longrightarrow> \<forall>c\<in>set cs. c \<le> 0x10ffff \<Longrightarrow> lst = p + length (utf8_string cs) \<Longrightarrow>
    lst - p \<le> unat n \<Longrightarrow> utf8_count m n lst p len = len + length cs"
proof (induction cs arbitrary: p len)
  case Nil
  then show ?case by (simp add: utf8_count.simps)
next
  case (Cons c cs)
  have c: "c \<le> 0x10ffff" and at: "mem_at m p (utf8_encode c)" "mem_at m (p + length (utf8_encode c)) (utf8_string cs)"
    using Cons.prems by simp_all
  have pos: "0 < length (utf8_encode c)" by (simp add: utf8_encode_def)
  then have p: "p < lst" using Cons.prems(3) by simp
  have IH: "utf8_count m n lst (p + length (utf8_encode c)) (len + 1) = len + 1 + length cs"
    using Cons.IH [OF at(2)] Cons.prems by auto
  show ?case
  proof (cases "c < 0x80")
    case True
    with utf8_encode_ascii [OF True] at(1) p IH show ?thesis by (simp add: utf8_count.simps [of m n lst p len])
  next
    case False
    then have c80: "0x80 \<le> c" by simp
    have "length (utf8_encode c) \<le> unat n" using Cons.prems(3,4) by simp
    from utf8_decode_value [OF c80 c at(1) this] utf8_encode_first [OF c80 c at(1)] p IH show ?thesis
      by (simp add: utf8_count.simps [of m n lst p len])
  qed
qed

lemma utf8_cpy_string:
  "mem_at m p (utf8_string cs @ [0]) \<Longrightarrow> \<forall>c\<in>set cs. 0 < c \<and> c \<le> 0x10ffff \<Longrightarrow> length (utf8_string cs) < unat len \<Longrightarrow>
    utf8_cpy m p k len = utf8_string (take k cs)"
proof (induction k arbitrary: p cs len)
  case (Suc k)
  show ?case
  proof (cases cs)
    case Nil
    with Suc.prems show ?thesis by simp
  next
    case (Cons c cs')
    let ?l = "length (utf8_encode c)"
    have c: "0 < c" "c \<le> 0x10ffff" and at: "mem_at m p (utf8_encode c)" "mem_at m (p + ?l) (utf8_string cs' @ [0])"
      using Suc.prems Cons by (simp_all add: add.assoc)
    have l: "?l < unat len" using Suc.prems(3) Cons by simp
    have "unat (of_nat ?l :: uint32_t) = ?l" by (rule unat_of_nat_small) (simp add: utf8_encode_def)
    then have len: "unat (len - of_nat ?l) = unat len - ?l" using l by (subst unat_sub) (auto simp: word_le_nat_alt)
    have IH: "utf8_cpy m (p + ?l) k (len - of_nat ?l) = utf8_string (take k cs')"
      using Suc.IH [OF at(2)] Suc.prems Cons len by simp
    show ?thesis
    proof (cases "c < 0x80")
      case True
      have "(of_nat c :: byte) \<noteq> 0" using c(1) True unat_byte [of c] by auto
      with utf8_encode_ascii [OF True] at(1) IH Cons show ?thesis by simp
    next
      case False
      then have c80: "0x80 \<le> c" by simp
      have d: "ngx_utf8_decode m p len = (of_nat c, p + ?l)" using utf8_decode_encode [OF c80 c(2) at(1)] l by simp
      from utf8_decode_value [OF c80 c(2) at(1), of len] l d have "\<not> (of_nat c :: uint32_t) > 0x10ffff" by simp
      moreover have "mslice m p (p + ?l) = utf8_encode c" using at(1) by (rule mem_at_mslice) simp
      ultimately show ?thesis using utf8_encode_first [OF c80 c(2) at(1)] IH Cons d by simp
    qed
  qed
qed simp

section \<open>Properties\<close>

text \<open>
  C27. Strings of well-formed characters, encoded by the reference, are handled exactly:
  \<open>ngx_utf8_decode\<close> reads every character from U+0080 to U+10FFFF back, \<open>ngx_utf8_length\<close> counts
  the characters, and \<open>ngx_utf8_cpystrn\<close> copies the first \<open>n - 1\<close> of them, never a part of one.
\<close>

theorem utf8_strings:
  assumes "mem_at m p (utf8_string cs @ [0])" "\<forall>c\<in>set cs. 0 < c \<and> c \<le> 0x10ffff"
    and "unat n = length (utf8_string cs)" "length (utf8_string cs) < unat len"
  shows "ngx_utf8_length m p n = length cs \<and> ngx_utf8_cpystrn m p k len = utf8_string (take (k - 1) cs) \<and>
    (cs \<noteq> [] \<and> 0x80 \<le> hd cs \<longrightarrow> ngx_utf8_decode m p len = (of_nat (hd cs), p + length (utf8_encode (hd cs))))"
proof (intro conjI impI)
  show "ngx_utf8_length m p n = length cs"
    using utf8_count_string [of m p cs "p + unat n" n 0] assms by (simp add: ngx_utf8_length_def)
  show "ngx_utf8_cpystrn m p k len = utf8_string (take (k - 1) cs)"
    using utf8_cpy_string [OF assms(1,2,4)] by (simp add: ngx_utf8_cpystrn_def)
  assume cs: "cs \<noteq> [] \<and> 0x80 \<le> hd cs"
  then obtain c cs' where "cs = c # cs'" by (cases cs) auto
  with assms cs show "ngx_utf8_decode m p len = (of_nat (hd cs), p + length (utf8_encode (hd cs)))"
    by (auto intro!: utf8_decode_encode)
qed

theorem utf8_strings_witness:
  "let m = mem_of (utf8_string [0x61, 0x20ac, 0x1f600] @ [0]) in
   ngx_utf8_length m 0 8 = 3 \<and> ngx_utf8_cpystrn m 0 3 9 = utf8_string [0x61, 0x20ac]"
proof -
  let ?cs = "[0x61, 0x20ac, 0x1f600] :: nat list"
  have l: "length (utf8_string ?cs) = 8" by (simp add: utf8_encode_def)
  have "mem_at (mem_of (utf8_string ?cs @ [0])) 0 (utf8_string ?cs @ [0])" by (rule mem_at_mem_of)
  from utf8_strings [OF this, of 8 9 3] l show ?thesis by (simp add: Let_def)
qed


end
