(* ===== verification/Numbers.thy ===== *)
theory Numbers
  imports Digits
begin

type_synonym uint64_t = "64 word"

section \<open>Reading\<close>

text \<open>The loop that \<open>ngx_atoi\<close>, \<open>ngx_atosz\<close>, \<open>ngx_atoof\<close> and \<open>ngx_atotm\<close> repeat at their widths.\<close>

fun ato_loop :: "'a::len word \<Rightarrow> byte list \<Rightarrow> 'a word option" where
  "ato_loop val [] = Some val"
| "ato_loop val (c # line) = (if c < c_0 \<or> c > c_9 then None else ato_loop (val * 10 + (ucast c - 0x30)) line)"

definition ato_result :: "'a::len word option \<Rightarrow> 'a word" where
  "ato_result r = (case r of None \<Rightarrow> -1 | Some val \<Rightarrow> if val <s 0 then -1 else val)"

definition ngx_atoi :: "byte list \<Rightarrow> ngx_int_t" where
  "ngx_atoi line = (if line = [] then -1 else ato_result (ato_loop 0 line))"


definition ngx_atoof :: "byte list \<Rightarrow> off_t" where
  "ngx_atoof line = (if line = [] then -1 else ato_result (ato_loop 0 line))"




fun hextoi_loop :: "ngx_int_t \<Rightarrow> byte list \<Rightarrow> ngx_int_t option" where
  "hextoi_loop val [] = Some val"
| "hextoi_loop val (ch # line) =
    (if c_0 \<le> ch \<and> ch \<le> c_9 then hextoi_loop (val * 16 + (ucast ch - 0x30)) line
     else
       let c = lower_bit ch in
       if c_a \<le> c \<and> c \<le> c_f then hextoi_loop (val * 16 + (ucast c - 0x61 + 10)) line
       else None)"

definition ngx_hextoi :: "byte list \<Rightarrow> ngx_int_t" where
  "ngx_hextoi line = (if line = [] then -1 else ato_result (hextoi_loop 0 line))"

section \<open>Sizes\<close>



section \<open>Writing\<close>

definition hex_digits :: "byte list" where
  "hex_digits = bytes ''0123456789abcdef''"

definition HEX_digits :: "byte list" where
  "HEX_digits = bytes ''0123456789ABCDEF''"

lemma hex_digits_code [code]:
  "hex_digits = [0x30, 0x31, 0x32, 0x33, 0x34, 0x35, 0x36, 0x37, 0x38, 0x39, 0x61, 0x62, 0x63, 0x64, 0x65, 0x66]"
  "HEX_digits = [0x30, 0x31, 0x32, 0x33, 0x34, 0x35, 0x36, 0x37, 0x38, 0x39, 0x41, 0x42, 0x43, 0x44, 0x45, 0x46]"
  by (simp_all add: hex_digits_def HEX_digits_def bytes_def)

fun ngx_hex_dump :: "byte list \<Rightarrow> byte list" where
  "ngx_hex_dump [] = []"
| "ngx_hex_dump (c # src) = hex_digits ! unat (drop_bit 4 c) # hex_digits ! unat (c AND 0xf) # ngx_hex_dump src"

lemma word_div_less: "w div k \<noteq> 0 \<Longrightarrow> 1 < unat k \<Longrightarrow> unat (w div k) < unat w" for w :: "'a::len word"
  by (cases "w = 0") (auto simp: unat_div unsigned_eq_0_iff intro!: div_less_dividend simp flip: unat_gt_0)

text \<open>The three loops of \<open>ngx_sprintf_num\<close>, which fill \<open>temp\<close> from its end.\<close>

function sn_dec32 :: "uint32_t \<Rightarrow> byte list \<Rightarrow> byte list" where
  "sn_dec32 ui32 p =
    (let p = ucast (ui32 mod 10 + 0x30) # p; ui32 = ui32 div 10 in if ui32 = 0 then p else sn_dec32 ui32 p)"
  by pat_completeness auto
termination
  by (relation "measure (\<lambda>(n, p). unat n)") (auto intro!: word_div_less)

function sn_dec64 :: "uint64_t \<Rightarrow> byte list \<Rightarrow> byte list" where
  "sn_dec64 ui64 p =
    (let p = ucast (ui64 mod 10 + 0x30) # p; ui64 = ui64 div 10 in if ui64 = 0 then p else sn_dec64 ui64 p)"
  by pat_completeness auto
termination
  by (relation "measure (\<lambda>(n, p). unat n)") (auto intro!: word_div_less)

function sn_hex :: "byte list \<Rightarrow> uint64_t \<Rightarrow> byte list \<Rightarrow> byte list" where
  "sn_hex hex ui64 p =
    (let p = hex ! unat (ui64 AND 0xf) # p; ui64 = drop_bit 4 ui64 in if ui64 = 0 then p else sn_hex hex ui64 p)"
  by pat_completeness auto
termination
  by (relation "measure (\<lambda>(hex, n, p). unat n)") (auto simp: drop_bit_eq_div intro!: word_div_less)

declare sn_dec32.simps [simp del] sn_dec64.simps [simp del] sn_hex.simps [simp del]

definition sn_temp :: "uint64_t \<Rightarrow> nat \<Rightarrow> byte list" where
  "sn_temp ui64 hexadecimal =
    (if hexadecimal = 0 then (if ui64 \<le> 0xffffffff then sn_dec32 (ucast ui64) [] else sn_dec64 ui64 [])
     else if hexadecimal = 1 then sn_hex hex_digits ui64 []
     else sn_hex HEX_digits ui64 [])"

text \<open>What is written behind \<open>buf\<close> when \<open>room\<close> bytes are left up to \<open>last\<close>.\<close>

definition ngx_sprintf_num :: "nat \<Rightarrow> uint64_t \<Rightarrow> byte \<Rightarrow> nat \<Rightarrow> nat \<Rightarrow> byte list" where
  "ngx_sprintf_num room ui64 zero hexadecimal width =
    (let temp = sn_temp ui64 hexadecimal;
         padding = replicate (min (width - length temp) room) zero
     in padding @ take (room - length padding) temp)"

section \<open>Exact reading\<close>

lemma ato_loop_acc:
  "ato_loop (of_nat a) s = (if \<forall>d\<in>set s. is_digit d then Some (of_nat (dec_acc a s)) else None)"
proof (induction s arbitrary: a)
  case (Cons d s)
  show ?case
  proof (cases "is_digit d")
    case True
    have "of_nat a * 10 + (ucast d - 0x30) = (of_nat (a * 10 + (unat d - 48)) :: 'a word)"
      using ucast_digit [OF True, where 'a = 'a] by simp
    with Cons.IH [of "a * 10 + (unat d - 48)"] True show ?thesis by auto
  qed auto
qed simp

lemma ato_loop_val: "s \<noteq> [] \<Longrightarrow> ato_loop 0 s = (if digits s then Some (of_nat (dec_val s)) else None)"
  using ato_loop_acc [of 0 s, where 'a = 'a] by (simp add: digits_def dec_val_def)

text \<open>A result modulo the width, with \<open>NGX_ERROR\<close> for the upper half of the range.\<close>

definition wrapped :: "nat \<Rightarrow> 'a::len word" where
  "wrapped n = (if n mod 2 ^ LENGTH('a) < 2 ^ (LENGTH('a) - 1) then of_nat n else -1)"

lemma ato_result_of_nat: "ato_result (Some (of_nat n)) = wrapped n"
proof -
  have "unat (of_nat n :: 'a word) = n mod 2 ^ LENGTH('a)" by (simp add: unat_of_nat take_bit_eq_mod)
  moreover have "(of_nat n :: 'a word) <s 0 \<longleftrightarrow> \<not> unat (of_nat n :: 'a word) < 2 ^ (LENGTH('a) - 1)"
    using sint_unat_cases [of "of_nat n :: 'a word"] uint_lt2p [of "of_nat n :: 'a word"]
    by (auto simp: word_sless_alt)
  ultimately show ?thesis by (simp add: ato_result_def wrapped_def)
qed

lemma wrapped_small: "n < 2 ^ (LENGTH('a::len) - 1) \<Longrightarrow> wrapped n = (of_nat n :: 'a word)"
proof -
  assume n: "n < 2 ^ (LENGTH('a) - 1)"
  also have "(2::nat) ^ (LENGTH('a) - 1) \<le> 2 ^ LENGTH('a)" by (intro power_increasing) auto
  finally show ?thesis using n by (simp add: wrapped_def)
qed


lemma ato_exact:
  "(if s = [] then -1 else ato_result (ato_loop 0 s)) = (if digits s then wrapped (dec_val s) else (-1 :: 'a::len word))"
proof (cases "s = []")
  case True
  then show ?thesis by (simp add: digits_def)
next
  case False
  then show ?thesis by (simp add: ato_loop_val ato_result_of_nat) (simp add: ato_result_def)
qed




lemma xdigit_word:
  "is_xdigit ch \<Longrightarrow> (if c_0 \<le> ch \<and> ch \<le> c_9 then ucast ch - 0x30 else ucast (lower_bit ch) - 0x61 + 10) = (of_nat (xdigit ch) :: ngx_int_t)"
proof -
  have "is_xdigit ch \<longrightarrow>
      (if c_0 \<le> ch \<and> ch \<le> c_9 then ucast ch - 0x30 else ucast (lower_bit ch) - 0x61 + 10) = (of_nat (xdigit ch) :: ngx_int_t)"
    by (rule all_bytes [of "\<lambda>ch. is_xdigit ch \<longrightarrow>
      (if c_0 \<le> ch \<and> ch \<le> c_9 then ucast ch - 0x30 else ucast (lower_bit ch) - 0x61 + 10) = (of_nat (xdigit ch) :: ngx_int_t)"]) code_simp
  then show "is_xdigit ch \<Longrightarrow> ?thesis" by blast
qed

lemma hextoi_loop_acc:
  "hextoi_loop (of_nat a) s = (if \<forall>d\<in>set s. is_xdigit d then Some (of_nat (hex_acc a s)) else None)"
proof (induction s arbitrary: a)
  case (Cons ch s)
  show ?case
  proof (cases "is_xdigit ch")
    case True
    with xdigit_word [OF True] Cons.IH [of "a * 16 + xdigit ch"] show ?thesis
      by (auto simp: Let_def is_xdigit_def split: if_splits)
  qed (auto simp: is_xdigit_def Let_def)
qed simp

lemma hextoi_exact:
  "ngx_hextoi s = (if s \<noteq> [] \<and> (\<forall>d\<in>set s. is_xdigit d) then wrapped (hex_val s) else -1)"
  using hextoi_loop_acc [of 0 s] ato_result_of_nat [of "hex_acc 0 s", where 'a = 32]
  by (auto simp: ngx_hextoi_def hex_val_def ato_result_def)

section \<open>Exact writing\<close>

lemma ascii_digit:
  assumes "8 \<le> LENGTH('a::len)"
  shows "unat (ucast (n mod 10 + 0x30 :: 'a word) :: byte) = unat n mod 10 + 48"
proof -
  have two: "(256::nat) \<le> 2 ^ LENGTH('a)" using power_increasing [OF assms, of "2::nat"] by simp
  then have "unat (10 :: 'a word) = 10" "unat (48 :: 'a word) = 48"
    using unat_of_nat_small [of 10, where 'a = 'a] unat_of_nat_small [of 48, where 'a = 'a] by simp_all
  moreover have "unat n mod 10 < 10" by simp
  ultimately have "unat (n mod 10 + 0x30) = unat n mod 10 + 48"
    using two by (simp add: unat_word_ariths unat_mod)
  then show ?thesis using \<open>unat n mod 10 < 10\<close> by (simp add: unsigned_ucast_eq take_bit_eq_mod)
qed

lemma digit_range: "is_digit d \<longleftrightarrow> 48 \<le> unat d \<and> unat d \<le> 57"
  by (simp add: word_le_nat_alt)

lemma sn_dec32_val: "dec_acc 0 (sn_dec32 n p) = dec_acc (unat n) p"
proof (induction n p rule: sn_dec32.induct)
  case (1 n p)
  show ?case
    using 1 unat_div [of n 10] ascii_digit [of n] by (subst sn_dec32.simps) (auto simp: Let_def unsigned_eq_0_iff)
qed

lemma sn_dec64_val: "dec_acc 0 (sn_dec64 n p) = dec_acc (unat n) p"
proof (induction n p rule: sn_dec64.induct)
  case (1 n p)
  show ?case
    using 1 unat_div [of n 10] ascii_digit [of n] by (subst sn_dec64.simps) (auto simp: Let_def unsigned_eq_0_iff)
qed

lemma sn_dec32_form:
  "unat n < 10 ^ Suc k \<Longrightarrow> \<forall>d\<in>set p. is_digit d \<Longrightarrow>
    length (sn_dec32 n p) \<le> length p + Suc k \<and> digits (sn_dec32 n p)"
proof (induction k arbitrary: n p)
  case 0
  then have "n div 10 = 0" by (simp add: word_unat_eq_iff unat_div)
  with 0 ascii_digit [of n] show ?case by (subst (1 2) sn_dec32.simps) (auto simp: digits_def digit_range)
next
  case (Suc k)
  have "unat (n div 10) < 10 ^ Suc k" using Suc.prems(1) by (simp add: unat_div less_mult_imp_div_less)
  from Suc.IH [OF this, of "ucast (n mod 10 + 0x30) # p"] Suc.prems(2) ascii_digit [of n] show ?case
    by (subst (1 2) sn_dec32.simps) (auto simp: digits_def digit_range Let_def)
qed

lemma sn_dec64_form:
  "unat n < 10 ^ Suc k \<Longrightarrow> \<forall>d\<in>set p. is_digit d \<Longrightarrow>
    length (sn_dec64 n p) \<le> length p + Suc k \<and> digits (sn_dec64 n p)"
proof (induction k arbitrary: n p)
  case 0
  then have "n div 10 = 0" by (simp add: word_unat_eq_iff unat_div)
  with 0 ascii_digit [of n] show ?case by (subst (1 2) sn_dec64.simps) (auto simp: digits_def digit_range)
next
  case (Suc k)
  have "unat (n div 10) < 10 ^ Suc k" using Suc.prems(1) by (simp add: unat_div less_mult_imp_div_less)
  from Suc.IH [OF this, of "ucast (n mod 10 + 0x30) # p"] Suc.prems(2) ascii_digit [of n] show ?case
    by (subst (1 2) sn_dec64.simps) (auto simp: digits_def digit_range Let_def)
qed

definition hex_table :: "byte list \<Rightarrow> bool" where
  "hex_table hex \<longleftrightarrow> list_all (\<lambda>k. is_xdigit (hex ! k) \<and> xdigit (hex ! k) = k) [0..<16]"

lemma hex_tables: "hex_table hex_digits" "hex_table HEX_digits"
  by code_simp+

lemma hex_table_nth: "hex_table hex \<Longrightarrow> k < 16 \<Longrightarrow> is_xdigit (hex ! k) \<and> xdigit (hex ! k) = k"
  by (simp add: hex_table_def list_all_iff)

lemma and_0xf: "unat (n AND 0xf) = unat n mod 16" for n :: "'a::len word"
proof -
  have "unat (n AND mask 4) = take_bit 4 (unat n)"
    by (simp add: take_bit_eq_mask [symmetric] unsigned_take_bit_eq)
  then show ?thesis by (simp add: mask_eq_exp_minus_1 take_bit_eq_mod)
qed

lemma unat_drop_4: "unat (drop_bit 4 n) = unat n div 16" for n :: "'a::len word"
proof -
  have "unat (drop_bit 4 n) = drop_bit 4 (unat n)" by (simp add: unsigned_drop_bit_eq take_bit_nat_eq_self)
  then show ?thesis by (simp add: drop_bit_eq_div)
qed

lemma sn_hex_val:
  "hex_table hex \<Longrightarrow> hex_acc 0 (sn_hex hex n p) = hex_acc (unat n) p"
proof (induction hex n p rule: sn_hex.induct)
  case (1 hex n p)
  show ?case
    using 1 unat_drop_4 [of n] hex_table_nth [OF 1(2), of "unat n mod 16"]
    by (subst sn_hex.simps) (auto simp: Let_def and_0xf)
qed

lemma sn_hex_form:
  "hex_table hex \<Longrightarrow> unat n < 16 ^ Suc k \<Longrightarrow> \<forall>d\<in>set p. is_xdigit d \<Longrightarrow>
    length (sn_hex hex n p) \<le> length p + Suc k \<and> sn_hex hex n p \<noteq> [] \<and> (\<forall>d\<in>set (sn_hex hex n p). is_xdigit d)"
proof (induction k arbitrary: n p)
  case 0
  then have "drop_bit 4 n = 0" by (simp add: word_unat_eq_iff unat_drop_4)
  with 0 hex_table_nth [OF 0(1), of "unat n mod 16"] show ?case
    by (subst (1 2 3) sn_hex.simps) (auto simp: and_0xf)
next
  case (Suc k)
  have "unat (drop_bit 4 n) < 16 ^ Suc k" using Suc.prems(2) by (simp add: unat_drop_4 less_mult_imp_div_less)
  from Suc.IH [OF Suc.prems(1) this, of "hex ! unat (n AND 0xf) # p"] Suc.prems(3)
    hex_table_nth [OF Suc.prems(1), of "unat n mod 16"]
  show ?case by (subst (1 2 3) sn_hex.simps) (auto simp: Let_def and_0xf)
qed

lemma hex_dump_val:
  "(\<forall>d\<in>set (ngx_hex_dump src). is_xdigit d) \<and> length (ngx_hex_dump src) = 2 * length src \<and>
   hex_acc a (ngx_hex_dump src) = foldl (\<lambda>a c. a * 256 + unat c) a src"
proof (induction src arbitrary: a)
  case (Cons c src)
  have "unat c div 16 < 16" using unsigned_less [of c, where 'a = nat] by simp
  then have "is_xdigit (hex_digits ! unat (drop_bit 4 c)) \<and> xdigit (hex_digits ! unat (drop_bit 4 c)) = unat c div 16"
    using hex_table_nth [OF hex_tables(1), of "unat c div 16"] by (simp add: unat_drop_4)
  moreover have "is_xdigit (hex_digits ! unat (c AND 0xf)) \<and> xdigit (hex_digits ! unat (c AND 0xf)) = unat c mod 16"
    using hex_table_nth [OF hex_tables(1), of "unat c mod 16"] by (simp add: and_0xf)
  ultimately show ?case using Cons [of "a * 256 + unat c"] by (simp add: algebra_simps)
qed simp

text \<open>The digits in \<open>temp\<close>.\<close>

lemma sn_temp_dec: "digits (sn_temp n 0) \<and> dec_val (sn_temp n 0) = unat n \<and> length (sn_temp n 0) \<le> 20"
proof (cases "n \<le> 0xffffffff")
  case True
  then have "unat (ucast n :: uint32_t) = unat n"
    by (simp add: unsigned_ucast_eq take_bit_eq_mod word_le_nat_alt)
  moreover have "unat (ucast n :: uint32_t) < 10 ^ Suc 19"
    using unsigned_less [of "ucast n :: uint32_t", where 'a = nat] by simp
  ultimately show ?thesis using True sn_dec32_form [of "ucast n" 19 "[]"]
    by (simp add: sn_temp_def dec_val_def sn_dec32_val)
next
  case False
  have "unat n < 10 ^ Suc 19" using unsigned_less [of n, where 'a = nat] by simp
  with False sn_dec64_form [of n 19 "[]"] show ?thesis by (simp add: sn_temp_def dec_val_def sn_dec64_val)
qed

lemma sn_temp_hex:
  assumes "h \<noteq> 0"
  shows "sn_temp n h \<noteq> [] \<and> (\<forall>d\<in>set (sn_temp n h). is_xdigit d) \<and> hex_val (sn_temp n h) = unat n \<and> length (sn_temp n h) \<le> 16"
proof -
  have "unat n < 16 ^ Suc 15" using unsigned_less [of n, where 'a = nat] by simp
  from sn_hex_form [OF hex_tables(1) this, of "[]"] sn_hex_form [OF hex_tables(2) this, of "[]"] assms show ?thesis
    by (auto simp: sn_temp_def hex_val_def sn_hex_val hex_tables)
qed

lemma dec_acc_zeros: "dec_acc 0 (replicate k c_0 @ s) = dec_acc 0 s"
  by (induction k) simp_all

lemma hex_acc_zeros: "hex_acc 0 (replicate k c_0 @ s) = hex_acc 0 s"
proof -
  have "xdigit c_0 = 0" by code_simp
  then show ?thesis by (induction k) simp_all
qed

lemma sprintf_num_fits: "length (ngx_sprintf_num room n zero h width) \<le> room"
  by (simp add: ngx_sprintf_num_def Let_def)

lemma sprintf_num_room:
  "length (sn_temp n h) \<le> room \<Longrightarrow> width \<le> room \<Longrightarrow>
    ngx_sprintf_num room n zero h width = replicate (width - length (sn_temp n h)) zero @ sn_temp n h"
  by (simp add: ngx_sprintf_num_def Let_def)

lemma sn_temp_len: "length (sn_temp n h) \<le> 20"
  using sn_temp_dec [of n] sn_temp_hex [of h n] by (cases "h = 0") auto

lemma sprintf_num_dec:
  assumes "20 \<le> room" "width \<le> room"
  shows "digits (ngx_sprintf_num room n c_0 0 width) \<and> dec_val (ngx_sprintf_num room n c_0 0 width) = unat n"
  using assms sn_temp_dec [of n] sprintf_num_room [of n 0 room width c_0]
  by (auto simp: digits_def dec_val_def dec_acc_zeros simp del: dec_acc_simps(3))

lemma sprintf_num_hex:
  assumes "20 \<le> room" "width \<le> room" "h \<noteq> 0"
  shows "ngx_sprintf_num room n c_0 h width \<noteq> [] \<and> (\<forall>d\<in>set (ngx_sprintf_num room n c_0 h width). is_xdigit d) \<and>
    hex_val (ngx_sprintf_num room n c_0 h width) = unat n"
proof -
  have "is_xdigit c_0" by code_simp
  with assms sn_temp_hex [of h n] sprintf_num_room [of n h room width c_0] show ?thesis
    by (auto simp: hex_val_def hex_acc_zeros simp del: hex_acc_simps(3))
qed

lemma wrapped_of_word: "unat w < 2 ^ (LENGTH('a) - 1) \<Longrightarrow> wrapped (unat w) = w" for w :: "'a::len word"
  by (simp add: wrapped_small)

lemma wrapped_ucast:
  "unat w < 2 ^ (LENGTH('b) - 1) \<Longrightarrow> wrapped (unat w) = (ucast w :: 'b::len word)" for w :: "'a::len word"
  by (simp add: wrapped_small)

lemma wrapped_unat:
  assumes "n < 2 ^ (LENGTH('a::len) - 1)"
  shows "unat (wrapped n :: 'a word) = n \<and> (wrapped n :: 'a word) \<noteq> -1"
proof -
  have "(2::nat) ^ LENGTH('a) = 2 * 2 ^ (LENGTH('a) - 1)" by (simp flip: power_Suc)
  then have n: "unat (wrapped n :: 'a word) = n" "n < 2 ^ LENGTH('a) - 1"
    using assms by (auto simp: wrapped_small unat_of_nat_small)
  moreover have "unat (-1 :: 'a word) = 2 ^ LENGTH('a) - 1" by (simp add: unsigned_minus_1_eq_mask mask_eq_exp_minus_1)
  ultimately show ?thesis by auto
qed

section \<open>Properties\<close>



text \<open>
  C10. Printed numbers are read back: with room for twenty bytes and for the width asked for,
  \<open>ngx_sprintf_num\<close> writes a numeral of the given number, padded with zeros, and \<open>ngx_atoof\<close>,
  \<open>ngx_atoi\<close> and \<open>ngx_hextoi\<close> return the number. Whatever the room, it is not exceeded, and
  neither are the \<open>NGX_INT64_LEN\<close> bytes of \<open>temp\<close>. A hex dump is the number its bytes make up.
\<close>

theorem number_print:
  "length (sn_temp n h) \<le> 20 \<and> length (ngx_sprintf_num room n zero h width) \<le> room \<and>
   (20 \<le> room \<and> width \<le> room \<longrightarrow>
     width \<le> length (ngx_sprintf_num room n zero h width) \<and>
     (unat n < 2 ^ 63 \<longrightarrow> ngx_atoof (ngx_sprintf_num room n c_0 0 width) = n) \<and>
     (unat n < 2 ^ 31 \<longrightarrow> ngx_atoi (ngx_sprintf_num room n c_0 0 width) = ucast n) \<and>
     (unat n < 2 ^ 31 \<and> h \<noteq> 0 \<longrightarrow> ngx_hextoi (ngx_sprintf_num room n c_0 h width) = ucast n)) \<and>
   length (ngx_hex_dump src) = 2 * length src \<and>
   (src \<noteq> [] \<and> foldl (\<lambda>a c. a * 256 + unat c) 0 src < 2 ^ 31 \<longrightarrow>
     unat (ngx_hextoi (ngx_hex_dump src)) = foldl (\<lambda>a c. a * 256 + unat c) 0 src)"
proof (intro conjI impI)
  assume room: "20 \<le> room \<and> width \<le> room"
  show "width \<le> length (ngx_sprintf_num room n zero h width)"
    using room sprintf_num_room [of n h room width zero] sn_temp_len [of n h] by simp
  show "ngx_atoof (ngx_sprintf_num room n c_0 0 width) = n" if "unat n < 2 ^ 63"
    using room sprintf_num_dec [of room width n] wrapped_of_word [of n] that by (simp add: ngx_atoof_def ato_exact)
  show "ngx_atoi (ngx_sprintf_num room n c_0 0 width) = ucast n" if "unat n < 2 ^ 31"
    using room sprintf_num_dec [of room width n] wrapped_ucast [of n, where 'b = 32] that by (simp add: ngx_atoi_def ato_exact)
  show "ngx_hextoi (ngx_sprintf_num room n c_0 h width) = ucast n" if "unat n < 2 ^ 31 \<and> h \<noteq> 0"
    using room sprintf_num_hex [of room width h n] wrapped_ucast [of n, where 'b = 32] that by (simp add: hextoi_exact)
next
  assume src: "src \<noteq> [] \<and> foldl (\<lambda>a c. a * 256 + unat c) 0 src < 2 ^ 31"
  then have "ngx_hex_dump src \<noteq> []" by (cases src) auto
  with src hex_dump_val [of src 0] wrapped_unat [of "foldl (\<lambda>a c. a * 256 + unat c) 0 src", where 'a = 32]
  show "unat (ngx_hextoi (ngx_hex_dump src)) = foldl (\<lambda>a c. a * 256 + unat c) 0 src"
    by (simp add: hextoi_exact hex_val_def)
qed (simp_all add: sn_temp_len sprintf_num_fits hex_dump_val)

theorem number_print_witness:
  "ngx_atoof (ngx_sprintf_num 32 12345678901 c_0 0 15) = 12345678901 \<and>
   ngx_atoi (ngx_sprintf_num 32 1234 c_0 0 15) = ucast (1234 :: uint64_t) \<and>
   ngx_hextoi (ngx_sprintf_num 32 1234 c_0 2 15) = ucast (1234 :: uint64_t) \<and>
   unat (ngx_hextoi (ngx_hex_dump [0x12, 0xab])) = 0x12ab"
  using number_print [of 12345678901 0 32 c_0 15 "[0x12, 0xab]"] number_print [of 1234 2 32 c_0 15 "[0x12, 0xab]"] by simp

end
