(* ===== verification/Rbtree.thy ===== *)
theory Rbtree
  imports Prelude "HOL-Library.Monad_Syntax"
begin

text \<open>
  The red-black tree of \<open>src/core/ngx_rbtree.c\<close> and \<open>ngx_rbtree.h\<close>, on a store of nodes with
  parent pointers and one sentinel in place of all leaves.
\<close>

section \<open>The store\<close>

text \<open>
  A node \<open>ngx_rbtree_node_t\<close> is an address; each of its members is a map from addresses. The
  members \<open>root\<close> and \<open>sentinel\<close> of the one \<open>ngx_rbtree_t\<close> stand beside them; its \<open>insert\<close> is an
  argument of \<open>ngx_rbtree_insert\<close>.
\<close>

type_synonym addr = nat
type_synonym ngx_rbtree_key_t = ngx_uint_t

record ngx_rbtree_t =
  key :: "addr \<Rightarrow> ngx_rbtree_key_t"
  left :: "addr \<Rightarrow> addr"
  right :: "addr \<Rightarrow> addr"
  parent :: "addr \<Rightarrow> addr"
  color :: "addr \<Rightarrow> byte"
  root :: addr
  sentinel :: addr

abbreviation (input) NULL :: addr where "NULL \<equiv> 0"

definition set_key :: "addr \<Rightarrow> ngx_rbtree_key_t \<Rightarrow> ngx_rbtree_t \<Rightarrow> ngx_rbtree_t" where
  "set_key a k s = s\<lparr>key := (key s)(a := k)\<rparr>"

definition set_left :: "addr \<Rightarrow> addr \<Rightarrow> ngx_rbtree_t \<Rightarrow> ngx_rbtree_t" where
  "set_left a b s = s\<lparr>left := (left s)(a := b)\<rparr>"

definition set_right :: "addr \<Rightarrow> addr \<Rightarrow> ngx_rbtree_t \<Rightarrow> ngx_rbtree_t" where
  "set_right a b s = s\<lparr>right := (right s)(a := b)\<rparr>"

definition set_parent :: "addr \<Rightarrow> addr \<Rightarrow> ngx_rbtree_t \<Rightarrow> ngx_rbtree_t" where
  "set_parent a b s = s\<lparr>parent := (parent s)(a := b)\<rparr>"

definition set_color :: "addr \<Rightarrow> byte \<Rightarrow> ngx_rbtree_t \<Rightarrow> ngx_rbtree_t" where
  "set_color a c s = s\<lparr>color := (color s)(a := c)\<rparr>"

definition set_root :: "addr \<Rightarrow> ngx_rbtree_t \<Rightarrow> ngx_rbtree_t" where
  "set_root a s = s\<lparr>root := a\<rparr>"

named_theorems store \<open>reading a member after a member has been written\<close>

lemma store_simps [store]:
  "key (set_key a k s) = (key s)(a := k)" "left (set_key a k s) = left s" "right (set_key a k s) = right s"
  "parent (set_key a k s) = parent s" "color (set_key a k s) = color s" "root (set_key a k s) = root s"
  "sentinel (set_key a k s) = sentinel s"
  "key (set_left a b s) = key s" "left (set_left a b s) = (left s)(a := b)" "right (set_left a b s) = right s"
  "parent (set_left a b s) = parent s" "color (set_left a b s) = color s" "root (set_left a b s) = root s"
  "sentinel (set_left a b s) = sentinel s"
  "key (set_right a b s) = key s" "left (set_right a b s) = left s" "right (set_right a b s) = (right s)(a := b)"
  "parent (set_right a b s) = parent s" "color (set_right a b s) = color s" "root (set_right a b s) = root s"
  "sentinel (set_right a b s) = sentinel s"
  "key (set_parent a b s) = key s" "left (set_parent a b s) = left s" "right (set_parent a b s) = right s"
  "parent (set_parent a b s) = (parent s)(a := b)" "color (set_parent a b s) = color s" "root (set_parent a b s) = root s"
  "sentinel (set_parent a b s) = sentinel s"
  "key (set_color a c s) = key s" "left (set_color a c s) = left s" "right (set_color a c s) = right s"
  "parent (set_color a c s) = parent s" "color (set_color a c s) = (color s)(a := c)" "root (set_color a c s) = root s"
  "sentinel (set_color a c s) = sentinel s"
  "key (set_root a s) = key s" "left (set_root a s) = left s" "right (set_root a s) = right s"
  "parent (set_root a s) = parent s" "color (set_root a s) = color s" "root (set_root a s) = a"
  "sentinel (set_root a s) = sentinel s"
  by (simp_all add: set_key_def set_left_def set_right_def set_parent_def set_color_def set_root_def)

definition ngx_rbt_red :: "addr \<Rightarrow> ngx_rbtree_t \<Rightarrow> ngx_rbtree_t" where
  "ngx_rbt_red node = set_color node 1"

definition ngx_rbt_black :: "addr \<Rightarrow> ngx_rbtree_t \<Rightarrow> ngx_rbtree_t" where
  "ngx_rbt_black node = set_color node 0"

definition ngx_rbt_is_red :: "ngx_rbtree_t \<Rightarrow> addr \<Rightarrow> bool" where
  "ngx_rbt_is_red s node \<longleftrightarrow> color s node \<noteq> 0"

definition ngx_rbt_is_black :: "ngx_rbtree_t \<Rightarrow> addr \<Rightarrow> bool" where
  "ngx_rbt_is_black s node \<longleftrightarrow> \<not> ngx_rbt_is_red s node"

definition ngx_rbt_copy_color :: "addr \<Rightarrow> addr \<Rightarrow> ngx_rbtree_t \<Rightarrow> ngx_rbtree_t" where
  "ngx_rbt_copy_color n1 n2 s = set_color n1 (color s n2) s"

definition ngx_rbtree_init :: "addr \<Rightarrow> ngx_rbtree_t \<Rightarrow> ngx_rbtree_t" where
  "ngx_rbtree_init sent s = (ngx_rbt_black sent s)\<lparr>root := sent, sentinel := sent\<rparr>"

partial_function (option) ngx_rbtree_min :: "addr \<Rightarrow> ngx_rbtree_t \<Rightarrow> addr option" where
  "ngx_rbtree_min node s = (if left s node \<noteq> sentinel s then ngx_rbtree_min (left s node) s else Some node)"

section \<open>Rotations\<close>

definition ngx_rbtree_left_rotate :: "addr \<Rightarrow> ngx_rbtree_t \<Rightarrow> ngx_rbtree_t" where
  "ngx_rbtree_left_rotate node s =
    (let temp = right s node;
         s = set_right node (left s temp) s;
         s = (if left s temp \<noteq> sentinel s then set_parent (left s temp) node s else s);
         s = set_parent temp (parent s node) s;
         s = (if node = root s then set_root temp s
              else if node = left s (parent s node) then set_left (parent s node) temp s
              else set_right (parent s node) temp s);
         s = set_left temp node s
     in set_parent node temp s)"

definition ngx_rbtree_right_rotate :: "addr \<Rightarrow> ngx_rbtree_t \<Rightarrow> ngx_rbtree_t" where
  "ngx_rbtree_right_rotate node s =
    (let temp = left s node;
         s = set_left node (right s temp) s;
         s = (if right s temp \<noteq> sentinel s then set_parent (right s temp) node s else s);
         s = set_parent temp (parent s node) s;
         s = (if node = root s then set_root temp s
              else if node = right s (parent s node) then set_right (parent s node) temp s
              else set_left (parent s node) temp s);
         s = set_right temp node s
     in set_parent node temp s)"

section \<open>Insertion\<close>

text \<open>The assignments behind the loops of the two insert functions, for \<open>p = &temp->left\<close> and \<open>p = &temp->right\<close>.\<close>

definition link_node :: "addr \<Rightarrow> addr \<Rightarrow> addr \<Rightarrow> ngx_rbtree_t \<Rightarrow> ngx_rbtree_t" where
  "link_node temp node sent s =
    ngx_rbt_red node (set_right node sent (set_left node sent (set_parent node temp s)))"

partial_function (option) ngx_rbtree_insert_value :: "addr \<Rightarrow> addr \<Rightarrow> addr \<Rightarrow> ngx_rbtree_t \<Rightarrow> ngx_rbtree_t option" where
  "ngx_rbtree_insert_value temp node sent s =
    (if key s node < key s temp
     then if left s temp = sent then Some (link_node temp node sent (set_left temp node s))
          else ngx_rbtree_insert_value (left s temp) node sent s
     else if right s temp = sent then Some (link_node temp node sent (set_right temp node s))
          else ngx_rbtree_insert_value (right s temp) node sent s)"

partial_function (option) ngx_rbtree_insert_timer_value :: "addr \<Rightarrow> addr \<Rightarrow> addr \<Rightarrow> ngx_rbtree_t \<Rightarrow> ngx_rbtree_t option" where
  "ngx_rbtree_insert_timer_value temp node sent s =
    (if key s node - key s temp <s 0
     then if left s temp = sent then Some (link_node temp node sent (set_left temp node s))
          else ngx_rbtree_insert_timer_value (left s temp) node sent s
     else if right s temp = sent then Some (link_node temp node sent (set_right temp node s))
          else ngx_rbtree_insert_timer_value (right s temp) node sent s)"

text \<open>The body of the loop that re-balances: the new \<open>node\<close> and store.\<close>

definition insert_left :: "addr \<Rightarrow> ngx_rbtree_t \<Rightarrow> addr \<times> ngx_rbtree_t" where
  "insert_left node s =
    (let temp = right s (parent s (parent s node)) in
     if ngx_rbt_is_red s temp
     then
       let s = ngx_rbt_black (parent s node) s;
           s = ngx_rbt_black temp s;
           s = ngx_rbt_red (parent s (parent s node)) s
       in (parent s (parent s node), s)
     else
       let (node, s) =
             (if node = right s (parent s node)
              then let node = parent s node in (node, ngx_rbtree_left_rotate node s)
              else (node, s));
           s = ngx_rbt_black (parent s node) s;
           s = ngx_rbt_red (parent s (parent s node)) s
       in (node, ngx_rbtree_right_rotate (parent s (parent s node)) s))"

definition insert_right :: "addr \<Rightarrow> ngx_rbtree_t \<Rightarrow> addr \<times> ngx_rbtree_t" where
  "insert_right node s =
    (let temp = left s (parent s (parent s node)) in
     if ngx_rbt_is_red s temp
     then
       let s = ngx_rbt_black (parent s node) s;
           s = ngx_rbt_black temp s;
           s = ngx_rbt_red (parent s (parent s node)) s
       in (parent s (parent s node), s)
     else
       let (node, s) =
             (if node = left s (parent s node)
              then let node = parent s node in (node, ngx_rbtree_right_rotate node s)
              else (node, s));
           s = ngx_rbt_black (parent s node) s;
           s = ngx_rbt_red (parent s (parent s node)) s
       in (node, ngx_rbtree_left_rotate (parent s (parent s node)) s))"

partial_function (option) insert_loop :: "addr \<Rightarrow> ngx_rbtree_t \<Rightarrow> ngx_rbtree_t option" where
  "insert_loop node s =
    (if node \<noteq> root s \<and> ngx_rbt_is_red s (parent s node)
     then
       (case if parent s node = left s (parent s (parent s node)) then insert_left node s else insert_right node s of
          (node, s) \<Rightarrow> insert_loop node s)
     else Some s)"

definition ngx_rbtree_insert ::
  "(addr \<Rightarrow> addr \<Rightarrow> addr \<Rightarrow> ngx_rbtree_t \<Rightarrow> ngx_rbtree_t option) \<Rightarrow> addr \<Rightarrow> ngx_rbtree_t \<Rightarrow> ngx_rbtree_t option" where
  "ngx_rbtree_insert ins node s =
    (if root s = sentinel s
     then
       let s = set_parent node NULL s;
           s = set_left node (sentinel s) s;
           s = set_right node (sentinel s) s;
           s = ngx_rbt_black node s
       in Some (set_root node s)
     else
       do {
         s \<leftarrow> ins (root s) node (sentinel s) s;
         s \<leftarrow> insert_loop node s;
         Some (ngx_rbt_black (root s) s)
       })"

section \<open>Deletion\<close>

text \<open>The node that is taken out of its place, and the child that moves up.\<close>

definition delete_subst :: "addr \<Rightarrow> ngx_rbtree_t \<Rightarrow> (addr \<times> addr) option" where
  "delete_subst node s =
    (if left s node = sentinel s then Some (node, right s node)
     else if right s node = sentinel s then Some (node, left s node)
     else
       do {
         subst \<leftarrow> ngx_rbtree_min (right s node) s;
         Some (subst, if left s subst \<noteq> sentinel s then left s subst else right s subst)
       })"

text \<open>\<open>DEBUG stuff\<close>\<close>

definition delete_clear :: "addr \<Rightarrow> ngx_rbtree_t \<Rightarrow> ngx_rbtree_t" where
  "delete_clear node s = set_key node 0 (set_parent node NULL (set_right node NULL (set_left node NULL s)))"

text \<open>\<open>subst\<close> is replaced by \<open>temp\<close>, and \<open>node\<close> by \<open>subst\<close>.\<close>

definition delete_unlink :: "addr \<Rightarrow> addr \<Rightarrow> addr \<Rightarrow> ngx_rbtree_t \<Rightarrow> ngx_rbtree_t" where
  "delete_unlink node subst temp s =
    (let s = (if subst = left s (parent s subst) then set_left (parent s subst) temp s
              else set_right (parent s subst) temp s)
     in
       if subst = node then set_parent temp (parent s subst) s
       else
         let s = (if parent s subst = node then set_parent temp subst s else set_parent temp (parent s subst) s);
             s = set_left subst (left s node) s;
             s = set_right subst (right s node) s;
             s = set_parent subst (parent s node) s;
             s = ngx_rbt_copy_color subst node s;
             s = (if node = root s then set_root subst s
                  else if node = left s (parent s node) then set_left (parent s node) subst s
                  else set_right (parent s node) subst s);
             s = (if left s subst \<noteq> sentinel s then set_parent (left s subst) subst s else s)
         in if right s subst \<noteq> sentinel s then set_parent (right s subst) subst s else s)"

text \<open>The body of the loop that re-balances: the new \<open>temp\<close> and store.\<close>

definition delete_left :: "addr \<Rightarrow> ngx_rbtree_t \<Rightarrow> addr \<times> ngx_rbtree_t" where
  "delete_left temp s =
    (let w = right s (parent s temp);
         (w, s) =
           (if ngx_rbt_is_red s w
            then
              let s = ngx_rbt_black w s;
                  s = ngx_rbt_red (parent s temp) s;
                  s = ngx_rbtree_left_rotate (parent s temp) s
              in (right s (parent s temp), s)
            else (w, s))
     in
       if ngx_rbt_is_black s (left s w) \<and> ngx_rbt_is_black s (right s w)
       then let s = ngx_rbt_red w s in (parent s temp, s)
       else
         let (w, s) =
               (if ngx_rbt_is_black s (right s w)
                then
                  let s = ngx_rbt_black (left s w) s;
                      s = ngx_rbt_red w s;
                      s = ngx_rbtree_right_rotate w s
                  in (right s (parent s temp), s)
                else (w, s));
             s = ngx_rbt_copy_color w (parent s temp) s;
             s = ngx_rbt_black (parent s temp) s;
             s = ngx_rbt_black (right s w) s;
             s = ngx_rbtree_left_rotate (parent s temp) s
         in (root s, s))"

definition delete_right :: "addr \<Rightarrow> ngx_rbtree_t \<Rightarrow> addr \<times> ngx_rbtree_t" where
  "delete_right temp s =
    (let w = left s (parent s temp);
         (w, s) =
           (if ngx_rbt_is_red s w
            then
              let s = ngx_rbt_black w s;
                  s = ngx_rbt_red (parent s temp) s;
                  s = ngx_rbtree_right_rotate (parent s temp) s
              in (left s (parent s temp), s)
            else (w, s))
     in
       if ngx_rbt_is_black s (left s w) \<and> ngx_rbt_is_black s (right s w)
       then let s = ngx_rbt_red w s in (parent s temp, s)
       else
         let (w, s) =
               (if ngx_rbt_is_black s (left s w)
                then
                  let s = ngx_rbt_black (right s w) s;
                      s = ngx_rbt_red w s;
                      s = ngx_rbtree_left_rotate w s
                  in (left s (parent s temp), s)
                else (w, s));
             s = ngx_rbt_copy_color w (parent s temp) s;
             s = ngx_rbt_black (parent s temp) s;
             s = ngx_rbt_black (left s w) s;
             s = ngx_rbtree_right_rotate (parent s temp) s
         in (root s, s))"

partial_function (option) delete_loop :: "addr \<Rightarrow> ngx_rbtree_t \<Rightarrow> (addr \<times> ngx_rbtree_t) option" where
  "delete_loop temp s =
    (if temp \<noteq> root s \<and> ngx_rbt_is_black s temp
     then
       (case if temp = left s (parent s temp) then delete_left temp s else delete_right temp s of
          (temp, s) \<Rightarrow> delete_loop temp s)
     else Some (temp, s))"

definition ngx_rbtree_delete :: "addr \<Rightarrow> ngx_rbtree_t \<Rightarrow> ngx_rbtree_t option" where
  "ngx_rbtree_delete node s =
    do {
      (subst, temp) \<leftarrow> delete_subst node s;
      if subst = root s
      then Some (delete_clear node (ngx_rbt_black temp (set_root temp s)))
      else
        let red = ngx_rbt_is_red s subst;
            s = delete_clear node (delete_unlink node subst temp s)
        in
          if red then Some s
          else do {
            (temp, s) \<leftarrow> delete_loop temp s;
            Some (ngx_rbt_black temp s)
          }
    }"

section \<open>Trees in the store\<close>

text \<open>The shape of a tree, with the addresses of its nodes; True is red.\<close>

datatype rbt = Lf | Nd bool rbt addr rbt

fun inorder :: "rbt \<Rightarrow> addr list" where
  "inorder Lf = []"
| "inorder (Nd c l a r) = inorder l @ a # inorder r"

fun ptr_of :: "addr \<Rightarrow> rbt \<Rightarrow> addr" where
  "ptr_of sent Lf = sent"
| "ptr_of sent (Nd c l a r) = a"

abbreviation col :: "bool \<Rightarrow> byte" where
  "col c \<equiv> (if c then 1 else 0)"

abbreviation child_of :: "ngx_rbtree_t \<Rightarrow> rbt \<Rightarrow> addr \<Rightarrow> bool" where
  "child_of s t a \<equiv> t \<noteq> Lf \<longrightarrow> parent s (ptr_of (sentinel s) t) = a"

text \<open>The store holds the tree, whatever the parent of its root.\<close>

fun heap :: "ngx_rbtree_t \<Rightarrow> rbt \<Rightarrow> bool" where
  "heap s Lf \<longleftrightarrow> True"
| "heap s (Nd c l a r) \<longleftrightarrow>
    a \<noteq> sentinel s \<and> color s a = col c \<and>
    left s a = ptr_of (sentinel s) l \<and> right s a = ptr_of (sentinel s) r \<and>
    child_of s l a \<and> child_of s r a \<and> heap s l \<and> heap s r"

definition rep :: "ngx_rbtree_t \<Rightarrow> rbt \<Rightarrow> bool" where
  "rep s t \<longleftrightarrow> heap s t \<and> distinct (inorder t) \<and> root s = ptr_of (sentinel s) t \<and> color s (sentinel s) = 0"

text \<open>
  A position in a tree: the nodes on the way to the root, with the side the position is on
  (True is left), and the other subtree.
\<close>

type_synonym frame = "bool \<times> bool \<times> addr \<times> rbt"

fun up :: "frame \<Rightarrow> rbt \<Rightarrow> rbt" where
  "up (d, c, a, t') t = (if d then Nd c t a t' else Nd c t' a t)"

fun plug :: "frame list \<Rightarrow> rbt \<Rightarrow> rbt" where
  "plug [] t = t"
| "plug (f # K) t = plug K (up f t)"

abbreviation faddr :: "frame \<Rightarrow> addr" where "faddr f \<equiv> fst (snd (snd f))"
abbreviation fcolor :: "frame \<Rightarrow> bool" where "fcolor f \<equiv> fst (snd f)"

fun before_hole :: "frame list \<Rightarrow> addr list" where
  "before_hole [] = []"
| "before_hole ((d, c, a, t) # K) = before_hole K @ (if d then [] else inorder t @ [a])"

fun after_hole :: "frame list \<Rightarrow> addr list" where
  "after_hole [] = []"
| "after_hole ((d, c, a, t) # K) = (if d then a # inorder t else []) @ after_hole K"

lemma inorder_plug: "inorder (plug K t) = before_hole K @ inorder t @ after_hole K"
  by (induction K t rule: plug.induct) (auto split: if_splits)

definition ctx_nodes :: "frame list \<Rightarrow> addr set" where
  "ctx_nodes K = set (before_hole K) \<union> set (after_hole K)"

lemma ctx_nodes_simps [simp]:
  "ctx_nodes [] = {}" "ctx_nodes ((d, c, a, t) # K) = {a} \<union> set (inorder t) \<union> ctx_nodes K"
  by (auto simp: ctx_nodes_def)

fun heap_ctx :: "ngx_rbtree_t \<Rightarrow> frame list \<Rightarrow> addr \<Rightarrow> bool \<Rightarrow> bool" where
  "heap_ctx s [] p lf \<longleftrightarrow> True"
| "heap_ctx s ((d, c, a, t) # K) p lf \<longleftrightarrow>
    a \<noteq> sentinel s \<and> color s a = col c \<and>
    left s a = (if d then p else ptr_of (sentinel s) t) \<and> right s a = (if d then ptr_of (sentinel s) t else p) \<and>
    (\<not> lf \<longrightarrow> parent s p = a) \<and> child_of s t a \<and> heap s t \<and> heap_ctx s K a False"

lemma heap_plug: "heap s (plug K t) \<longleftrightarrow> heap s t \<and> heap_ctx s K (ptr_of (sentinel s) t) (t = Lf)"
  by (induction K t rule: plug.induct) (auto split: if_splits)

lemma heap_sentinel: "heap s t \<Longrightarrow> sentinel s \<notin> set (inorder t)"
  by (induction t) auto

lemma heap_ctx_sentinel: "heap_ctx s K p lf \<Longrightarrow> sentinel s \<notin> ctx_nodes K"
  by (induction K arbitrary: p lf) (auto simp: heap_sentinel)

text \<open>Writing elsewhere leaves a tree alone.\<close>

definition agree :: "ngx_rbtree_t \<Rightarrow> ngx_rbtree_t \<Rightarrow> addr set \<Rightarrow> bool" where
  "agree s s' A \<longleftrightarrow> sentinel s' = sentinel s \<and>
    (\<forall>a\<in>A. left s' a = left s a \<and> right s' a = right s a \<and> parent s' a = parent s a \<and> color s' a = color s a)"

lemma agree_mono: "agree s s' A \<Longrightarrow> B \<subseteq> A \<Longrightarrow> agree s s' B"
  by (auto simp: agree_def)

lemma ptr_in: "t \<noteq> Lf \<Longrightarrow> ptr_of sent t \<in> set (inorder t)"
  by (cases t) auto

lemma heap_agree: "agree s s' (set (inorder t)) \<Longrightarrow> heap s t \<Longrightarrow> heap s' t"
proof (induction t)
  case (Nd c l a r)
  have "agree s s' (set (inorder l))" "agree s s' (set (inorder r))"
    using Nd.prems(1) by (auto elim: agree_mono)
  with Nd ptr_in [of l "sentinel s"] ptr_in [of r "sentinel s"] show ?case by (auto simp: agree_def)
qed simp

lemma heap_ctx_agree:
  "agree s s' (ctx_nodes K) \<Longrightarrow> (lf \<or> K = [] \<or> parent s' p = parent s p) \<Longrightarrow> heap_ctx s K p lf \<Longrightarrow> heap_ctx s' K p lf"
proof (induction K arbitrary: p lf)
  case (Cons f K)
  obtain d c a t where f: "f = (d, c, a, t)" by (cases f)
  have ag: "agree s s' (set (inorder t))" "agree s s' (ctx_nodes K)" "agree s s' {a}"
    using Cons.prems(1) by (auto simp: f elim: agree_mono)
  with Cons.prems heap_agree [OF ag(1)] Cons.IH [OF ag(2), of False a] ptr_in [of t "sentinel s"] show ?case
    by (auto simp: f agree_def)
qed simp

section \<open>Replacing a subtree\<close>

definition relink :: "frame list \<Rightarrow> addr \<Rightarrow> ngx_rbtree_t \<Rightarrow> ngx_rbtree_t" where
  "relink K p s =
    (case K of [] \<Rightarrow> set_root p s | (d, c, a, t) # _ \<Rightarrow> if d then set_left a p s else set_right a p s)"

lemma ptr_plug: "K \<noteq> [] \<Longrightarrow> ptr_of sent (plug K t) = ptr_of sent (plug K t')"
proof (induction K arbitrary: t t')
  case (Cons f K)
  obtain d c a u where "f = (d, c, a, u)" by (cases f)
  with Cons show ?case by (cases "K = []") auto
qed simp

lemma ptr_plug_in: "K \<noteq> [] \<Longrightarrow> ptr_of sent (plug K t) \<in> ctx_nodes K"
proof (induction K arbitrary: t)
  case (Cons f K)
  obtain d c a u where "f = (d, c, a, u)" by (cases f)
  with Cons show ?case by (cases "K = []") auto
qed simp

lemma distinct_plug: "distinct (inorder (plug K t)) \<longleftrightarrow>
    distinct (before_hole K @ after_hole K) \<and> distinct (inorder t) \<and> set (inorder t) \<inter> ctx_nodes K = {}"
  by (auto simp: inorder_plug ctx_nodes_def)

lemma rep_plug:
  "rep s (plug K t) \<longleftrightarrow>
    heap s t \<and> heap_ctx s K (ptr_of (sentinel s) t) (t = Lf) \<and>
    distinct (before_hole K @ after_hole K) \<and> distinct (inorder t) \<and> set (inorder t) \<inter> ctx_nodes K = {} \<and>
    root s = ptr_of (sentinel s) (plug K t) \<and> color s (sentinel s) = 0"
  unfolding rep_def heap_plug distinct_plug by blast

text \<open>A change inside a subtree that leaves its root in place.\<close>

lemma rep_focus:
  assumes "rep s (plug K t)" "agree s s' (ctx_nodes K)" "root s' = root s" "color s' (sentinel s) = 0"
    and "heap s' t'" "distinct (inorder t')" "set (inorder t') \<inter> ctx_nodes K = {}"
    and "t \<noteq> Lf" "t' \<noteq> Lf" "ptr_of (sentinel s) t' = ptr_of (sentinel s) t"
    and "K = [] \<or> parent s' (ptr_of (sentinel s) t) = parent s (ptr_of (sentinel s) t)"
  shows "rep s' (plug K t')"
proof -
  have sent: "sentinel s' = sentinel s" using assms(2) by (simp add: agree_def)
  have "heap_ctx s' K (ptr_of (sentinel s) t) False"
    using assms heap_ctx_agree [OF assms(2), of False "ptr_of (sentinel s) t"] by (auto simp: rep_plug)
  moreover have "root s' = ptr_of (sentinel s) (plug K t')"
    using assms ptr_plug [of K "sentinel s" t t'] by (cases "K = []") (auto simp: rep_def)
  ultimately show ?thesis using assms by (simp add: rep_plug sent)
qed

text \<open>A subtree that is exchanged for another, with the pointer to it.\<close>

lemma rep_relink:
  assumes "rep s (plug K t)" "agree s s' (ctx_nodes K)" "root s' = root s" "color s' (sentinel s) = 0"
    and "heap s' t'" "distinct (inorder t')" "set (inorder t') \<inter> ctx_nodes K = {}"
    and "t' \<noteq> Lf \<Longrightarrow> K \<noteq> [] \<Longrightarrow> parent s' (ptr_of (sentinel s) t') = faddr (hd K)"
  shows "rep (relink K (ptr_of (sentinel s) t') s') (plug K t')"
proof (cases K)
  case Nil
  have "agree s' (set_root q s') A" for q A by (simp add: agree_def store)
  with Nil assms heap_agree [of s' "set_root (ptr_of (sentinel s) t') s'" t'] show ?thesis
    by (simp add: rep_def relink_def store agree_def)
next
  case (Cons f K')
  obtain d c a u where f: "f = (d, c, a, u)" by (cases f)
  let ?p = "ptr_of (sentinel s) t'"
  define z where "z = relink K ?p s'"
  have z: "sentinel z = sentinel s'" "root z = root s'" "color z = color s'" "parent z = parent s'"
    "left z = (if d then (left s')(a := ?p) else left s')" "right z = (if d then right s' else (right s')(a := ?p))"
    by (simp_all add: z_def relink_def Cons f store)
  have sent: "sentinel s' = sentinel s" using assms(2) by (simp add: agree_def)
  have dis: "a \<notin> set (inorder u)" "a \<notin> ctx_nodes K'" "a \<notin> set (inorder t')"
    using assms(1,7) by (cases d; simp add: rep_def distinct_plug Cons f; blast)+
  then have ag: "agree s' z (set (inorder t'))" "agree s' z (set (inorder u))" "agree s' z (ctx_nodes K')"
    unfolding agree_def z by (cases d; fastforce)+
  have "heap_ctx s K (ptr_of (sentinel s) t) (t = Lf)" using assms(1) unfolding rep_plug by blast
  then have "heap_ctx s K (ptr_of (sentinel s) t) True" by (simp add: Cons f)
  then have ctx: "heap_ctx s' ((d, c, a, u) # K') (ptr_of (sentinel s) t) True"
    using heap_ctx_agree [OF assms(2), of True] unfolding Cons f by blast
  then have up: "heap_ctx z K' a False" "heap z u"
    using heap_agree [OF ag(2)] heap_ctx_agree [OF ag(3), of False a] by (simp_all add: z)
  have "heap_ctx z K ?p (t' = Lf)"
    using ctx up assms(8) by (cases d) (simp_all add: z sent Cons f)
  moreover have "root z = ptr_of (sentinel s) (plug K t')"
    using assms(1,3) ptr_plug [of K "sentinel s" t t'] by (simp add: rep_def z Cons)
  moreover have "heap z t'" using heap_agree [OF ag(1)] assms(5) .
  ultimately show ?thesis
    using assms(1,4,6,7) unfolding z_def [symmetric] rep_plug z sent by blast
qed

text \<open>The code finds the pointer by comparing with the root and the left (right) child of the parent.\<close>

lemma relink_code:
  assumes "heap_ctx s K p False" "p \<notin> ctx_nodes K" "p \<noteq> sentinel s" "K = [] \<Longrightarrow> root s = p" "K \<noteq> [] \<Longrightarrow> root s \<noteq> p"
  shows "(if p = root s then set_root q s else if p = left s (parent s p) then set_left (parent s p) q s
      else set_right (parent s p) q s) = relink K q s \<and>
    (if p = root s then set_root q s else if p = right s (parent s p) then set_right (parent s p) q s
      else set_left (parent s p) q s) = relink K q s"
proof (cases K)
  case (Cons f K')
  obtain d c a t where f: "f = (d, c, a, t)" by (cases f)
  have "p \<noteq> ptr_of (sentinel s) t"
    using assms(2,3) ptr_in [of t "sentinel s"] by (cases "t = Lf") (auto simp: Cons f)
  moreover have "root s \<noteq> p" "parent s p = a" using assms(1,5) by (auto simp: Cons f)
  ultimately show ?thesis
    using assms(1) by (cases d) (auto simp: relink_def Cons f)
qed (use assms in \<open>simp add: relink_def\<close>)

lemma relink_commute:
  "a \<notin> ctx_nodes K \<Longrightarrow> set_left a b (relink K q s) = relink K q (set_left a b s)"
  "a \<notin> ctx_nodes K \<Longrightarrow> set_right a b (relink K q s) = relink K q (set_right a b s)"
  "set_parent a b (relink K q s) = relink K q (set_parent a b s)"
  by (cases K; auto simp: relink_def set_left_def set_right_def set_parent_def set_root_def fun_upd_twist)+

lemma heap_write [simp]:
  "a \<notin> set (inorder t) \<Longrightarrow> heap (set_left a b s) t = heap s t"
  "a \<notin> set (inorder t) \<Longrightarrow> heap (set_right a b s) t = heap s t"
  "a \<notin> set (inorder t) \<Longrightarrow> heap (set_parent a b s) t = heap s t"
  "a \<notin> set (inorder t) \<Longrightarrow> heap (set_color a c s) t = heap s t"
  "heap (set_key a k s) t = heap s t" "heap (set_root a s) t = heap s t"
proof -
  have ag: "agree s s' A \<Longrightarrow> agree s' s A" for s s' A by (auto simp: agree_def)
  have eq: "agree s s' (set (inorder t)) \<Longrightarrow> heap s' t = heap s t" for s s'
    using heap_agree [of s s' t] heap_agree [of s' s t] ag by blast
  show "a \<notin> set (inorder t) \<Longrightarrow> heap (set_left a b s) t = heap s t"
    "a \<notin> set (inorder t) \<Longrightarrow> heap (set_right a b s) t = heap s t"
    "a \<notin> set (inorder t) \<Longrightarrow> heap (set_parent a b s) t = heap s t"
    "a \<notin> set (inorder t) \<Longrightarrow> heap (set_color a c s) t = heap s t"
    "heap (set_key a k s) t = heap s t" "heap (set_root a s) t = heap s t"
    by (rule eq; auto simp: agree_def store)+
qed

lemma heap_write_parent: "distinct (inorder t) \<Longrightarrow> heap (set_parent (ptr_of (sentinel s) t) b s) t = heap s t"
proof (cases t)
  case (Nd c l a r)
  assume "distinct (inorder t)"
  then have "a \<notin> set (inorder l)" "a \<notin> set (inorder r)" by (auto simp: Nd)
  with ptr_in [of l "sentinel s"] ptr_in [of r "sentinel s"] show ?thesis by (auto simp: Nd store)
qed simp

lemma rep_root: "rep s (plug K (Nd c l x r)) \<Longrightarrow> (K = [] \<longrightarrow> root s = x) \<and> (K \<noteq> [] \<longrightarrow> root s \<noteq> x)"
  using ptr_plug_in [of K "sentinel s" "Nd c l x r"] by (auto simp: rep_plug)

lemma left_rotate:
  assumes "rep s (plug K (Nd c l x (Nd c' m y r)))"
  shows "rep (ngx_rbtree_left_rotate x s) (plug K (Nd c' (Nd c l x m) y r))"
proof -
  let ?t = "Nd c l x (Nd c' m y r)" and ?t' = "Nd c' (Nd c l x m) y r"
  define s1 where "s1 = set_right x (ptr_of (sentinel s) m) s"
  define s2 where "s2 = (if m = Lf then s1 else set_parent (ptr_of (sentinel s) m) x s1)"
  define s3 where "s3 = set_parent y (parent s x) s2"
  define s' where "s' = set_parent x y (set_left y x s3)"
  have h: "heap s ?t" "heap_ctx s K x False" "distinct (inorder ?t)" "set (inorder ?t) \<inter> ctx_nodes K = {}"
    using assms by (auto simp: rep_plug)
  then have dis: "x \<noteq> y" "x \<notin> set (inorder l)" "x \<notin> set (inorder m)" "x \<notin> set (inorder r)" "y \<notin> set (inorder l)" "y \<notin> set (inorder m)"
    "y \<notin> set (inorder r)" "set (inorder m) \<inter> set (inorder l) = {}" "set (inorder m) \<inter> set (inorder r) = {}"
    "x \<notin> ctx_nodes K" "y \<notin> ctx_nodes K" "x \<noteq> sentinel s" "y \<noteq> sentinel s" by auto
  have mp: "ptr_of (sentinel s) m \<noteq> sentinel s \<longleftrightarrow> m \<noteq> Lf" "m \<noteq> Lf \<Longrightarrow> ptr_of (sentinel s) m \<in> set (inorder m)"
    using heap_sentinel [of s m] ptr_in [of m "sentinel s"] h(1) by (cases m; auto)+
  have mp2: "m \<noteq> Lf \<Longrightarrow> ptr_of (sentinel s) m \<notin> set (inorder l)" "m \<noteq> Lf \<Longrightarrow> ptr_of (sentinel s) m \<notin> set (inorder r)"
    using mp dis by auto
  have ag: "agree s s3 (ctx_nodes K)" "agree s s' (ctx_nodes K)"
    using h(4) mp dis by (auto simp: agree_def s'_def s3_def s2_def s1_def store)
  have f: "sentinel s3 = sentinel s" "root s3 = root s" "parent s3 x = parent s x" "left s1 y = ptr_of (sentinel s) m"
    "parent s2 x = parent s x" "sentinel s1 = sentinel s"
    using dis mp by (auto simp: s3_def s2_def s1_def store h(1) [simplified])
  have "heap_ctx s3 K x False" using heap_ctx_agree [OF ag(1), of False x] h(2) f by simp
  from relink_code [OF this, of y] rep_root [OF assms] dis f
  have e4: "(if x = root s3 then set_root y s3 else if x = left s3 (parent s3 x) then set_left (parent s3 x) y s3
    else set_right (parent s3 x) y s3) = relink K y s3" by simp
  have e2: "(if left s1 y \<noteq> sentinel s1 then set_parent (left s1 y) x s1 else s1) = s2" using f mp by (simp add: s2_def)
  have e3: "set_parent y (parent s2 x) s2 = s3" by (simp add: s3_def f)
  have r: "right s x = y" "left s y = ptr_of (sentinel s) m" using h(1) by simp_all
  have "ngx_rbtree_left_rotate x s = set_parent x y (set_left y x (relink K y s3))"
    unfolding ngx_rbtree_left_rotate_def Let_def r s1_def [symmetric] e2 e3 e4 ..
  also have "\<dots> = relink K y s'" using dis by (simp add: relink_commute s'_def)
  finally have "ngx_rbtree_left_rotate x s = relink K (ptr_of (sentinel s) ?t') s'" by simp
  moreover have "heap s' ?t'"
  proof -
    have "heap s1 m" using h(1) dis by (simp add: s1_def)
    then have "heap s2 m" using heap_write_parent [of m s1 x] h(3) f by (auto simp: s2_def)
    moreover have "heap s2 l" "heap s2 r" using h(1) dis mp2 by (simp_all add: s2_def s1_def)
    ultimately have "heap s' l \<and> heap s' m \<and> heap s' r" using dis by (simp add: s'_def s3_def)
    moreover have "l \<noteq> Lf \<Longrightarrow> ptr_of (sentinel s) l \<noteq> x \<and> ptr_of (sentinel s) l \<noteq> y \<and> (m \<noteq> Lf \<longrightarrow> ptr_of (sentinel s) l \<noteq> ptr_of (sentinel s) m)"
      "r \<noteq> Lf \<Longrightarrow> ptr_of (sentinel s) r \<noteq> x \<and> ptr_of (sentinel s) r \<noteq> y \<and> (m \<noteq> Lf \<longrightarrow> ptr_of (sentinel s) r \<noteq> ptr_of (sentinel s) m)"
      using ptr_in [of l "sentinel s"] ptr_in [of r "sentinel s"] mp2 dis by auto
    ultimately show ?thesis
      using h(1) dis mp by (auto simp: s'_def s3_def s2_def s1_def store)
  qed
  moreover have "K \<noteq> [] \<Longrightarrow> parent s' y = faddr (hd K)"
    using h(2) dis by (cases K) (auto simp: s'_def s3_def store)
  ultimately show ?thesis
    using rep_relink [OF assms ag(2), of ?t'] h(3,4) assms dis f by (auto simp: rep_plug s'_def s3_def s2_def s1_def store)
qed

section \<open>Symmetry\<close>

text \<open>The code for the right side is the code for the left side with \<open>left\<close> and \<open>right\<close> exchanged.\<close>

definition flip :: "ngx_rbtree_t \<Rightarrow> ngx_rbtree_t" where
  "flip s = s\<lparr>left := right s, right := left s\<rparr>"

fun flipt :: "rbt \<Rightarrow> rbt" where
  "flipt Lf = Lf"
| "flipt (Nd c l a r) = Nd c (flipt r) a (flipt l)"

fun flipf :: "frame \<Rightarrow> frame" where
  "flipf (d, c, a, t) = (\<not> d, c, a, flipt t)"

lemma flip_members [simp]:
  "left (flip s) = right s" "right (flip s) = left s" "parent (flip s) = parent s" "color (flip s) = color s"
  "key (flip s) = key s" "root (flip s) = root s" "sentinel (flip s) = sentinel s" "flip (flip s) = s"
  by (simp_all add: flip_def)

lemma flip_writes [simp]:
  "flip (set_left a b s) = set_right a b (flip s)" "flip (set_right a b s) = set_left a b (flip s)"
  "flip (set_parent a b s) = set_parent a b (flip s)" "flip (set_color a c s) = set_color a c (flip s)"
  "flip (set_root a s) = set_root a (flip s)" "flip (set_key a k s) = set_key a k (flip s)"
  by (simp_all add: flip_def set_left_def set_right_def set_parent_def set_color_def set_root_def set_key_def)

lemma flipt_simps [simp]:
  "flipt (flipt t) = t" "inorder (flipt t) = rev (inorder t)"
  by (induction t) auto

lemma flipt_root [simp]: "ptr_of sent (flipt t) = ptr_of sent t" "flipt t = Lf \<longleftrightarrow> t = Lf"
  by (cases t; simp)+

lemma heap_flip [simp]: "heap (flip s) (flipt t) = heap s t"
  by (induction t) auto

lemma flipt_plug: "flipt (plug K t) = plug (map flipf K) (flipt t)"
  by (induction K t rule: plug.induct) auto

lemma rep_flip [simp]: "rep (flip s) (flipt t) = rep s t"
  by (simp add: rep_def)

lemma rep_flip_plug: "rep (flip s) (plug (map flipf K) (flipt t)) = rep s (plug K t)"
  by (simp flip: flipt_plug)

lemma flip_if: "(if b then flip s else flip s') = flip (if b then s else s')"
  by simp

lemmas flip_out = flip_members flip_if flip_writes [symmetric]

lemma right_rotate_flip: "ngx_rbtree_right_rotate node s = flip (ngx_rbtree_left_rotate node (flip s))"
  unfolding ngx_rbtree_right_rotate_def ngx_rbtree_left_rotate_def Let_def by (simp only: flip_out)

lemma right_rotate:
  assumes "rep s (plug K (Nd c (Nd c' l y m) x r))"
  shows "rep (ngx_rbtree_right_rotate x s) (plug K (Nd c' l y (Nd c m x r)))"
proof -
  have "rep (flip s) (plug (map flipf K) (Nd c (flipt r) x (Nd c' (flipt m) y (flipt l))))"
    using assms rep_flip_plug [of s K "Nd c (Nd c' l y m) x r"] by simp
  from left_rotate [OF this] show ?thesis
    using rep_flip_plug [of "ngx_rbtree_right_rotate x s" K "Nd c' l y (Nd c m x r)"] by (simp add: right_rotate_flip)
qed

text \<open>What a rotation leaves alone.\<close>

lemma rotate_frame [store]:
  "key (ngx_rbtree_left_rotate x s) = key s" "sentinel (ngx_rbtree_left_rotate x s) = sentinel s"
  "color (ngx_rbtree_left_rotate x s) = color s"
  "key (ngx_rbtree_right_rotate x s) = key s" "sentinel (ngx_rbtree_right_rotate x s) = sentinel s"
  "color (ngx_rbtree_right_rotate x s) = color s"
  by (auto simp: right_rotate_flip ngx_rbtree_left_rotate_def Let_def store)

section \<open>Colours\<close>

lemma color_node:
  assumes "rep s (plug K (Nd c l x r))"
  shows "rep (set_color x (col c') s) (plug K (Nd c' l x r))"
proof (rule rep_focus [OF assms])
  have h: "heap s (Nd c l x r)" "distinct (inorder (Nd c l x r))" "set (inorder (Nd c l x r)) \<inter> ctx_nodes K = {}"
    "color s (sentinel s) = 0" using assms by (auto simp: rep_plug)
  then show "agree s (set_color x (col c') s) (ctx_nodes K)" "color (set_color x (col c') s) (sentinel s) = 0"
    "heap (set_color x (col c') s) (Nd c' l x r)"
    by (auto simp: agree_def store)
  show "distinct (inorder (Nd c' l x r))" "set (inorder (Nd c' l x r)) \<inter> ctx_nodes K = {}" using h by simp_all
qed (simp_all add: store)

lemma color_frame:
  assumes "rep s (plug ((d, c, x, u) # K) t)"
  shows "rep (set_color x (col c') s) (plug ((d, c', x, u) # K) t)"
  using assms color_node [of s K c t x u c'] color_node [of s K c u x t c'] by (cases d) simp_all

lemma color_sibling:
  assumes "rep s (plug ((d, e, p, Nd c l x r) # K) t)"
  shows "rep (set_color x (col c') s) (plug ((d, e, p, Nd c' l x r) # K) t)"
  using assms color_node [of s "(\<not> d, e, p, t) # K" c l x r c'] by (cases d) simp_all

lemma rep_frame:
  assumes "rep s (plug ((d, c, p, u) # K) t)"
  shows "color s p = col c" "left s p = ptr_of (sentinel s) (if d then t else u)"
    "right s p = ptr_of (sentinel s) (if d then u else t)" "t \<noteq> Lf \<Longrightarrow> parent s (ptr_of (sentinel s) t) = p"
    "p \<noteq> sentinel s"
  using assms by (auto simp: rep_plug split: if_splits)

section \<open>Balance\<close>

fun is_redt :: "rbt \<Rightarrow> bool" where
  "is_redt (Nd True l a r) = True"
| "is_redt t = False"

text \<open>A red-black tree of black height \<open>n\<close>; its root may be red.\<close>

fun rb :: "nat \<Rightarrow> rbt \<Rightarrow> bool" where
  "rb n Lf \<longleftrightarrow> n = 0"
| "rb n (Nd True l a r) \<longleftrightarrow> \<not> is_redt l \<and> \<not> is_redt r \<and> rb n l \<and> rb n r"
| "rb n (Nd False l a r) \<longleftrightarrow> n \<noteq> 0 \<and> rb (n - 1) l \<and> rb (n - 1) r"

text \<open>A position where a black tree of black height \<open>n\<close> belongs; the root of the whole tree is black.\<close>

fun rb_ctx :: "nat \<Rightarrow> frame list \<Rightarrow> bool" where
  "rb_ctx n [] \<longleftrightarrow> True"
| "rb_ctx n ((d, True, a, t) # K) \<longleftrightarrow> rb n t \<and> \<not> is_redt t \<and> K \<noteq> [] \<and> \<not> fcolor (hd K) \<and> rb_ctx n K"
| "rb_ctx n ((d, False, a, t) # K) \<longleftrightarrow> rb n t \<and> rb_ctx (Suc n) K"

abbreviation red_above :: "frame list \<Rightarrow> bool" where
  "red_above K \<equiv> K \<noteq> [] \<and> fcolor (hd K)"

lemma rb_plug:
  "rb_ctx n K \<Longrightarrow> rb n t \<Longrightarrow> is_redt t \<Longrightarrow> \<not> red_above K \<Longrightarrow> (\<exists>m. rb m (plug K t)) \<and> (K \<noteq> [] \<longrightarrow> \<not> is_redt (plug K t))"
  "rb_ctx n K \<Longrightarrow> rb n t \<Longrightarrow> \<not> is_redt t \<Longrightarrow> (\<exists>m. rb m (plug K t)) \<and> \<not> is_redt (plug K t)"
proof (induction n K arbitrary: t rule: rb_ctx.induct)
  case (2 n d a u K)
  { case 1 with 2 show ?case by auto
  next
    case 2 with "2.IH"(1) [of "up (d, True, a, u) t"] show ?case by (cases d) auto
  }
next
  case (3 n d a u K)
  { case 1 with "3.IH"(2) [of "up (d, False, a, u) t"] show ?case by (cases d) auto
  next
    case 2 with "3.IH"(2) [of "up (d, False, a, u) t"] show ?case by (cases d) auto
  }
qed auto

lemma plug_rb:
  "rb m (plug K t) \<Longrightarrow> \<not> is_redt (plug K t) \<Longrightarrow> \<exists>n. rb_ctx n K \<and> rb n t \<and> (red_above K \<longrightarrow> \<not> is_redt t) \<and> (K = [] \<longrightarrow> \<not> is_redt t)"
proof (induction K arbitrary: t)
  case (Cons f K)
  obtain d c a u where f: "f = (d, c, a, u)" by (cases f)
  from Cons.IH [of "up f t"] Cons.prems obtain n where
    n: "rb_ctx n K" "rb n (up f t)" "red_above K \<longrightarrow> \<not> is_redt (up f t)" "K = [] \<longrightarrow> \<not> is_redt (up f t)" by auto
  show ?case
  proof (cases c)
    case True
    with n have "rb_ctx n (f # K) \<and> rb n t \<and> \<not> is_redt t" by (cases d) (auto simp: f)
    then show ?thesis by auto
  next
    case False
    with n have "rb_ctx (n - 1) (f # K) \<and> rb (n - 1) t" by (cases d) (auto simp: f)
    then show ?thesis using False f by auto
  qed
qed auto

lemma rb_flipt [simp]: "is_redt (flipt t) = is_redt t" "rb n (flipt t) = rb n t"
proof -
  show r: "is_redt (flipt t) = is_redt t" for t by (cases t rule: is_redt.cases) auto
  show "rb n (flipt t) = rb n t" by (induction n t rule: rb.induct) (auto simp: r)
qed

lemma rb_ctx_flip [simp]: "rb_ctx n (map flipf K) = rb_ctx n K"
proof (induction n K rule: rb_ctx.induct)
  case (2 n d a t K)
  then show ?case by (cases K) auto
qed auto

section \<open>Insertion keeps the balance\<close>

lemmas rbt_color_defs = ngx_rbt_red_def ngx_rbt_black_def ngx_rbt_is_red_def ngx_rbt_is_black_def ngx_rbt_copy_color_def

lemma is_redtE:
  assumes "is_redt t"
  obtains l a r where "t = Nd True l a r"
  using assms by (cases t rule: is_redt.cases) auto

lemma is_red_ptr: "rep s (plug K t) \<Longrightarrow> ngx_rbt_is_red s (ptr_of (sentinel s) t) \<longleftrightarrow> is_redt t"
  by (cases t rule: is_redt.cases) (auto simp: rep_plug ngx_rbt_is_red_def)

lemma is_red_sibling: "rep s (plug ((d, c, p, u) # K) t) \<Longrightarrow> ngx_rbt_is_red s (ptr_of (sentinel s) u) \<longleftrightarrow> is_redt u"
  using is_red_ptr [of s "(\<not> d, c, p, t) # K" u] by (cases d) auto

text \<open>A red uncle: the colours move up.\<close>

lemma insert_left_uncle:
  assumes "rep s (plug ((d, True, p, u) # (True, False, g, Nd True wl b wr) # K) (Nd True l a r))"
  shows "\<exists>s'. insert_left a s = (g, s') \<and> key s' = key s \<and> sentinel s' = sentinel s \<and>
    rep s' (plug ((d, False, p, u) # (True, True, g, Nd False wl b wr) # K) (Nd True l a r))"
proof -
  let ?t = "Nd True l a r"
  let ?s = "set_color g 1 (set_color b 0 (set_color p 0 s))"
  note 1 = rep_frame [OF assms]
  have "rep s (plug ((True, False, g, Nd True wl b wr) # K) (up (d, True, p, u) ?t))" using assms by simp
  note 2 = rep_frame [OF this]
  have "rep (set_color p 0 s) (plug ((True, False, g, Nd True wl b wr) # K) (up (d, False, p, u) ?t))"
    using color_frame [OF assms, of False] by simp
  from color_frame [OF color_sibling [OF this, of False], of True]
  have "rep ?s (plug ((d, False, p, u) # (True, True, g, Nd False wl b wr) # K) ?t)" by simp
  moreover have par: "parent s a = p" "parent s p = g" "right s g = b" using 1 2 by (cases d; simp)+
  moreover have "color s b \<noteq> 0" using assms by (cases d) (auto simp: rep_plug)
  then have "insert_left a s = (g, ?s)"
    by (simp add: insert_left_def Let_def rbt_color_defs par store)
  ultimately show ?thesis by (auto simp: store)
qed

text \<open>A black uncle, with the new node on the outer side: one rotation.\<close>

lemma insert_left_rotate:
  assumes "rep s (plug ((True, True, p, u) # (True, False, g, w) # K) t)" "t \<noteq> Lf"
  shows "rep (ngx_rbtree_right_rotate g (set_color g 1 (set_color p 0 s))) (plug ((True, False, p, Nd True u g w) # K) t)"
proof -
  have "rep (set_color p 0 s) (plug ((True, False, g, w) # K) (Nd False t p u))" using color_frame [OF assms(1), of False] by simp
  from color_frame [OF this, of True] have "rep (set_color g 1 (set_color p 0 s)) (plug K (Nd True (Nd False t p u) g w))" by simp
  from right_rotate [OF this] show ?thesis by simp
qed

text \<open>A node on the inner side is first rotated to the outer side.\<close>

lemma insert_left_turn:
  assumes rep: "rep s (plug ((d, True, p, u) # (True, False, g, w) # K) (Nd True l a r))"
    and rb: "rb n (Nd True l a r)" "rb n u" "\<not> is_redt u"
  obtains s1 q v t1 where "rep s1 (plug ((True, True, q, v) # (True, False, g, w) # K) t1)" "key s1 = key s" "sentinel s1 = sentinel s"
    "is_redt t1" "rb n t1" "rb n v" "\<not> is_redt v" "inorder t1 @ q # inorder v = inorder (up (d, True, p, u) (Nd True l a r))"
    "(if a = right s (parent s a) then let node = parent s a in (node, ngx_rbtree_left_rotate node s) else (a, s)) =
      (ptr_of (sentinel s) t1, s1)"
proof (cases d)
  case True
  have "a \<noteq> ptr_of (sentinel s) u" using rep ptr_in [of u "sentinel s"] by (cases "u = Lf") (auto simp: True rep_plug)
  with rep_frame [OF rep] True rb rep that [of s p u "Nd True l a r"] show ?thesis by simp
next
  case False
  have "rep s (plug ((True, False, g, w) # K) (Nd True u p (Nd True l a r)))" using rep False by simp
  from left_rotate [OF this]
  have "rep (ngx_rbtree_left_rotate p s) (plug ((True, True, a, r) # (True, False, g, w) # K) (Nd True u p l))" by simp
  with rep_frame [OF rep] False rb that [of "ngx_rbtree_left_rotate p s" a r "Nd True u p l"] show ?thesis by (simp add: store)
qed

text \<open>One round of the loop; \<open>t\<close> is the tree at \<open>node\<close>.\<close>

definition insert_step :: "(addr \<Rightarrow> ngx_rbtree_t \<Rightarrow> addr \<times> ngx_rbtree_t) \<Rightarrow> ngx_rbtree_t \<Rightarrow> frame list \<Rightarrow> rbt \<Rightarrow> bool" where
  "insert_step f s K t \<longleftrightarrow>
    (\<exists>s' K' t' n'. f (ptr_of (sentinel s) t) s = (ptr_of (sentinel s) t', s') \<and>
      rep s' (plug K' t') \<and> inorder (plug K' t') = inorder (plug K t) \<and> key s' = key s \<and> sentinel s' = sentinel s \<and>
      is_redt t' \<and> rb n' t' \<and> rb_ctx n' K' \<and> length K' < length K)"

lemma insert_left_step:
  assumes rep: "rep s (plug ((d, True, p, u) # (True, False, g, w) # K) t)"
    and t: "is_redt t" "rb n t" and ctx: "rb_ctx n ((d, True, p, u) # (True, False, g, w) # K)"
  shows "insert_step insert_left s ((d, True, p, u) # (True, False, g, w) # K) t"
proof -
  obtain l a r where t': "t = Nd True l a r" using t(1) by (rule is_redtE)
  have rep': "rep s (plug ((True, False, g, w) # K) (up (d, True, p, u) t))" using rep by simp
  have par: "parent s a = p" "parent s p = g" "right s g = ptr_of (sentinel s) w"
    using rep_frame [OF rep] rep_frame [OF rep'] by (cases d; simp add: t')+
  show ?thesis
  proof (cases "is_redt w")
    case True
    then obtain wl b wr where w: "w = Nd True wl b wr" by (rule is_redtE)
    from insert_left_uncle [OF rep [unfolded w t']] obtain s' where
      s': "insert_left a s = (g, s')" "key s' = key s" "sentinel s' = sentinel s"
      "rep s' (plug K (up (True, True, g, Nd False wl b wr) (up (d, False, p, u) t)))" by (auto simp: t')
    with ctx t show ?thesis unfolding insert_step_def
      by (intro exI [of _ s'] exI [of _ K] exI [of _ "up (True, True, g, Nd False wl b wr) (up (d, False, p, u) t)"] exI [of _ "Suc n"])
        (cases d; simp add: t' w inorder_plug)
  next
    case False
    then have black: "color s (ptr_of (sentinel s) w) = 0"
      using is_red_sibling [OF rep'] by (simp add: ngx_rbt_is_red_def)
    have u: "rb n u" "\<not> is_redt u" using ctx by simp_all
    obtain s1 q v t1 where s1: "rep s1 (plug ((True, True, q, v) # (True, False, g, w) # K) t1)" "key s1 = key s" "sentinel s1 = sentinel s"
        "is_redt t1" "rb n t1" "rb n v" "\<not> is_redt v" "inorder t1 @ q # inorder v = inorder (up (d, True, p, u) (Nd True l a r))"
      and eq: "(if a = right s (parent s a) then let node = parent s a in (node, ngx_rbtree_left_rotate node s) else (a, s)) =
        (ptr_of (sentinel s) t1, s1)"
      by (rule insert_left_turn [OF rep [unfolded t'] t(2) [unfolded t'] u])
    have n1: "t1 \<noteq> Lf" using s1(4) by auto
    have "rep s1 (plug ((True, False, g, w) # K) (Nd True t1 q v))" using s1(1) by simp
    then have par1: "parent s1 (ptr_of (sentinel s) t1) = q" "parent s1 q = g"
      using rep_frame(4) [OF s1(1)] rep_frame(4) n1 s1(3) by fastforce+
    define s' where "s' = ngx_rbtree_right_rotate g (set_color g 1 (set_color q 0 s1))"
    have "insert_left a s = (ptr_of (sentinel s) t1, s')"
      unfolding insert_left_def eq using black par by (simp add: Let_def rbt_color_defs par1 s'_def store)
    then show ?thesis unfolding insert_step_def
      using insert_left_rotate [OF s1(1) n1] s1 ctx
      by (intro exI [of _ s'] exI [of _ "(True, False, q, Nd True v g w) # K"] exI [of _ t1] exI [of _ n])
        (cases d; auto simp: t' inorder_plug s'_def store False)
  qed
qed

lemma insert_right_flip: "insert_right node s = map_prod id flip (insert_left node (flip s))"
  by (simp add: insert_right_def insert_left_def Let_def rbt_color_defs right_rotate_flip store)

lemma insert_right_step:
  assumes rep: "rep s (plug ((d, True, p, u) # (False, False, g, w) # K) t)"
    and t: "is_redt t" "rb n t" and ctx: "rb_ctx n ((d, True, p, u) # (False, False, g, w) # K)"
  shows "insert_step insert_right s ((d, True, p, u) # (False, False, g, w) # K) t"
proof -
  let ?K = "(d, True, p, u) # (False, False, g, w) # K"
  have fl: "map flipf ?K = (\<not> d, True, p, flipt u) # (True, False, g, flipt w) # map flipf K" by simp
  have "rep (flip s) (plug (map flipf ?K) (flipt t))" "rb_ctx n (map flipf ?K)"
    using rep ctx by (simp_all only: rep_flip_plug rb_ctx_flip)
  then have "insert_step insert_left (flip s) (map flipf ?K) (flipt t)"
    using t unfolding fl by (intro insert_left_step [where n = n]) auto
  then obtain s' K' t' n' where *: "insert_left (ptr_of (sentinel s) t) (flip s) = (ptr_of (sentinel s) t', s')"
      "rep s' (plug K' t')" "inorder (plug K' t') = inorder (plug (map flipf ?K) (flipt t))" "key s' = key s" "sentinel s' = sentinel s"
      "is_redt t'" "rb n' t'" "rb_ctx n' K'" "length K' < length ?K"
    unfolding insert_step_def by auto
  have "inorder (plug (map flipf K') (flipt t')) = inorder (plug ?K t)"
    using arg_cong [OF *(3), of rev] by (simp only: flipt_plug [symmetric] flipt_simps rev_rev_ident)
  then show ?thesis unfolding insert_step_def
    using * rep_flip_plug [of s' K' t']
    by (intro exI [of _ "flip s'"] exI [of _ "map flipf K'"] exI [of _ "flipt t'"] exI [of _ n'])
      (simp add: insert_right_flip)
qed

fun blacken :: "rbt \<Rightarrow> rbt" where
  "blacken Lf = Lf"
| "blacken (Nd c l a r) = Nd False l a r"

lemma rb_blacken: "rb n t \<Longrightarrow> \<exists>m. rb m (blacken t)"
  by (cases t rule: is_redt.cases) (auto intro: exI [of _ "Suc n"])

lemma insert_loop_unfold:
  assumes "rep s (plug ((d, True, p, u) # (e, False, g, w) # K) (Nd True l a r))"
  shows "insert_loop a s = (case if e then insert_left a s else insert_right a s of (node, s) \<Rightarrow> insert_loop node s)"
proof -
  let ?t = "Nd True l a r"
  have 2: "rep s (plug ((e, False, g, w) # K) (up (d, True, p, u) ?t))" using assms by simp
  have par: "parent s a = p" "parent s p = g" "color s p = 1" "left s g = (if e then p else ptr_of (sentinel s) w)"
    using rep_frame [OF assms] rep_frame [OF 2] by (cases d; cases e; simp)+
  have "p \<in> set (inorder (up (d, True, p, u) ?t))" "set (inorder (up (d, True, p, u) ?t)) \<inter> ctx_nodes ((e, False, g, w) # K) = {}"
    "heap s (up (d, True, p, u) ?t)" using 2 unfolding rep_plug by (cases d; auto)+
  then have "p \<noteq> ptr_of (sentinel s) w"
    using ptr_in [of w "sentinel s"] heap_sentinel [of s "up (d, True, p, u) ?t"] by (cases "w = Lf") auto
  then have "parent s a = left s (parent s (parent s a)) \<longleftrightarrow> e" by (simp add: par)
  moreover have "a \<noteq> root s" using rep_root [OF assms] by auto
  ultimately show ?thesis by (subst insert_loop.simps) (simp add: ngx_rbt_is_red_def par)
qed

lemma insert_loop:
  "rep s (plug K t) \<Longrightarrow> is_redt t \<Longrightarrow> rb n t \<Longrightarrow> rb_ctx n K \<Longrightarrow>
    \<exists>s' T m. insert_loop (ptr_of (sentinel s) t) s = Some s' \<and> rep s' T \<and> inorder T = inorder (plug K t) \<and>
      key s' = key s \<and> sentinel s' = sentinel s \<and> rb m T"
proof (induction K arbitrary: s t n rule: length_induct)
  case (1 K)
  obtain l a r where t: "t = Nd True l a r" using 1(3) by (rule is_redtE)
  show ?case
  proof (cases "red_above K")
    case False
    obtain m where "rb m (plug K t)" using rb_plug(1) [OF 1(5,4,3)] False by auto
    moreover have "insert_loop (ptr_of (sentinel s) t) s = Some s"
    proof (cases K)
      case Nil
      then show ?thesis using 1(2) by (subst insert_loop.simps) (simp add: rep_def)
    next
      case (Cons f K')
      then have "ngx_rbt_is_red s (parent s a) = fcolor f"
        using rep_frame(1,4) [of s "fst f" "fcolor f" "faddr f" "snd (snd (snd f))" K' t] 1(2) t by (auto simp: ngx_rbt_is_red_def)
      with False Cons t show ?thesis by (subst insert_loop.simps) simp
    qed
    ultimately show ?thesis using 1(2) by blast
  next
    case True
    then obtain d p u K1 where K1: "K = (d, True, p, u) # K1" by (cases K) auto
    with 1(5) obtain e g w K2 where K: "K = (d, True, p, u) # (e, False, g, w) # K2" by (cases K1) auto
    let ?f = "if e then insert_left else insert_right"
    have "insert_step ?f s K t"
      using 1(2-5) insert_left_step [of s d p u g w K2 t n] insert_right_step [of s d p u g w K2 t n]
      by (cases e) (simp_all add: K del: plug.simps rb_ctx.simps)
    then obtain s' K' t' n' where *: "?f a s = (ptr_of (sentinel s) t', s')" "rep s' (plug K' t')"
        "inorder (plug K' t') = inorder (plug K t)" "key s' = key s" "sentinel s' = sentinel s"
        "is_redt t'" "rb n' t'" "rb_ctx n' K'" "length K' < length K"
      unfolding insert_step_def t by auto
    have "insert_loop a s = insert_loop (ptr_of (sentinel s') t') s'"
      using insert_loop_unfold [OF 1(2) [unfolded K t]] * by (simp split: if_splits)
    with 1(1) * show ?thesis unfolding t by simp metis
  qed
qed

lemma link_leaf:
  assumes rep: "rep s (plug ((d, c, a, u) # K) Lf)" and node: "node \<notin> ctx_nodes ((d, c, a, u) # K)" "node \<noteq> sentinel s"
  shows "rep (link_node a node (sentinel s) (if d then set_left a node s else set_right a node s))
    (plug ((d, c, a, u) # K) (Nd True Lf node Lf))"
proof -
  define s' where "s' = link_node a node (sentinel s) s"
  have s': "link_node a node (sentinel s) (if d then set_left a node s else set_right a node s) = relink ((d, c, a, u) # K) node s'"
    using node by (cases d) (auto simp: link_node_def relink_def s'_def rbt_color_defs set_left_def set_right_def set_parent_def
      set_color_def fun_upd_twist)
  have "agree s s' (ctx_nodes ((d, c, a, u) # K))" "root s' = root s" "color s' (sentinel s) = 0" "heap s' (Nd True Lf node Lf)"
    "parent s' node = a"
    using node rep by (auto simp: agree_def s'_def link_node_def rbt_color_defs store rep_plug)
  with rep_relink [OF rep, of s' "Nd True Lf node Lf"] node show ?thesis by (simp add: s')
qed

text \<open>A tree in the store whose nodes are, in order, \<open>xs\<close>.\<close>

definition rb_tree :: "ngx_rbtree_t \<Rightarrow> addr list \<Rightarrow> bool" where
  "rb_tree s xs \<longleftrightarrow> (\<exists>T n. rep s T \<and> rb n T \<and> \<not> is_redt T \<and> inorder T = xs)"

definition ordered :: "('k \<Rightarrow> 'k \<Rightarrow> bool) \<Rightarrow> (addr \<Rightarrow> 'k) \<Rightarrow> addr list \<Rightarrow> bool" where
  "ordered before k xs \<longleftrightarrow> sorted_wrt (\<lambda>a b. \<not> before (k b) (k a)) xs"

text \<open>
  The contract of \<open>ngx_rbtree_insert_pt\<close>: a descent that follows a comparison of keys, which is
  a strict weak order on sets of keys that satisfy \<open>window\<close>.
\<close>

locale rbtree_insert_pt =
  fixes ins :: "addr \<Rightarrow> addr \<Rightarrow> addr \<Rightarrow> ngx_rbtree_t \<Rightarrow> ngx_rbtree_t option"
    and before :: "ngx_rbtree_key_t \<Rightarrow> ngx_rbtree_key_t \<Rightarrow> bool"
    and window :: "ngx_rbtree_key_t set \<Rightarrow> bool"
  assumes descend: "ins temp node sent s =
      (if before (key s node) (key s temp)
       then if left s temp = sent then Some (link_node temp node sent (set_left temp node s)) else ins (left s temp) node sent s
       else if right s temp = sent then Some (link_node temp node sent (set_right temp node s)) else ins (right s temp) node sent s)"
    and irrefl: "\<not> before a a"
    and trans: "window S \<Longrightarrow> {a, b, c} \<subseteq> S \<Longrightarrow> before a b \<Longrightarrow> before b c \<Longrightarrow> before a c"
    and weak: "window S \<Longrightarrow> {a, b, c} \<subseteq> S \<Longrightarrow> before a c \<Longrightarrow> before a b \<or> before b c"
begin

text \<open>The keys of the tree \<open>t\<close> and of \<open>node\<close> can be compared, and \<open>t\<close> is ordered.\<close>

definition comparable :: "ngx_rbtree_key_t set \<Rightarrow> (addr \<Rightarrow> ngx_rbtree_key_t) \<Rightarrow> addr \<Rightarrow> addr list \<Rightarrow> bool" where
  "comparable W k node xs \<longleftrightarrow> window W \<and> k ` set (node # xs) \<subseteq> W \<and> ordered before k xs"

definition fits :: "(addr \<Rightarrow> ngx_rbtree_key_t) \<Rightarrow> addr \<Rightarrow> addr list \<Rightarrow> addr list \<Rightarrow> bool" where
  "fits k node us vs \<longleftrightarrow> (\<forall>x\<in>set us. \<not> before (k node) (k x)) \<and> (\<forall>x\<in>set vs. \<not> before (k x) (k node))"

lemma comparable_parts: "comparable W k node (xs @ a # ys) \<Longrightarrow> comparable W k node xs \<and> comparable W k node ys"
  by (auto simp: comparable_def ordered_def sorted_wrt_append)

lemma fits_left:
  assumes "comparable W k node (xs @ a # ys)" "before (k node) (k a)" "xs = us @ vs" "fits k node us vs"
  shows "fits k node us (vs @ a # ys)"
proof -
  have "\<not> before (k a) (k node)"
    using assms(1,2) irrefl trans [of W "k a" "k node" "k a"] by (auto simp: comparable_def)
  moreover have "\<not> before (k x) (k node)" if "x \<in> set ys" for x
    using that assms(1,2) trans [of W "k x" "k node" "k a"] by (auto simp: comparable_def ordered_def sorted_wrt_append)
  ultimately show ?thesis using assms(4) by (auto simp: fits_def)
qed

lemma fits_right:
  assumes "comparable W k node (xs @ a # ys)" "\<not> before (k node) (k a)" "ys = us @ vs" "fits k node us vs"
  shows "fits k node (xs @ a # us) vs"
proof -
  have "\<not> before (k node) (k x)" if "x \<in> set xs" for x
    using that assms(1,2) weak [of W "k node" "k a" "k x"] by (auto simp: comparable_def ordered_def sorted_wrt_append)
  then show ?thesis using assms(2,4) by (auto simp: fits_def)
qed

lemma ins_tree:
  "rep s (plug K t) \<Longrightarrow> t \<noteq> Lf \<Longrightarrow> node \<notin> set (inorder (plug K t)) \<Longrightarrow> node \<noteq> sentinel s \<Longrightarrow>
    \<exists>s' K' us vs. ins (ptr_of (sentinel s) t) node (sentinel s) s = Some s' \<and> plug K' Lf = plug K t \<and>
      rep s' (plug K' (Nd True Lf node Lf)) \<and> key s' = key s \<and> sentinel s' = sentinel s \<and>
      inorder t = us @ vs \<and> before_hole K' = before_hole K @ us \<and> after_hole K' = vs @ after_hole K \<and>
      (comparable W (key s) node (inorder t) \<longrightarrow> fits (key s) node us vs)"
proof (induction t arbitrary: K)
  case (Nd c l a r)
  have h: "left s a = ptr_of (sentinel s) l" "right s a = ptr_of (sentinel s) r"
    "(ptr_of (sentinel s) l = sentinel s) = (l = Lf)" "(ptr_of (sentinel s) r = sentinel s) = (r = Lf)"
    using Nd.prems(1) heap_sentinel [of s l] heap_sentinel [of s r] ptr_in [of l "sentinel s"] ptr_in [of r "sentinel s"]
    by (auto simp: rep_plug)
  let ?n = "Nd True Lf node Lf"
  have node: "node \<notin> ctx_nodes ((True, c, a, r) # K)" "node \<notin> ctx_nodes ((False, c, a, l) # K)"
    using Nd.prems(3) by (auto simp: inorder_plug ctx_nodes_def)
  show ?case
  proof (cases "before (key s node) (key s a)")
    case True
    note left = fits_left [OF _ True, of W "inorder l" "inorder r"]
    show ?thesis
    proof (cases "l = Lf")
      case leaf: True
      have "rep (link_node a node (sentinel s) (set_left a node s)) (plug ((True, c, a, r) # K) ?n)"
        using link_leaf [of s True c a r K node] Nd.prems node leaf by simp
      then show ?thesis
        using True h leaf left [of "[]" "[]"]
        by (intro exI [of _ "link_node a node (sentinel s) (set_left a node s)"] exI [of _ "(True, c, a, r) # K"] exI [of _ "[]"] exI [of _ "a # inorder r"])
          (simp add: descend [of a] store link_node_def rbt_color_defs fits_def)
    next
      case False
      from Nd.IH(1) [of "(True, c, a, r) # K"] False Nd.prems h True obtain s' K' us vs where
        "ins a node (sentinel s) s = Some s'" "plug K' Lf = plug K (Nd c l a r)" "rep s' (plug K' ?n)" "key s' = key s" "sentinel s' = sentinel s"
        "inorder l = us @ vs" "before_hole K' = before_hole K @ us" "after_hole K' = vs @ a # inorder r @ after_hole K"
        "comparable W (key s) node (inorder l) \<longrightarrow> fits (key s) node us vs"
        by (auto simp: descend [of a])
      then show ?thesis
        using left comparable_parts [of W "key s" node "inorder l" a "inorder r"]
        by (intro exI [of _ s'] exI [of _ K'] exI [of _ us] exI [of _ "vs @ a # inorder r"]) auto
    qed
  next
    case False
    note right = fits_right [OF _ False, of W "inorder l" "inorder r"]
    show ?thesis
    proof (cases "r = Lf")
      case leaf: True
      have "rep (link_node a node (sentinel s) (set_right a node s)) (plug ((False, c, a, l) # K) ?n)"
        using link_leaf [of s False c a l K node] Nd.prems node leaf by simp
      then show ?thesis
        using False h leaf right [of "[]" "[]"]
        by (intro exI [of _ "link_node a node (sentinel s) (set_right a node s)"] exI [of _ "(False, c, a, l) # K"] exI [of _ "inorder l @ [a]"] exI [of _ "[]"])
          (simp add: descend [of a] store link_node_def rbt_color_defs fits_def)
    next
      case nonleaf: False
      from Nd.IH(2) [of "(False, c, a, l) # K"] nonleaf Nd.prems h False obtain s' K' us vs where
        "ins a node (sentinel s) s = Some s'" "plug K' Lf = plug K (Nd c l a r)" "rep s' (plug K' ?n)" "key s' = key s" "sentinel s' = sentinel s"
        "inorder r = us @ vs" "before_hole K' = before_hole K @ inorder l @ a # us" "after_hole K' = vs @ after_hole K"
        "comparable W (key s) node (inorder r) \<longrightarrow> fits (key s) node us vs"
        by (auto simp: descend [of a])
      then show ?thesis
        using right comparable_parts [of W "key s" node "inorder l" a "inorder r"]
        by (intro exI [of _ s'] exI [of _ K'] exI [of _ "inorder l @ a # us"] exI [of _ vs]) auto
    qed
  qed
qed simp

lemma insert_empty:
  assumes "rb_tree s []" "node \<noteq> sentinel s"
  shows "\<exists>s'. ngx_rbtree_insert ins node s = Some s' \<and> rb_tree s' [node] \<and> key s' = key s \<and> sentinel s' = sentinel s"
proof -
  have rep: "rep s Lf" using assms(1) by (auto simp: rb_tree_def) (metis append_is_Nil_conv inorder.elims list.distinct(1))
  define s' where "s' = set_root node (set_color node 0 (set_right node (sentinel s) (set_left node (sentinel s) (set_parent node NULL s))))"
  have "rep s' (Nd False Lf node Lf)" using rep assms(2) by (simp add: s'_def rep_def store)
  moreover have "rb 1 (Nd False Lf node Lf)" by simp
  ultimately have "rb_tree s' [node]" unfolding rb_tree_def by (intro exI [of _ "Nd False Lf node Lf"] exI [of _ 1]) simp
  moreover have "ngx_rbtree_insert ins node s = Some s'"
    using rep by (simp add: ngx_rbtree_insert_def rep_def s'_def rbt_color_defs Let_def store)
  ultimately show ?thesis by (simp add: s'_def store)
qed

lemma insert_tree:
  assumes "rb_tree s xs" "node \<notin> set xs" "node \<noteq> sentinel s"
  shows "\<exists>s' us vs. ngx_rbtree_insert ins node s = Some s' \<and> xs = us @ vs \<and> rb_tree s' (us @ node # vs) \<and>
    key s' = key s \<and> sentinel s' = sentinel s \<and>
    (window (key s ` set (node # xs)) \<and> ordered before (key s) xs \<longrightarrow> ordered before (key s) (us @ node # vs))"
proof (cases "xs = []")
  case True
  with insert_empty [of s node] assms show ?thesis by (auto simp: ordered_def)
next
  case False
  obtain T n where T: "rep s (plug [] T)" "rb n T" "\<not> is_redt T" "inorder T = xs" using assms(1) by (auto simp: rb_tree_def)
  with False have "T \<noteq> Lf" by auto
  have root: "ptr_of (sentinel s) T = root s" using T(1) by (simp add: rep_def)
  from ins_tree [OF T(1) \<open>T \<noteq> Lf\<close>, of node "key s ` set (node # xs)"] assms T(4) root obtain s1 K us vs where
    s1: "ins (root s) node (sentinel s) s = Some s1" "plug K Lf = T" "rep s1 (plug K (Nd True Lf node Lf))" "key s1 = key s"
      "sentinel s1 = sentinel s" "xs = us @ vs" "before_hole K = us" "after_hole K = vs"
      "comparable (key s ` set (node # xs)) (key s) node xs \<longrightarrow> fits (key s) node us vs"
    by auto
  have "rb_ctx 0 K" using plug_rb [of n K Lf] T s1(2) by auto
  from insert_loop [OF s1(3) _ _ this] s1(5) obtain s2 T2 m where
    s2: "insert_loop node s1 = Some s2" "rep s2 T2" "inorder T2 = us @ node # vs" "key s2 = key s" "sentinel s2 = sentinel s" "rb m T2"
    using s1 by (auto simp: inorder_plug)
  then obtain c l a r where T2: "T2 = Nd c l a r" by (cases T2) auto
  have root2: "root s2 = a" using s2(2) by (simp add: T2 rep_def)
  let ?s = "ngx_rbt_black (root s2) s2"
  have "root s \<noteq> sentinel s" using T \<open>T \<noteq> Lf\<close> ptr_in [of T "sentinel s"] heap_sentinel [of s T] by (auto simp: rep_def)
  then have "ngx_rbtree_insert ins node s = Some ?s" using s1(1) s2(1) by (simp add: ngx_rbtree_insert_def)
  moreover have "rep ?s (blacken T2)" "is_redt (blacken T2) = False" "inorder (blacken T2) = us @ node # vs"
    using color_node [of s2 "[]" c l a r False] s2(2,3) root2 by (simp_all add: T2 rbt_color_defs)
  with rb_blacken [OF s2(6)] have "rb_tree ?s (us @ node # vs)" unfolding rb_tree_def by metis
  moreover have "ordered before (key s) (us @ node # vs)"
    if "window (key s ` set (node # xs)) \<and> ordered before (key s) xs"
    using that s1(6,9) by (auto simp: comparable_def ordered_def sorted_wrt_append fits_def)
  ultimately show ?thesis using s1(6) s2 by (auto simp: rbt_color_defs store)
qed

end

text \<open>Keys that are compared as numbers, and timers that are compared modulo the width.\<close>

interpretation by_value: rbtree_insert_pt ngx_rbtree_insert_value "(<)" "\<lambda>_. True"
  by unfold_locales (auto simp: ngx_rbtree_insert_value.simps)

definition timer_before :: "ngx_rbtree_key_t \<Rightarrow> ngx_rbtree_key_t \<Rightarrow> bool" where
  "timer_before a b \<longleftrightarrow> a - b <s 0"

definition timer_window :: "ngx_rbtree_key_t set \<Rightarrow> bool" where
  "timer_window S \<longleftrightarrow> (\<exists>now. \<forall>k\<in>S. unat (k - now) < 2 ^ 31)"

lemma timer_before_window:
  assumes "unat (a - now) < 2 ^ 31" "unat (b - now) < 2 ^ 31"
  shows "timer_before a b \<longleftrightarrow> unat (a - now) < unat (b - now)"
proof -
  define x y where "x = a - now" and "y = b - now"
  have eq: "a - b = x - y" by (simp add: x_def y_def)
  have lt: "unat x < 2147483648" "unat y < 2147483648" using assms by (simp_all add: x_def y_def)
  then have sx: "sint x = int (unat x)" and sy: "sint y = int (unat y)"
    using sint_unat_cases [of x] sint_unat_cases [of y] by simp_all
  have "- 2147483648 \<le> sint x - sint y" unfolding sx sy using lt by linarith
  moreover have "sint x - sint y < 2147483648" unfolding sx sy using lt by linarith
  ultimately have "sint (x - y) = sint x - sint y" by (intro sint_diff) simp_all
  then show ?thesis
    unfolding timer_before_def x_def [symmetric] y_def [symmetric] word_sless_alt eq sx sy signed_0 by linarith
qed

interpretation by_timer: rbtree_insert_pt ngx_rbtree_insert_timer_value timer_before timer_window
proof unfold_locales
  show "ngx_rbtree_insert_timer_value temp node sent s =
      (if timer_before (key s node) (key s temp)
       then if left s temp = sent then Some (link_node temp node sent (set_left temp node s))
            else ngx_rbtree_insert_timer_value (left s temp) node sent s
       else if right s temp = sent then Some (link_node temp node sent (set_right temp node s))
            else ngx_rbtree_insert_timer_value (right s temp) node sent s)" for temp node sent s
    by (subst ngx_rbtree_insert_timer_value.simps) (simp add: timer_before_def)
  show "\<not> timer_before a a" for a by (simp add: timer_before_def)
  show "timer_before a c" if S: "timer_window S" "{a, b, c} \<subseteq> S" and "timer_before a b" "timer_before b c" for S a b c
  proof -
    obtain now where "\<forall>k\<in>S. unat (k - now) < 2 ^ 31" using S(1) unfolding timer_window_def by blast
    then show ?thesis
      using S(2) that(3,4) timer_before_window [of a now b] timer_before_window [of b now c] timer_before_window [of a now c] by auto
  qed
  show "timer_before a b \<or> timer_before b c" if S: "timer_window S" "{a, b, c} \<subseteq> S" and "timer_before a c" for S a b c
  proof -
    obtain now where "\<forall>k\<in>S. unat (k - now) < 2 ^ 31" using S(1) unfolding timer_window_def by blast
    then show ?thesis
      using S(2) that(3) timer_before_window [of a now b] timer_before_window [of b now c] timer_before_window [of a now c] by auto
  qed
qed

end
