(* ===== verification/Rbtree_Delete.thy ===== *)
theory Rbtree_Delete
  imports Rbtree
begin

text \<open>
  Deletion from the red-black tree (\<open>ngx_rbtree_delete\<close>): the node is taken out of the store and
  the loop restores the balance; and the properties of the tree as a whole.
\<close>

section \<open>The loop\<close>

lemma rotate_sentinel:
  "x \<noteq> sentinel s \<Longrightarrow> right s x \<noteq> sentinel s \<Longrightarrow> parent (ngx_rbtree_left_rotate x s) (sentinel s) = parent s (sentinel s)"
  "x \<noteq> sentinel s \<Longrightarrow> left s x \<noteq> sentinel s \<Longrightarrow> parent (ngx_rbtree_right_rotate x s) (sentinel s) = parent s (sentinel s)"
  by (auto simp: right_rotate_flip ngx_rbtree_left_rotate_def Let_def store)

text \<open>
  Before a round: the tree \<open>t\<close> at \<open>temp\<close> is one too low, unless its root is red, and knows its
  parent even when it is a leaf.
\<close>

definition delete_inv :: "ngx_rbtree_t \<Rightarrow> frame list \<Rightarrow> rbt \<Rightarrow> bool" where
  "delete_inv s K t \<longleftrightarrow> rep s (plug K t) \<and> (K \<noteq> [] \<longrightarrow> parent s (ptr_of (sentinel s) t) = faddr (hd K)) \<and>
    (\<exists>n. if is_redt t then rb n (blacken t) \<and> rb_ctx n K else rb n t \<and> rb_ctx (Suc n) K)"

text \<open>The same with a fixed height, below a node.\<close>

definition too_low :: "nat \<Rightarrow> ngx_rbtree_t \<Rightarrow> bool \<Rightarrow> addr \<Rightarrow> rbt \<Rightarrow> frame list \<Rightarrow> rbt \<Rightarrow> bool" where
  "too_low n s c p u K t \<longleftrightarrow> rep s (plug ((True, c, p, u) # K) t) \<and> parent s (ptr_of (sentinel s) t) = p \<and>
    rb n t \<and> \<not> is_redt t \<and> rb_ctx (Suc n) ((True, c, p, u) # K)"

definition same_nodes :: "ngx_rbtree_t \<Rightarrow> rbt \<Rightarrow> ngx_rbtree_t \<Rightarrow> rbt \<Rightarrow> bool" where
  "same_nodes s T s' T' \<longleftrightarrow> inorder T' = inorder T \<and> key s' = key s \<and> sentinel s' = sentinel s"

lemma black_nonleaf: "rb (Suc n) u \<Longrightarrow> \<not> is_redt u \<Longrightarrow> \<exists>a w b. u = Nd False a w b \<and> rb n a \<and> rb n b"
  by (cases u rule: is_redt.cases) auto

lemma parent_of_hole:
  "rep s (plug ((d, c, p, u) # K) t) \<Longrightarrow> (t = Lf \<Longrightarrow> parent s (sentinel s) = p) \<Longrightarrow> parent s (ptr_of (sentinel s) t) = p"
  using rep_frame(4) [of s d c p u K t] by (cases "t = Lf") auto

lemma set_color_sentinel [store]: "parent (set_color a c s) = parent s" "sentinel (set_color a c s) = sentinel s"
  by (simp_all add: store)

text \<open>A red sibling is rotated away.\<close>

lemma delete_left_red:
  assumes "too_low n s c p u K t" "is_redt u"
  obtains s1 u1 K1 where "too_low n s1 True p u1 K1 t" "\<not> is_redt u1" "same_nodes s (plug ((True, c, p, u) # K) t) s1 (plug ((True, True, p, u1) # K1) t)"
    "ngx_rbtree_left_rotate p (set_color p 1 (set_color (ptr_of (sentinel s) u) 0 s)) = s1"
proof -
  obtain a w b where u: "u = Nd True a w b" using assms(2) by (rule is_redtE)
  have low: "rep s (plug ((True, c, p, u) # K) t)" "parent s (ptr_of (sentinel s) t) = p" "rb n t" "\<not> is_redt t"
    "rb_ctx (Suc n) ((True, c, p, u) # K)" using assms(1) by (auto simp: too_low_def)
  then have c: "\<not> c" "rb_ctx (Suc (Suc n)) K" "rb (Suc n) a" "\<not> is_redt a" "rb (Suc n) b" using u by (cases c; simp)+
  define s0 where "s0 = set_color p 1 (set_color w 0 s)"
  have "rep s0 (plug ((True, True, p, Nd False a w b) # K) t)"
    using color_frame [OF color_sibling [OF low(1) [unfolded u], of False], of True] by (simp add: s0_def)
  then have rep0: "rep s0 (plug K (Nd True t p (Nd False a w b)))" by simp
  define s1 where "s1 = ngx_rbtree_left_rotate p s0"
  have rep1: "rep s1 (plug ((True, True, p, a) # (True, False, w, b) # K) t)" using left_rotate [OF rep0] by (simp add: s1_def)
  have "p \<noteq> sentinel s0" "right s0 p \<noteq> sentinel s0" using rep0 by (auto simp: rep_plug)
  then have "parent s1 (sentinel s) = parent s (sentinel s)" "sentinel s1 = sentinel s"
    using rotate_sentinel(1) [of p s0] by (simp_all add: s1_def s0_def store)
  with parent_of_hole [OF rep1] low(2) have "parent s1 (ptr_of (sentinel s1) t) = p" by auto
  with rep1 low c have "too_low n s1 True p a ((True, False, w, b) # K) t" by (simp add: too_low_def)
  then show ?thesis
    using that [of s1 a "(True, False, w, b) # K"] c by (simp add: same_nodes_def s1_def s0_def u store inorder_plug)
qed

text \<open>A black sibling with black children becomes red; the parent is too low now.\<close>

lemma delete_left_recolor:
  assumes "too_low n s c p (Nd False a w b) K t" "\<not> is_redt a" "\<not> is_redt b"
  shows "delete_inv (set_color w 1 s) K (Nd c t p (Nd True a w b)) \<and>
    same_nodes s (plug ((True, c, p, Nd False a w b) # K) t) (set_color w 1 s) (plug K (Nd c t p (Nd True a w b)))"
proof -
  have low: "rep s (plug ((True, c, p, Nd False a w b) # K) t)" "rb n t" "\<not> is_redt t" "rb_ctx (Suc n) ((True, c, p, Nd False a w b) # K)"
    using assms(1) by (auto simp: too_low_def)
  have rep: "rep (set_color w 1 s) (plug K (Nd c t p (Nd True a w b)))" using color_sibling [OF low(1), of True] by simp
  moreover have "K \<noteq> [] \<Longrightarrow> parent (set_color w 1 s) p = faddr (hd K)"
    using rep rep_frame(4) by (cases K) fastforce+
  moreover have "if c then rb (Suc n) (Nd False t p (Nd True a w b)) \<and> rb_ctx (Suc n) K
      else rb (Suc n) (Nd False t p (Nd True a w b)) \<and> rb_ctx (Suc (Suc n)) K"
    using low assms by (cases c) auto
  ultimately show ?thesis
    unfolding delete_inv_def same_nodes_def by (cases c) (auto simp: store inorder_plug)
qed

text \<open>A red inner nephew is rotated to the outer side.\<close>

lemma delete_left_turn:
  assumes "too_low n s c p (Nd False (Nd True a1 x a2) w b) K t" "\<not> is_redt b"
  shows "too_low n (ngx_rbtree_right_rotate w (set_color w 1 (set_color x 0 s))) c p (Nd False a1 x (Nd True a2 w b)) K t"
proof -
  let ?f = "(False, c, p, t) # K"
  define s0 where "s0 = set_color w 1 (set_color x 0 s)"
  define s1 where "s1 = ngx_rbtree_right_rotate w s0"
  have low: "rep s (plug ((True, c, p, Nd False (Nd True a1 x a2) w b) # K) t)" "parent s (ptr_of (sentinel s) t) = p" "rb n t" "\<not> is_redt t"
    "rb_ctx (Suc n) ((True, c, p, Nd False (Nd True a1 x a2) w b) # K)" using assms(1) by (auto simp: too_low_def)
  have "rep s (plug ((True, False, w, b) # ?f) (Nd True a1 x a2))" using low(1) by simp
  from color_frame [OF color_node [OF this, of False], of True]
  have rep0: "rep s0 (plug ?f (Nd True (Nd False a1 x a2) w b))" by (simp add: s0_def)
  from right_rotate [OF this] have rep1: "rep s1 (plug ((True, c, p, Nd False a1 x (Nd True a2 w b)) # K) t)" by (simp add: s1_def)
  have "w \<noteq> sentinel s0" "left s0 w \<noteq> sentinel s0" using rep0 by (auto simp: rep_plug)
  then have "parent s1 (sentinel s) = parent s (sentinel s)" "sentinel s1 = sentinel s"
    using rotate_sentinel(2) [of w s0] by (simp_all add: s1_def s0_def store)
  with parent_of_hole [OF rep1] low(2) have "parent s1 (ptr_of (sentinel s1) t) = p" by auto
  moreover have "rb_ctx (Suc n) ((True, c, p, Nd False a1 x (Nd True a2 w b)) # K)" using low(5) assms(2) by (cases c) auto
  ultimately show ?thesis using rep1 low(3,4) by (simp add: too_low_def s1_def s0_def)
qed

text \<open>With a red outer nephew one rotation restores the height, and the loop ends at the root.\<close>

lemma delete_left_finish:
  assumes "too_low n s c p (Nd False a w (Nd True b1 x b2)) K t"
  defines "s' \<equiv> ngx_rbtree_left_rotate p (set_color x 0 (set_color p 0 (set_color w (col c) s)))"
  shows "delete_inv s' [] (plug ((True, False, p, a) # (True, c, w, Nd False b1 x b2) # K) t) \<and>
    \<not> is_redt (plug ((True, False, p, a) # (True, c, w, Nd False b1 x b2) # K) t)"
proof -
  let ?t = "Nd c (Nd False t p a) w (Nd False b1 x b2)"
  have low: "rep s (plug ((True, c, p, Nd False a w (Nd True b1 x b2)) # K) t)" "rb n t" "\<not> is_redt t"
    "rb_ctx (Suc n) ((True, c, p, Nd False a w (Nd True b1 x b2)) # K)" using assms(1) by (auto simp: too_low_def)
  have "rep (set_color p 0 (set_color w (col c) s)) (plug ((True, False, p, Nd c a w (Nd True b1 x b2)) # K) t)"
    using color_frame [OF color_sibling [OF low(1), of c], of False] by simp
  then have "rep (set_color p 0 (set_color w (col c) s)) (plug ((False, c, w, a) # (False, False, p, t) # K) (Nd True b1 x b2))" by simp
  from color_node [OF this, of False]
  have "rep (set_color x 0 (set_color p 0 (set_color w (col c) s))) (plug K (Nd False t p (Nd c a w (Nd False b1 x b2))))" by simp
  from left_rotate [OF this] have rep: "rep s' (plug K ?t)" by (simp add: s'_def)
  have "(\<exists>m. rb m (plug K ?t)) \<and> \<not> is_redt (plug K ?t)"
  proof (cases c)
    case True
    with low have "rb_ctx (Suc n) K" "rb (Suc n) ?t" "K \<noteq> []" "\<not> red_above K" by auto
    with rb_plug(1) [of "Suc n" K ?t] True show ?thesis by simp
  next
    case False
    with low have "rb_ctx (Suc (Suc n)) K" "rb (Suc (Suc n)) ?t" by auto
    with rb_plug(2) [of "Suc (Suc n)" K ?t] False show ?thesis by simp
  qed
  with rep show ?thesis by (auto simp: delete_inv_def)
qed

definition delete_step :: "(addr \<Rightarrow> ngx_rbtree_t \<Rightarrow> addr \<times> ngx_rbtree_t) \<Rightarrow> ngx_rbtree_t \<Rightarrow> frame list \<Rightarrow> rbt \<Rightarrow> bool" where
  "delete_step f s K t \<longleftrightarrow>
    (\<exists>s' K' t'. f (ptr_of (sentinel s) t) s = (ptr_of (sentinel s) t', s') \<and> delete_inv s' K' t' \<and>
      same_nodes s (plug K t) s' (plug K' t') \<and> (length K' < length K \<or> is_redt t'))"

lemma is_black_nephews:
  assumes "rep s (plug ((True, c, p, Nd e a w b) # K) t)"
  shows "ngx_rbt_is_black s (left s w) \<longleftrightarrow> \<not> is_redt a" "ngx_rbt_is_black s (right s w) \<longleftrightarrow> \<not> is_redt b"
    "left s w = ptr_of (sentinel s) a" "right s w = ptr_of (sentinel s) b" "right s p = w" "color s p = col c"
proof -
  have "rep s (plug ((True, e, w, b) # (False, c, p, t) # K) a)" "rep s (plug ((False, e, w, a) # (False, c, p, t) # K) b)"
    using assms by simp_all
  note rep_frame [OF this(1)] is_red_ptr [OF this(1)] rep_frame [OF this(2)] is_red_ptr [OF this(2)] rep_frame [OF assms]
  then show "ngx_rbt_is_black s (left s w) \<longleftrightarrow> \<not> is_redt a" "ngx_rbt_is_black s (right s w) \<longleftrightarrow> \<not> is_redt b"
    "left s w = ptr_of (sentinel s) a" "right s w = ptr_of (sentinel s) b" "right s p = w" "color s p = col c"
    by (simp_all add: ngx_rbt_is_black_def)
qed

text \<open>The second half of a round, with a black sibling.\<close>

definition delete_left_black :: "addr \<Rightarrow> addr \<Rightarrow> ngx_rbtree_t \<Rightarrow> addr \<times> ngx_rbtree_t" where
  "delete_left_black temp w s =
    (if ngx_rbt_is_black s (left s w) \<and> ngx_rbt_is_black s (right s w)
     then let s = ngx_rbt_red w s in (parent s temp, s)
     else
       let (w, s) =
             (if ngx_rbt_is_black s (right s w)
              then
                let s = ngx_rbt_black (left s w) s;
                    s = ngx_rbt_red w s;
                    s = ngx_rbtree_right_rotate w s
                in (right s (parent s temp), s)
              else (w, s));
           s = ngx_rbt_copy_color w (parent s temp) s;
           s = ngx_rbt_black (parent s temp) s;
           s = ngx_rbt_black (right s w) s;
           s = ngx_rbtree_left_rotate (parent s temp) s
       in (root s, s))"

lemma delete_left_split:
  "delete_left temp s =
    (let w = right s (parent s temp) in
     if ngx_rbt_is_red s w
     then
       let s = ngx_rbtree_left_rotate (parent s temp) (ngx_rbt_red (parent s temp) (ngx_rbt_black w s))
       in delete_left_black temp (right s (parent s temp)) s
     else delete_left_black temp w s)"
  by (simp add: delete_left_def delete_left_black_def Let_def rbt_color_defs store)

lemma delete_left_outer:
  assumes low: "too_low n s c p (Nd False a w b) K t" and red: "is_redt a \<or> is_redt b" and temp: "temp = ptr_of (sentinel s) t"
  obtains s1 a' w' b1 x b2 where "too_low n s1 c p (Nd False a' w' (Nd True b1 x b2)) K t"
    "inorder a' @ w' # inorder b1 @ x # inorder b2 = inorder a @ w # inorder b" "key s1 = key s" "sentinel s1 = sentinel s"
    "(if ngx_rbt_is_black s (right s w)
      then
        let s = ngx_rbt_black (left s w) s; s = ngx_rbt_red w s; s = ngx_rbtree_right_rotate w s
        in (right s (parent s temp), s)
      else (w, s)) = (w', s1)"
proof -
  have rep: "rep s (plug ((True, c, p, Nd False a w b) # K) t)" using low by (simp add: too_low_def)
  note black = is_black_nephews [OF rep]
  show ?thesis
  proof (cases "is_redt b")
    case b: True
    then obtain b1 x b2 where "b = Nd True b1 x b2" by (rule is_redtE)
    with that [of s a w b1 x b2] low b black show ?thesis by simp
  next
    case b: False
    with red obtain a1 x a2 where a: "a = Nd True a1 x a2" using is_redtE by metis
    let ?s = "ngx_rbtree_right_rotate w (set_color w 1 (set_color x 0 s))"
    have low1: "too_low n ?s c p (Nd False a1 x (Nd True a2 w b)) K t"
      using delete_left_turn [of n s c p a1 x a2 w b K t] low b by (simp add: a)
    then have "parent ?s temp = p" "right ?s p = x"
      using is_black_nephews(5) [of ?s c p False a1 x "Nd True a2 w b" K t] by (simp_all add: too_low_def store temp)
    then show ?thesis
      using that [of ?s a1 x a2 w b] low1 b black(2,3) by (simp add: Let_def rbt_color_defs(1,2) a store)
  qed
qed

lemma delete_left_black_step:
  assumes low: "too_low n s c p u K t" and u: "\<not> is_redt u"
  shows "\<exists>s' K' t'. delete_left_black (ptr_of (sentinel s) t) (ptr_of (sentinel s) u) s = (ptr_of (sentinel s) t', s') \<and>
    delete_inv s' K' t' \<and> same_nodes s (plug ((True, c, p, u) # K) t) s' (plug K' t') \<and>
    (K' = [] \<or> K' = K \<and> (c \<longrightarrow> is_redt t'))"
proof -
  have "rb (Suc n) u" using low by (cases c) (auto simp: too_low_def)
  from black_nonleaf [OF this u] obtain a w b where u: "u = Nd False a w b" by blast
  define temp where "temp = ptr_of (sentinel s) t"
  have rep: "rep s (plug ((True, c, p, Nd False a w b) # K) t)" and par: "parent s temp = p"
    using low by (simp_all add: too_low_def u temp_def)
  note black = is_black_nephews [OF rep]
  show ?thesis
  proof (cases "is_redt a \<or> is_redt b")
    case False
    have "delete_left_black temp w s = (p, set_color w 1 s)"
      using False by (simp add: delete_left_black_def black(1,2) rbt_color_defs(1) Let_def par store)
    then show ?thesis
      using delete_left_recolor [of n s c p a w b K t] low False
      by (intro exI [of _ "set_color w 1 s"] exI [of _ K] exI [of _ "Nd c t p (Nd True a w b)"]) (simp add: u temp_def)
  next
    case True
    obtain s1 a' w' b1 x b2 where s1: "too_low n s1 c p (Nd False a' w' (Nd True b1 x b2)) K t"
        "inorder a' @ w' # inorder b1 @ x # inorder b2 = inorder a @ w # inorder b" "key s1 = key s" "sentinel s1 = sentinel s"
      and eq: "(if ngx_rbt_is_black s (right s w)
          then
            let s = ngx_rbt_black (left s w) s; s = ngx_rbt_red w s; s = ngx_rbtree_right_rotate w s
            in (right s (parent s temp), s)
          else (w, s)) = (w', s1)"
      by (rule delete_left_outer [OF low [unfolded u] True temp_def])
    have rep1: "rep s1 (plug ((True, c, p, Nd False a' w' (Nd True b1 x b2)) # K) t)" "parent s1 temp = p"
      using s1(1,4) by (simp_all add: too_low_def temp_def)
    let ?t = "plug ((True, False, p, a') # (True, c, w', Nd False b1 x b2) # K) t"
    define s' where "s' = ngx_rbtree_left_rotate p (set_color x 0 (set_color p 0 (set_color w' (col c) s1)))"
    have fin: "delete_inv s' [] ?t" using delete_left_finish [OF s1(1)] by (simp add: s'_def)
    moreover have "delete_left_black temp w s = (root s', s')"
      unfolding delete_left_black_def eq using True black(1,2) is_black_nephews(4,6) [OF rep1(1)] rep1(2)
      by (auto simp: Let_def rbt_color_defs(2,5) s'_def store)
    moreover have "root s' = ptr_of (sentinel s) ?t" "sentinel s' = sentinel s"
      using fin s1(4) by (simp_all add: delete_inv_def rep_def s'_def store)
    ultimately show ?thesis
      using s1(2,3) by (intro exI [of _ s'] exI [of _ "[]"] exI [of _ ?t]) (simp add: same_nodes_def inorder_plug u s'_def store temp_def)
  qed
qed

lemma same_nodes_trans: "same_nodes s T s' T' \<Longrightarrow> same_nodes s' T' s'' T'' \<Longrightarrow> same_nodes s T s'' T''"
  by (simp add: same_nodes_def)

lemma delete_left_step:
  assumes "too_low n s c p u K t"
  shows "delete_step delete_left s ((True, c, p, u) # K) t"
proof -
  let ?temp = "ptr_of (sentinel s) t"
  have rep: "rep s (plug ((True, c, p, u) # K) t)" and par: "parent s ?temp = p" using assms by (simp_all add: too_low_def)
  have w: "right s p = ptr_of (sentinel s) u" using rep_frame(3) [OF rep] by simp
  show ?thesis
  proof (cases "is_redt u")
    case True
    obtain s1 u1 K1 where s1: "too_low n s1 True p u1 K1 t" "\<not> is_redt u1"
        "same_nodes s (plug ((True, c, p, u) # K) t) s1 (plug ((True, True, p, u1) # K1) t)"
        "ngx_rbtree_left_rotate p (set_color p 1 (set_color (ptr_of (sentinel s) u) 0 s)) = s1"
      by (rule delete_left_red [OF assms True])
    then have sent: "sentinel s1 = sentinel s" by (simp add: same_nodes_def)
    have "rep s1 (plug ((True, True, p, u1) # K1) t)" "parent s1 ?temp = p" using s1(1) sent by (simp_all add: too_low_def)
    then have "delete_left ?temp s = delete_left_black ?temp (ptr_of (sentinel s) u1) s1"
      using True is_red_sibling [OF rep] rep_frame(3) [of s1 True True p u1 K1 t] s1(4) sent
      by (simp add: delete_left_split w Let_def rbt_color_defs(1,2) par store)
    with delete_left_black_step [OF s1(1,2)] sent obtain s' K' t' where
      s': "delete_left ?temp s = (ptr_of (sentinel s) t', s')" "delete_inv s' K' t'"
        "same_nodes s1 (plug ((True, True, p, u1) # K1) t) s' (plug K' t')" "K' = [] \<or> is_redt t'" by auto
    from same_nodes_trans [OF s1(3) s'(3)] s' show ?thesis unfolding delete_step_def
      by (intro exI [of _ s'] exI [of _ K'] exI [of _ t']) auto
  next
    case False
    have "delete_left ?temp s = delete_left_black ?temp (ptr_of (sentinel s) u) s"
      using False is_red_sibling [OF rep] by (simp add: delete_left_split w par)
    with delete_left_black_step [OF assms False] obtain s' K' t' where
      "delete_left ?temp s = (ptr_of (sentinel s) t', s')" "delete_inv s' K' t'"
        "same_nodes s (plug ((True, c, p, u) # K) t) s' (plug K' t')" "K' = [] \<or> K' = K" by metis
    then show ?thesis unfolding delete_step_def by (intro exI [of _ s'] exI [of _ K'] exI [of _ t']) auto
  qed
qed

definition delete_right_black :: "addr \<Rightarrow> addr \<Rightarrow> ngx_rbtree_t \<Rightarrow> addr \<times> ngx_rbtree_t" where
  "delete_right_black temp w s =
    (if ngx_rbt_is_black s (left s w) \<and> ngx_rbt_is_black s (right s w)
     then let s = ngx_rbt_red w s in (parent s temp, s)
     else
       let (w, s) =
             (if ngx_rbt_is_black s (left s w)
              then
                let s = ngx_rbt_black (right s w) s;
                    s = ngx_rbt_red w s;
                    s = ngx_rbtree_left_rotate w s
                in (left s (parent s temp), s)
              else (w, s));
           s = ngx_rbt_copy_color w (parent s temp) s;
           s = ngx_rbt_black (parent s temp) s;
           s = ngx_rbt_black (left s w) s;
           s = ngx_rbtree_right_rotate (parent s temp) s
       in (root s, s))"

lemma delete_right_split:
  "delete_right temp s =
    (let w = left s (parent s temp) in
     if ngx_rbt_is_red s w
     then
       let s = ngx_rbtree_right_rotate (parent s temp) (ngx_rbt_red (parent s temp) (ngx_rbt_black w s))
       in delete_right_black temp (left s (parent s temp)) s
     else delete_right_black temp w s)"
  by (simp add: delete_right_def delete_right_black_def Let_def rbt_color_defs store)

lemma flip_colors [simp]:
  "ngx_rbt_is_black (flip s) a = ngx_rbt_is_black s a" "ngx_rbt_is_red (flip s) a = ngx_rbt_is_red s a"
  "flip (ngx_rbt_red a s) = ngx_rbt_red a (flip s)" "flip (ngx_rbt_black a s) = ngx_rbt_black a (flip s)"
  "flip (ngx_rbt_copy_color a b s) = ngx_rbt_copy_color a b (flip s)"
  by (simp_all add: rbt_color_defs)

lemma left_rotate_flip: "flip (ngx_rbtree_left_rotate a s) = ngx_rbtree_right_rotate a (flip s)"
  by (simp add: right_rotate_flip)

lemma delete_right_black_flip: "delete_right_black temp w s = map_prod id flip (delete_left_black temp w (flip s))"
proof (cases "ngx_rbt_is_black s (left s w)"; cases "ngx_rbt_is_black s (right s w)")
qed (simp_all add: delete_right_black_def delete_left_black_def Let_def right_rotate_flip rbt_color_defs store)

lemma delete_right_flip: "delete_right temp s = map_prod id flip (delete_left temp (flip s))"
  by (simp add: delete_right_split delete_left_split delete_right_black_flip right_rotate_flip Let_def)

lemma flipf_flipf [simp]: "flipf (flipf f) = f" "map (flipf \<circ> flipf) K = K"
proof -
  show f: "flipf (flipf f) = f" for f by (cases f) simp
  show "map (flipf \<circ> flipf) K = K" by (induction K) (simp_all add: f)
qed

lemma delete_inv_flip: "delete_inv (flip s) (map flipf K) (flipt t) = delete_inv s K t"
proof -
  have "blacken (flipt t) = flipt (blacken t)" by (cases t) auto
  moreover have "faddr (hd (map flipf K)) = faddr (hd K)" if "K \<noteq> []" using that by (cases K) auto
  ultimately show ?thesis
    unfolding delete_inv_def rep_flip_plug by (simp add: rb_ctx_flip)
qed

lemma same_nodes_flip: "same_nodes (flip s) (flipt T) (flip s') (flipt T') = same_nodes s T s' T'"
  by (simp add: same_nodes_def)

lemma delete_step_cases:
  assumes inv: "delete_inv s ((d, c, p, u) # K) t" and t: "\<not> is_redt t"
  shows "delete_step (if d then delete_left else delete_right) s ((d, c, p, u) # K) t"
proof (cases d)
  case True
  with assms obtain n where "too_low n s c p u K t" by (auto simp: delete_inv_def too_low_def)
  with True delete_left_step show ?thesis by simp
next
  case False
  let ?K = "(True, c, p, flipt u) # map flipf K"
  have K: "map flipf ((d, c, p, u) # K) = ?K" using False by simp
  have "delete_inv (flip s) ?K (flipt t)" using inv delete_inv_flip [of s "(d, c, p, u) # K" t] unfolding K by simp
  then obtain n where "too_low n (flip s) c p (flipt u) (map flipf K) (flipt t)" using t by (auto simp: delete_inv_def too_low_def)
  from delete_left_step [OF this] obtain s' K' t' where
    s': "delete_left (ptr_of (sentinel s) t) (flip s) = (ptr_of (sentinel s) t', s')" "delete_inv s' K' t'"
      "same_nodes (flip s) (plug ?K (flipt t)) s' (plug K' t')" "length K' < length ?K \<or> is_redt t'"
    unfolding delete_step_def by auto
  have "same_nodes s (plug ((d, c, p, u) # K) t) (flip s') (plug (map flipf K') (flipt t'))"
    using s'(3) same_nodes_flip [of s "plug ((d, c, p, u) # K) t" "flip s'" "plug (map flipf K') (flipt t')"]
    unfolding flipt_plug K by simp
  moreover have "delete_inv (flip s') (map flipf K') (flipt t')" using s'(2) delete_inv_flip by blast
  ultimately show ?thesis using s' False unfolding delete_step_def
    by (intro exI [of _ "flip s'"] exI [of _ "map flipf K'"] exI [of _ "flipt t'"]) (simp add: delete_right_flip)
qed

lemma set_color_same: "color s a = c \<Longrightarrow> set_color a c s = s"
  by (simp add: set_color_def fun_upd_idem)

text \<open>The end of the loop.\<close>

definition deleted :: "ngx_rbtree_t \<Rightarrow> rbt \<Rightarrow> ngx_rbtree_t \<Rightarrow> bool" where
  "deleted s T s' \<longleftrightarrow> (\<exists>T' m. rep s' T' \<and> same_nodes s T s' T' \<and> rb m T' \<and> \<not> is_redt T')"

lemma delete_exit:
  assumes inv: "delete_inv s K t" and "K = [] \<or> is_redt t"
  shows "delete_loop (ptr_of (sentinel s) t) s = Some (ptr_of (sentinel s) t, s) \<and>
    deleted s (plug K t) (ngx_rbt_black (ptr_of (sentinel s) t) s)"
proof -
  let ?temp = "ptr_of (sentinel s) t"
  have rep: "rep s (plug K t)" using inv by (simp add: delete_inv_def)
  have "?temp = root s \<or> ngx_rbt_is_red s ?temp"
    using assms(2) is_red_ptr [OF rep] rep by (auto simp: rep_def)
  then have "delete_loop ?temp s = Some (?temp, s)" by (subst delete_loop.simps) (auto simp: ngx_rbt_is_black_def)
  moreover have "rep (ngx_rbt_black ?temp s) (plug K (blacken t))"
  proof (cases t)
    case Lf
    with rep show ?thesis by (simp add: ngx_rbt_black_def set_color_same rep_def)
  next
    case (Nd c l a r)
    with rep color_node [of s K c l a r False] show ?thesis by (simp add: ngx_rbt_black_def)
  qed
  moreover have "same_nodes s (plug K t) (ngx_rbt_black ?temp s) (plug K (blacken t))"
    by (cases t) (simp_all add: same_nodes_def inorder_plug ngx_rbt_black_def store)
  moreover have "(\<exists>m. rb m (plug K (blacken t))) \<and> \<not> is_redt (plug K (blacken t))"
  proof -
    have black: "\<not> is_redt (blacken t)" by (cases t) auto
    obtain n where n: "if is_redt t then rb n (blacken t) \<and> rb_ctx n K else rb n t \<and> rb_ctx (Suc n) K"
      using inv by (auto simp: delete_inv_def)
    show ?thesis
    proof (cases "is_redt t")
      case True
      with n rb_plug(2) [of n K "blacken t"] black show ?thesis by simp
    next
      case False
      with n assms(2) have "K = []" "rb n t" by auto
      with rb_blacken [of n t] black show ?thesis by auto
    qed
  qed
  ultimately show ?thesis unfolding deleted_def by blast
qed

lemma deleted_trans: "same_nodes s T s' T' \<Longrightarrow> deleted s' T' s'' \<Longrightarrow> deleted s T s''"
  unfolding deleted_def using same_nodes_trans by blast

lemma delete_loop_unfold:
  assumes inv: "delete_inv s ((d, c, p, u) # K) t" and t: "\<not> is_redt t"
  shows "delete_loop (ptr_of (sentinel s) t) s =
    (case (if d then delete_left else delete_right) (ptr_of (sentinel s) t) s of (temp, s) \<Rightarrow> delete_loop temp s)"
proof -
  let ?K = "(d, c, p, u) # K" and ?temp = "ptr_of (sentinel s) t"
  have rep: "rep s (plug ?K t)" and par: "parent s ?temp = p" using inv by (simp_all add: delete_inv_def)
  have "root s \<in> ctx_nodes ?K" using rep ptr_plug_in [of ?K "sentinel s" t] unfolding rep_plug by auto
  moreover have "?temp \<notin> ctx_nodes ?K" using rep heap_ctx_sentinel [of s ?K] ptr_in [of t "sentinel s"]
    unfolding rep_plug by (cases "t = Lf") (auto simp del: ctx_nodes_simps)
  ultimately have "?temp \<noteq> root s" by auto
  moreover have "ngx_rbt_is_black s ?temp" using is_red_ptr [OF rep] t by (simp add: ngx_rbt_is_black_def)
  moreover have "?temp = left s (parent s ?temp) \<longleftrightarrow> d"
  proof (cases d)
    case True
    with rep_frame(2) [OF rep] show ?thesis unfolding par by simp
  next
    case False
    obtain n where "rb (Suc n) u" using inv t by (cases c) (auto simp: delete_inv_def)
    then have "u \<noteq> Lf" by auto
    then have "ptr_of (sentinel s) u \<in> ctx_nodes ?K" using ptr_in by auto
    with \<open>?temp \<notin> ctx_nodes ?K\<close> rep_frame(2) [OF rep] False show ?thesis unfolding par by auto
  qed
  ultimately show ?thesis by (subst delete_loop.simps) simp
qed

lemma delete_loop:
  "delete_inv s K t \<Longrightarrow> \<exists>temp s'. delete_loop (ptr_of (sentinel s) t) s = Some (temp, s') \<and> deleted s (plug K t) (ngx_rbt_black temp s')"
proof (induction K arbitrary: s t rule: length_induct)
  case (1 K)
  show ?case
  proof (cases "K = [] \<or> is_redt t")
    case True
    with delete_exit [OF 1(2)] show ?thesis by blast
  next
    case False
    then obtain d c p u K0 where K: "K = (d, c, p, u) # K0" by (cases K) auto
    from delete_step_cases [of s d c p u K0 t] 1(2) False obtain s' K' t' where
      s': "(if d then delete_left else delete_right) (ptr_of (sentinel s) t) s = (ptr_of (sentinel s) t', s')" "delete_inv s' K' t'"
        "same_nodes s (plug K t) s' (plug K' t')" "length K' < length K \<or> is_redt t'"
      unfolding delete_step_def K by auto
    have "\<exists>temp s''. delete_loop (ptr_of (sentinel s') t') s' = Some (temp, s'') \<and> deleted s' (plug K' t') (ngx_rbt_black temp s'')"
      using 1(1) s'(2,4) delete_exit by blast
    with delete_loop_unfold [of s d c p u K0 t] 1(2) False s' deleted_trans [OF s'(3)] show ?thesis
      unfolding K by (auto simp: same_nodes_def)
  qed
qed

section \<open>Taking the node out\<close>

lemma plug_append: "plug (K @ K') t = plug K' (plug K t)"
  by (induction K t rule: plug.induct) auto

text \<open>\<open>ngx_rbtree_min\<close> goes down to the first node.\<close>

lemma rbtree_min:
  "heap s t \<Longrightarrow> t \<noteq> Lf \<Longrightarrow>
    \<exists>K c y r. t = plug K (Nd c Lf y r) \<and> (\<forall>f\<in>set K. fst f) \<and> ngx_rbtree_min (ptr_of (sentinel s) t) s = Some y"
proof (induction t)
  case (Nd c l a r)
  show ?case
  proof (cases "l = Lf")
    case True
    with Nd.prems show ?thesis
      by (intro exI [of _ "[]"] exI [of _ c] exI [of _ a] exI [of _ r]) (simp add: ngx_rbtree_min.simps [of a])
  next
    case False
    have "ptr_of (sentinel s) l \<noteq> sentinel s" using False Nd.prems heap_sentinel [of s l] ptr_in [of l "sentinel s"] by auto
    moreover obtain K e y v where "l = plug K (Nd e Lf y v)" "\<forall>f\<in>set K. fst f" "ngx_rbtree_min (ptr_of (sentinel s) l) s = Some y"
      using Nd.IH(1) Nd.prems False by auto
    ultimately show ?thesis using Nd.prems
      by (intro exI [of _ "K @ [(True, c, a, r)]"] exI [of _ e] exI [of _ y] exI [of _ v])
        (simp add: plug_append ngx_rbtree_min.simps [of a])
  qed
qed simp

lemma clear_members [store]:
  "key (delete_clear x s) = (key s)(x := 0)" "parent (delete_clear x s) = (parent s)(x := NULL)" "root (delete_clear x s) = root s"
  "sentinel (delete_clear x s) = sentinel s" "color (delete_clear x s) = color s"
  by (simp_all add: delete_clear_def store)

lemma rep_clear: "rep s T \<Longrightarrow> x \<notin> set (inorder T) \<Longrightarrow> rep (delete_clear x s) T"
  by (simp add: rep_def store) (simp add: delete_clear_def)

lemma relink_members [store]:
  "key (relink K q s) = key s" "sentinel (relink K q s) = sentinel s" "parent (relink K q s) = parent s" "color (relink K q s) = color s"
  by (auto simp: relink_def store split: list.split)

text \<open>A node with at most one child is replaced by it.\<close>

lemma unlink_one:
  assumes rep: "rep s (plug K (Nd c l x r))" and K: "K \<noteq> []" and t: "l = Lf \<and> t = r \<or> r = Lf \<and> t = l"
  defines "s' \<equiv> delete_unlink x x (ptr_of (sentinel s) t) s"
  shows "rep s' (plug K t)" "parent s' (ptr_of (sentinel s) t) = faddr (hd K)" "key s' = key s" "sentinel s' = sentinel s"
proof -
  let ?temp = "ptr_of (sentinel s) t"
  have h: "heap s (Nd c l x r)" "heap_ctx s K x False" "distinct (inorder (Nd c l x r))" "set (inorder (Nd c l x r)) \<inter> ctx_nodes K = {}"
    "color s (sentinel s) = 0" using rep by (auto simp: rep_plug)
  have hd: "parent s x = faddr (hd K)" using h(2) K by (cases K) auto
  have "?temp \<notin> ctx_nodes K" using h t ptr_in [of t "sentinel s"] heap_ctx_sentinel [OF h(2)] by (cases "t = Lf") auto
  define s1 where "s1 = set_parent ?temp (parent s x) s"
  have "(if x = left s (parent s x) then set_left (parent s x) ?temp s else set_right (parent s x) ?temp s) = relink K ?temp s"
    using relink_code [OF h(2), of ?temp] h rep_root [OF rep] K by auto
  then have s': "s' = relink K ?temp s1"
    by (simp add: s'_def delete_unlink_def relink_commute s1_def store)
  have "heap s1 t" using h t heap_write_parent [of t s "parent s x"] by (auto simp: s1_def)
  moreover have "agree s s1 (ctx_nodes K)" using \<open>?temp \<notin> ctx_nodes K\<close> by (auto simp: agree_def s1_def store)
  ultimately show "rep s' (plug K t)"
    using rep_relink [OF rep, of s1 t] h t hd by (auto simp: s' s1_def store)
  show "parent s' ?temp = faddr (hd K)" "key s' = key s" "sentinel s' = sentinel s" by (simp_all add: s' hd s1_def store)
qed

text \<open>
  A node \<open>x\<close> with two children: the first node \<open>y\<close> of its right subtree is taken out of its place
  (\<open>unlink_first\<close>) and put into the place of \<open>x\<close> (\<open>unlink_two\<close>).
\<close>

abbreviation hole_addr :: "addr \<Rightarrow> frame list \<Rightarrow> addr" where
  "hole_addr a K \<equiv> (if K = [] then a else faddr (hd K))"

definition unlink_first :: "addr \<Rightarrow> addr \<Rightarrow> addr \<Rightarrow> frame list \<Rightarrow> ngx_rbtree_t \<Rightarrow> ngx_rbtree_t" where
  "unlink_first x y temp K s =
    set_parent temp (hole_addr y K) (if K = [] then set_right x temp s else set_left (faddr (hd K)) temp s)"

lemma heap_unlink_first:
  assumes h: "heap s (plug K (Nd e Lf y t))" and d: "distinct (inorder (plug K (Nd e Lf y t)))"
    and x: "x \<notin> set (inorder (plug K (Nd e Lf y t)))" and K: "\<forall>f\<in>set K. fst f" and sent: "color s (sentinel s) = 0"
  shows "heap (unlink_first x y (ptr_of (sentinel s) t) K s) (plug K t)"
proof (cases K)
  case Nil
  with assms heap_write_parent [of t "set_right x (ptr_of (sentinel s) t) s"] show ?thesis
    by (simp add: unlink_first_def store)
next
  case (Cons f K')
  let ?temp = "ptr_of (sentinel s) t"
  define s0 where "s0 = set_root (ptr_of (sentinel s) (plug K (Nd e Lf y t))) s"
  define s1 where "s1 = set_parent ?temp (faddr (hd K)) s0"
  have rep: "rep s0 (plug K (Nd e Lf y t))" using h d sent by (simp add: rep_def s0_def store)
  then have p: "heap s t" "distinct (inorder t)" "set (inorder t) \<inter> ctx_nodes K = {}" "heap_ctx s0 K y False"
    by (auto simp: rep_plug s0_def)
  have "?temp \<notin> ctx_nodes K" using p ptr_in [of t "sentinel s"] heap_ctx_sentinel [OF p(4)] by (cases "t = Lf") (auto simp: s0_def store)
  then have "agree s0 s1 (ctx_nodes K)" by (auto simp: agree_def s1_def store)
  moreover have "heap s1 t" using p(1,2) heap_write_parent [of t s0] by (simp add: s1_def s0_def store)
  ultimately have "rep (relink K ?temp s1) (plug K t)"
    using rep_relink [OF rep, of s1 t] p sent by (simp add: s1_def s0_def store)
  moreover have "fst f" using K Cons by simp
  then have "relink K ?temp s1 = set_root (root s0) (unlink_first x y ?temp K s)"
    by (cases f) (simp add: relink_def Cons unlink_first_def s1_def s0_def set_left_def set_parent_def set_root_def)
  ultimately show ?thesis by (simp add: rep_def)
qed

lemma inorder_hole: "\<forall>f\<in>set K. fst f \<Longrightarrow> before_hole K = []"
  by (induction K) auto

lemma relink_other:
  "a \<notin> ctx_nodes K \<Longrightarrow> left (relink K q s) a = left s a \<and> right (relink K q s) a = right s a"
  by (cases K) (auto simp: relink_def store)

text \<open>The assignments that follow, with the pointer into \<open>K\<close> written last.\<close>

definition take_place :: "bool \<Rightarrow> rbt \<Rightarrow> addr \<Rightarrow> rbt \<Rightarrow> addr \<Rightarrow> ngx_rbtree_t \<Rightarrow> ngx_rbtree_t" where
  "take_place c l y r q s =
    (let s = set_color y (col c) (set_parent y q (set_right y (ptr_of (sentinel s) r) (set_left y (ptr_of (sentinel s) l) s)));
         s = set_parent (ptr_of (sentinel s) l) y s
     in if r = Lf then s else set_parent (ptr_of (sentinel s) r) y s)"

lemma take_place_members:
  "key (take_place c l y r q s) = key s" "sentinel (take_place c l y r q s) = sentinel s" "root (take_place c l y r q s) = root s"
  "left (take_place c l y r q s) = (left s)(y := ptr_of (sentinel s) l)" "right (take_place c l y r q s) = (right s)(y := ptr_of (sentinel s) r)"
  "color (take_place c l y r q s) = (color s)(y := col c)"
  "parent (take_place c l y r q s) =
    (if r = Lf then (parent s)(y := q, ptr_of (sentinel s) l := y) else (parent s)(y := q, ptr_of (sentinel s) l := y, ptr_of (sentinel s) r := y))"
  by (simp_all add: take_place_def Let_def store)

lemma heap_take_place:
  assumes "heap s l" "heap s r" "distinct (inorder (Nd c l y r))" "y \<noteq> sentinel s" "l \<noteq> Lf"
  shows "heap (take_place c l y r q s) (Nd c l y r)"
proof -
  define s1 where "s1 = set_color y (col c) (set_parent y q (set_right y (ptr_of (sentinel s) r) (set_left y (ptr_of (sentinel s) l) s)))"
  define s2 where "s2 = set_parent (ptr_of (sentinel s) l) y s1"
  have p: "ptr_of (sentinel s) l \<in> set (inorder l)" "r \<noteq> Lf \<Longrightarrow> ptr_of (sentinel s) r \<in> set (inorder r)"
    using assms(5) ptr_in by auto
  have p2: "ptr_of (sentinel s) l \<notin> set (inorder r)" "r \<noteq> Lf \<Longrightarrow> ptr_of (sentinel s) r \<notin> set (inorder l)"
    using p assms(3) by auto
  have sent: "sentinel s1 = sentinel s" "sentinel s2 = sentinel s" by (simp_all add: s1_def s2_def store)
  have "heap s1 l" "heap s1 r" using assms(1-3) by (simp_all add: s1_def)
  then have "heap s2 l" "heap s2 r" using heap_write_parent [of l s1 y] assms(3) p2 sent by (simp_all add: s2_def)
  moreover have "take_place c l y r q s = (if r = Lf then s2 else set_parent (ptr_of (sentinel s) r) y s2)"
    by (simp add: take_place_def Let_def s1_def s2_def store)
  ultimately have "heap (take_place c l y r q s) l \<and> heap (take_place c l y r q s) r"
    using heap_write_parent [of r s2 y] assms(3) p2 sent by simp
  then show ?thesis using assms(3-5) p by (auto simp: take_place_members)
qed

text \<open>Which addresses differ.\<close>

lemma two_children:
  assumes rep: "rep s (plug K (Nd c l x (plug J (Nd e Lf y t))))" and J: "\<forall>f\<in>set J. fst f"
  shows "heap s l" "heap s (plug J (Nd e Lf y t))" "heap_ctx s K x False" "distinct (inorder (plug J (Nd e Lf y t)))"
    "set (inorder (plug J (Nd e Lf y t))) = insert y (set (inorder (plug J t)))" "y \<notin> set (inorder (plug J t))"
    "x \<noteq> y" "x \<notin> set (inorder l)" "y \<notin> set (inorder l)" "x \<notin> set (inorder (plug J t))" "set (inorder l) \<inter> set (inorder (plug J t)) = {}"
    "x \<notin> ctx_nodes K" "y \<notin> ctx_nodes K" "set (inorder l) \<inter> ctx_nodes K = {}" "set (inorder (plug J t)) \<inter> ctx_nodes K = {}"
    "distinct (inorder l)" "distinct (inorder (plug J t))" "x \<noteq> sentinel s" "color s (sentinel s) = 0"
    "left s x = ptr_of (sentinel s) l" "right s x = ptr_of (sentinel s) (plug J (Nd e Lf y t))" "color s x = col c"
    "parent s y = hole_addr x J" "J \<noteq> [] \<Longrightarrow> left s (faddr (hd J)) = y" "J \<noteq> [] \<Longrightarrow> faddr (hd J) \<in> set (inorder (plug J t))"
    "y \<noteq> sentinel s" "sentinel s \<notin> set (inorder (plug J t))"
proof -
  let ?r = "plug J (Nd e Lf y t)"
  note io = inorder_plug [of J] inorder_hole [OF J]
  have h: "heap s (Nd c l x ?r)" "heap_ctx s K x False" "distinct (inorder (Nd c l x ?r))" "set (inorder (Nd c l x ?r)) \<inter> ctx_nodes K = {}"
    "color s (sentinel s) = 0" using rep by (auto simp: rep_plug)
  then show "heap s l" "heap s ?r" "heap_ctx s K x False" "distinct (inorder ?r)"
    "set (inorder ?r) = insert y (set (inorder (plug J t)))" "y \<notin> set (inorder (plug J t))"
    "x \<noteq> y" "x \<notin> set (inorder l)" "y \<notin> set (inorder l)" "x \<notin> set (inorder (plug J t))" "set (inorder l) \<inter> set (inorder (plug J t)) = {}"
    "x \<notin> ctx_nodes K" "y \<notin> ctx_nodes K" "set (inorder l) \<inter> ctx_nodes K = {}" "set (inorder (plug J t)) \<inter> ctx_nodes K = {}"
    "distinct (inorder l)" "distinct (inorder (plug J t))" "x \<noteq> sentinel s" "color s (sentinel s) = 0"
    "left s x = ptr_of (sentinel s) l" "right s x = ptr_of (sentinel s) ?r" "color s x = col c"
    using io by auto
  have ctx: "heap_ctx s J y False" "heap s (Nd e Lf y t)" using h(1) heap_plug [of s J "Nd e Lf y t"] by auto
  then show "y \<noteq> sentinel s" "sentinel s \<notin> set (inorder (plug J t))"
    using heap_sentinel [of s "Nd e Lf y t"] heap_ctx_sentinel [OF ctx(1)] io by (auto simp: ctx_nodes_def)
  show "parent s y = hole_addr x J" "J \<noteq> [] \<Longrightarrow> left s (faddr (hd J)) = y" "J \<noteq> [] \<Longrightarrow> faddr (hd J) \<in> set (inorder (plug J t))"
    using ctx(1) h(1) J inorder_plug [of J t] by (cases J; auto)+
qed

lemma unlink_two_code:
  assumes rep: "rep s (plug K (Nd c l x (plug J (Nd e Lf y t))))" and l: "l \<noteq> Lf" and J: "\<forall>f\<in>set J. fst f"
  defines "temp \<equiv> ptr_of (sentinel s) t"
  shows "delete_unlink x y temp s = relink K y (take_place c l y (plug J t) (parent s x) (unlink_first x y temp J s))"
proof -
  note f = two_children [OF rep J]
  let ?r = "plug J t"
  have temp: "temp \<noteq> x" "temp \<noteq> y" "temp \<notin> ctx_nodes K"
    using f(6,10,15,18,26) ptr_in [of t "sentinel s"] heap_ctx_sentinel [OF f(3)] inorder_plug [of J t] unfolding temp_def
    by (cases "t = Lf"; auto)+
  have yl: "y \<noteq> ptr_of (sentinel s) l" using f(9) l ptr_in [of l "sentinel s"] by auto
  define A where "A = (if J = [] then set_right x temp s else set_left (faddr (hd J)) temp s)"
  define B where "B = unlink_first x y temp J s"
  have e1: "(if y = left s (parent s y) then set_left (parent s y) temp s else set_right (parent s y) temp s) = A"
    using f(20,23,24) yl by (simp add: A_def)
  have e2: "(if parent A y = x then set_parent temp y A else set_parent temp (parent A y) A) = B"
    using f(10,23,25) by (auto simp: A_def B_def unlink_first_def store)
  have Bx: "left B x = ptr_of (sentinel s) l" "right B x = ptr_of (sentinel s) ?r" "parent B x = parent s x" "color B x = col c"
      "root B = root s" "sentinel B = sentinel s"
    using f(10,20-22,25) temp ptr_plug [of J "sentinel s" t "Nd e Lf y t"] by (auto simp: B_def unlink_first_def store temp_def)
  define C where "C = set_color y (col c) (set_parent y (parent s x) (set_right y (ptr_of (sentinel s) ?r) (set_left y (ptr_of (sentinel s) l) B)))"
  have e3: "ngx_rbt_copy_color y x (set_parent y (parent (set_right y (right (set_left y (left B x) B) x) (set_left y (left B x) B)) x)
      (set_right y (right (set_left y (left B x) B) x) (set_left y (left B x) B))) = C"
    using f(7) Bx by (simp add: C_def rbt_color_defs store)
  have "agree s C (ctx_nodes K)" "parent C x = parent s x" "root C = root s" "sentinel C = sentinel s"
    using f(7,12,13,15,25) temp Bx by (auto simp: agree_def C_def B_def unlink_first_def store)
  then have "heap_ctx C K x False" using heap_ctx_agree [of s C K False x] f(3) by simp
  with relink_code [of C K x y] \<open>root C = root s\<close> \<open>sentinel C = sentinel s\<close> rep_root [OF rep] f(12,18)
  have e4: "(if x = root C then set_root y C else if x = left C (parent C x) then set_left (parent C x) y C
      else set_right (parent C x) y C) = relink K y C" by simp
  define D where "D = relink K y C"
  have D: "left D y = ptr_of (sentinel s) l" "right D y = ptr_of (sentinel s) ?r" "sentinel D = sentinel s"
    using relink_other [OF f(13)] Bx by (simp_all add: D_def C_def store)
  have nl: "ptr_of (sentinel s) l \<noteq> sentinel s" "ptr_of (sentinel s) ?r \<noteq> sentinel s \<longleftrightarrow> ?r \<noteq> Lf"
    using l ptr_in [of l "sentinel s"] ptr_in [of ?r "sentinel s"] heap_sentinel [OF f(1)] f(27) by (auto, cases ?r) auto
  have "delete_unlink x y temp s = (if ?r = Lf then set_parent (ptr_of (sentinel s) l) y D
      else set_parent (ptr_of (sentinel s) ?r) y (set_parent (ptr_of (sentinel s) l) y D))"
    unfolding delete_unlink_def Let_def e1 e2 e3 e4 D_def [symmetric] using f(7) D nl by (auto simp: store)
  then show ?thesis
    using Bx by (simp add: take_place_def Let_def D_def relink_commute C_def B_def [symmetric] store)
qed

lemma unlink_two:
  assumes rep: "rep s (plug K (Nd c l x (plug J (Nd e Lf y t))))" and l: "l \<noteq> Lf" and J: "\<forall>f\<in>set J. fst f"
  defines "s' \<equiv> delete_unlink x y (ptr_of (sentinel s) t) s"
  shows "rep s' (plug K (Nd c l y (plug J t)))" "parent s' (ptr_of (sentinel s) t) = hole_addr y J" "key s' = key s" "sentinel s' = sentinel s"
proof -
  note f = two_children [OF rep J]
  let ?r = "plug J t" and ?temp = "ptr_of (sentinel s) t"
  define B where "B = unlink_first x y ?temp J s"
  define G where "G = take_place c l y ?r (parent s x) B"
  have s': "s' = relink K y G" using unlink_two_code [OF rep l J] by (simp add: s'_def G_def B_def)
  have B: "sentinel B = sentinel s" "root B = root s" "key B = key s" "color B = color s"
    by (simp_all add: B_def unlink_first_def store)
  have temp: "?temp \<noteq> y" "?temp \<notin> set (inorder l)" "?temp \<notin> ctx_nodes K"
    using f(6,11,15,26) heap_sentinel [OF f(1)] ptr_in [of t "sentinel s"] heap_ctx_sentinel [OF f(3)] inorder_plug [of J t]
    by (cases "t = Lf"; auto)+
  have "heap B ?r" using heap_unlink_first [OF f(2,4) _ J f(19), of x] f(5,7,10) by (simp add: B_def)
  moreover have "heap B l"
  proof -
    have "J \<noteq> [] \<Longrightarrow> faddr (hd J) \<notin> set (inorder l)" using f(11,25) by blast
    then show ?thesis using f(1,8) temp by (simp add: B_def unlink_first_def)
  qed
  ultimately have "heap G (Nd c l y ?r)"
    unfolding G_def using f(6,9,11,16,17,26) l B by (intro heap_take_place) auto
  moreover have "agree s G (ctx_nodes K)"
  proof -
    have ne: "a \<noteq> y \<and> a \<noteq> x \<and> a \<noteq> ?temp \<and> a \<noteq> ptr_of (sentinel s) l \<and> (?r \<noteq> Lf \<longrightarrow> a \<noteq> ptr_of (sentinel s) ?r) \<and> (J \<noteq> [] \<longrightarrow> a \<noteq> faddr (hd J))"
      if "a \<in> ctx_nodes K" for a
      using that f(12-15,25) temp(3) ptr_in [of l "sentinel s"] ptr_in [of ?r "sentinel s"] l by blast
    then have "agree s B (ctx_nodes K)" by (simp add: agree_def B_def unlink_first_def store)
    with ne show ?thesis by (simp add: agree_def G_def take_place_members B)
  qed
  moreover have "parent G y = parent s x"
    using f(6,9) ptr_in [of l "sentinel s"] ptr_in [of ?r "sentinel s"] l by (auto simp: G_def take_place_members B)
  moreover have "K \<noteq> [] \<Longrightarrow> parent s x = faddr (hd K)" using f(3) by (cases K) auto
  ultimately have "rep (relink K (ptr_of (sentinel s) (Nd c l y ?r)) G) (plug K (Nd c l y ?r))"
    using f(6,9,11,13-17,19,26) B by (intro rep_relink [OF rep]) (auto simp: G_def take_place_members)
  then show "rep s' (plug K (Nd c l y ?r))" by (simp add: s')
  show "key s' = key s" "sentinel s' = sentinel s" by (simp_all add: s' G_def take_place_members B store)
  show "parent s' ?temp = hole_addr y J"
  proof -
    have "?temp \<noteq> ptr_of (sentinel s) l" using temp(2) ptr_in [of l "sentinel s"] l by auto
    moreover have "J \<noteq> [] \<Longrightarrow> ?temp \<noteq> ptr_of (sentinel s) ?r"
      using ptr_plug_in [of J "sentinel s" t] f(17,27) ptr_in [of t "sentinel s"] heap_ctx_sentinel
      by (cases "t = Lf") (auto simp: distinct_plug inorder_plug ctx_nodes_def)
    ultimately show ?thesis using temp(1)
      by (cases "J = []") (auto simp: s' G_def take_place_members B store, auto simp: B_def unlink_first_def store)
  qed
qed

section \<open>Deletion\<close>

lemma find_node: "x \<in> set (inorder T) \<Longrightarrow> \<exists>K c l r. T = plug K (Nd c l x r)"
proof (induction T)
  case (Nd c l a r)
  consider "x \<in> set (inorder l)" | "x = a" | "x \<in> set (inorder r)" using Nd.prems by auto
  then show ?case
  proof cases
    case 1
    with Nd.IH(1) obtain K e u v where "l = plug K (Nd e u x v)" by blast
    then show ?thesis by (intro exI [of _ "K @ [(True, c, a, r)]"]) (auto simp: plug_append)
  next
    case 2
    then show ?thesis by (intro exI [of _ "[]"]) auto
  next
    case 3
    with Nd.IH(2) obtain K e u v where "r = plug K (Nd e u x v)" by blast
    then show ?thesis by (intro exI [of _ "K @ [(False, c, a, l)]"]) (auto simp: plug_append)
  qed
qed simp

lemma delete_end:
  assumes rep: "rep s (plug K t)" "K \<noteq> []" "parent s (ptr_of (sentinel s) t) = faddr (hd K)"
    and x: "x \<notin> set (inorder (plug K t))" "x \<noteq> sentinel s"
    and rb: "rb 0 t" "red \<Longrightarrow> \<not> is_redt t \<and> rb_ctx 0 K" "\<not> red \<Longrightarrow> rb_ctx 1 K"
  shows "\<exists>s'. (if red then Some (delete_clear x s)
      else do { (temp, s) \<leftarrow> delete_loop (ptr_of (sentinel s) t) (delete_clear x s); Some (ngx_rbt_black temp s) }) = Some s' \<and>
    rb_tree s' (inorder (plug K t)) \<and> key s' = (key s)(x := 0) \<and> sentinel s' = sentinel s"
proof -
  define s1 where "s1 = delete_clear x s"
  have rep1: "rep s1 (plug K t)" using rep_clear [OF rep(1) x(1)] by (simp add: s1_def)
  have m: "sentinel s1 = sentinel s" "key s1 = (key s)(x := 0)" by (simp_all add: s1_def store)
  show ?thesis
  proof (cases red)
    case True
    with rb rb_plug(2) [of 0 K t] have "(\<exists>m. rb m (plug K t)) \<and> \<not> is_redt (plug K t)" by blast
    with rep1 have "rb_tree s1 (inorder (plug K t))" by (auto simp: rb_tree_def)
    with True m show ?thesis by (simp add: s1_def [symmetric])
  next
    case False
    have "ptr_of (sentinel s) t \<noteq> x" using x ptr_in [of t "sentinel s"] by (cases "t = Lf") (auto simp: inorder_plug)
    then have "parent s1 (ptr_of (sentinel s1) t) = faddr (hd K)" using rep(3) by (simp add: s1_def store)
    moreover have "if is_redt t then rb 1 (blacken t) \<and> rb_ctx 1 K else rb 0 t \<and> rb_ctx (Suc 0) K"
      using rb False by (cases t rule: is_redt.cases) auto
    ultimately have "delete_inv s1 K t" using rep1 unfolding delete_inv_def by (auto split: if_splits)
    from delete_loop [OF this] obtain temp s2 where
      s2: "delete_loop (ptr_of (sentinel s1) t) s1 = Some (temp, s2)" "deleted s1 (plug K t) (ngx_rbt_black temp s2)" by blast
    then have "rb_tree (ngx_rbt_black temp s2) (inorder (plug K t))" "key (ngx_rbt_black temp s2) = key s1"
      "sentinel (ngx_rbt_black temp s2) = sentinel s1"
      by (auto simp: deleted_def same_nodes_def rb_tree_def)
    with False m s2(1) show ?thesis by (simp add: s1_def [symmetric])
  qed
qed

lemma delete_root:
  assumes rep: "rep s (Nd c l x r)" and t: "l = Lf \<and> t = r \<or> r = Lf \<and> t = l" and rb: "rb 0 t"
  shows "rb_tree (delete_clear x (ngx_rbt_black (ptr_of (sentinel s) t) (set_root (ptr_of (sentinel s) t) s))) (inorder t)"
proof -
  let ?s = "set_root (ptr_of (sentinel s) t) s"
  have "rep ?s t" "x \<notin> set (inorder t)" using rep t by (auto simp: rep_def store)
  then have "rep (set_color (ptr_of (sentinel s) t) 0 ?s) (blacken t)"
    using color_node [of ?s "[]" _ _ _ _ False] by (cases t) (auto simp: set_color_same rep_def store)
  moreover have "inorder (blacken t) = inorder t" "\<not> is_redt (blacken t)" by (cases t; simp)+
  moreover obtain m where "rb m (blacken t)" using rb_blacken [OF rb] by blast
  ultimately show ?thesis
    using rep_clear \<open>x \<notin> set (inorder t)\<close> unfolding rb_tree_def ngx_rbt_black_def by metis
qed

text \<open>The heights around a node with at most one child.\<close>

lemma one_child:
  assumes "rb_ctx n K" "rb n (Nd c l x r)" "l = Lf \<and> t = r \<or> r = Lf \<and> t = l"
  shows "rb 0 t" "c \<Longrightarrow> \<not> is_redt t \<and> rb_ctx 0 K" "\<not> c \<Longrightarrow> rb_ctx 1 K"
proof -
  have "n = (if c then 0 else 1) \<and> rb 0 t \<and> (c \<longrightarrow> \<not> is_redt t)"
    using assms(3)
  proof
    assume t: "l = Lf \<and> t = r"
    show ?thesis using assms(2) unfolding t [THEN conjunct1] t [THEN conjunct2] by (cases c) auto
  next
    assume t: "r = Lf \<and> t = l"
    show ?thesis using assms(2) unfolding t [THEN conjunct1] t [THEN conjunct2] by (cases c) auto
  qed
  with assms(1) show "rb 0 t" "c \<Longrightarrow> \<not> is_redt t \<and> rb_ctx 0 K" "\<not> c \<Longrightarrow> rb_ctx 1 K" by auto
qed

lemma rb_ctx_rename: "rb_ctx n (J @ (d, c, a, t) # K) = rb_ctx n (J @ (d, c, b, t) # K)"
proof (induction n J rule: rb_ctx.induct)
  case (1 n)
  then show ?case by (cases c) auto
next
  case (2 n d' a' t' J)
  then show ?case by (cases J) auto
qed auto

lemma sub_ptr: "rep s (plug K (Nd c l x r)) \<Longrightarrow> left s x = ptr_of (sentinel s) l \<and> right s x = ptr_of (sentinel s) r \<and>
    (ptr_of (sentinel s) l = sentinel s \<longleftrightarrow> l = Lf) \<and> (ptr_of (sentinel s) r = sentinel s \<longleftrightarrow> r = Lf) \<and>
    x \<noteq> sentinel s \<and> (ngx_rbt_is_red s x \<longleftrightarrow> c)"
  using heap_sentinel [of s l] heap_sentinel [of s r] ptr_in [of l "sentinel s"] ptr_in [of r "sentinel s"]
  by (cases "l = Lf"; cases "r = Lf") (auto simp: rep_plug ngx_rbt_is_red_def)

lemma delete_one:
  assumes rep: "rep s (plug K (Nd c l x r))" and n: "rb_ctx n K" "rb n (Nd c l x r)" and t: "l = Lf \<and> t = r \<or> r = Lf \<and> t = l"
  shows "\<exists>s'. ngx_rbtree_delete x s = Some s' \<and> rb_tree s' (before_hole K @ inorder t @ after_hole K) \<and>
    key s' = (key s)(x := 0) \<and> sentinel s' = sentinel s"
proof -
  let ?temp = "ptr_of (sentinel s) t"
  note p = sub_ptr [OF rep]
  have subst: "delete_subst x s = Some (x, ?temp)" using p t by (auto simp: delete_subst_def)
  show ?thesis
  proof (cases "K = []")
    case True
    with rep have "rep s (Nd c l x r)" "root s = x" using rep_root [OF rep] by simp_all
    with delete_root [OF this(1) t one_child(1) [OF n t]] subst True show ?thesis
      by (simp add: ngx_rbtree_delete_def ngx_rbt_black_def store)
  next
    case False
    define s1 where "s1 = delete_unlink x x ?temp s"
    note u = unlink_one [OF rep False t, folded s1_def]
    have "x \<notin> set (inorder (plug K t))" using rep t by (auto simp: rep_plug inorder_plug ctx_nodes_def)
    with delete_end [of s1 K t x c] u False one_child [OF n t] p
    obtain s' where "(if c then Some (delete_clear x s1)
        else do { (temp, s) \<leftarrow> delete_loop ?temp (delete_clear x s1); Some (ngx_rbt_black temp s) }) = Some s'"
      "rb_tree s' (inorder (plug K t))" "key s' = (key s)(x := 0)" "sentinel s' = sentinel s" by auto
    then show ?thesis
      using subst False rep_root [OF rep] p
      by (cases c) (auto simp: ngx_rbtree_delete_def s1_def [symmetric] Let_def inorder_plug)
  qed
qed

lemma delete_two:
  assumes rep: "rep s (plug K (Nd c l x r))" and rb: "rb m (plug K (Nd c l x r))" "\<not> is_redt (plug K (Nd c l x r))"
    and lr: "l \<noteq> Lf" "r \<noteq> Lf"
  shows "\<exists>s'. ngx_rbtree_delete x s = Some s' \<and> rb_tree s' (before_hole K @ inorder l @ inorder r @ after_hole K) \<and>
    key s' = (key s)(x := 0) \<and> sentinel s' = sentinel s"
proof -
  have "heap s r" using rep by (simp add: rep_plug)
  then obtain J e y t where r: "r = plug J (Nd e Lf y t)" and J: "\<forall>f\<in>set J. fst f"
    and mn: "ngx_rbtree_min (ptr_of (sentinel s) r) s = Some y" using rbtree_min [OF _ lr(2)] by blast
  let ?L = "J @ (False, c, x, l) # K" and ?L' = "J @ (False, c, y, l) # K" and ?temp = "ptr_of (sentinel s) t"
  note f = two_children [OF rep [unfolded r] J]
  have repL: "rep s (plug ?L (Nd e Lf y t))" and "rb m (plug ?L (Nd e Lf y t))" "\<not> is_redt (plug ?L (Nd e Lf y t))"
    using rep rb by (simp_all add: plug_append r)
  then obtain n where n: "rb_ctx n ?L" "rb n (Nd e Lf y t)" using plug_rb [of m ?L "Nd e Lf y t"] by blast
  then have "rb_ctx n ?L'" using rb_ctx_rename by blast
  then have one: "rb 0 t" "e \<Longrightarrow> \<not> is_redt t \<and> rb_ctx 0 ?L'" "\<not> e \<Longrightarrow> rb_ctx 1 ?L'"
    using one_child [OF _ n(2), of ?L' t] by simp_all
  have subst: "delete_subst x s = Some (y, ?temp)"
    using sub_ptr [OF rep] sub_ptr [OF repL] lr mn by (simp add: delete_subst_def)
  define s1 where "s1 = delete_unlink x y ?temp s"
  note u = unlink_two [OF rep [unfolded r] lr(1) J, folded s1_def]
  have "rep s1 (plug ?L' t)" "?L' \<noteq> []" "parent s1 (ptr_of (sentinel s1) t) = faddr (hd ?L')" using u by (auto simp: plug_append)
  moreover have "x \<notin> set (inorder (plug ?L' t))" "x \<noteq> sentinel s1"
    using f(7,8,10,12,18) u(4) by (auto simp: plug_append inorder_plug [of K] ctx_nodes_def)
  ultimately obtain s' where s': "(if e then Some (delete_clear x s1)
        else do { (temp, s) \<leftarrow> delete_loop (ptr_of (sentinel s1) t) (delete_clear x s1); Some (ngx_rbt_black temp s) }) = Some s'"
      "rb_tree s' (inorder (plug ?L' t))" "key s' = (key s1)(x := 0)" "sentinel s' = sentinel s1"
    using delete_end [of s1 ?L' t x e] one by blast
  have "inorder (plug ?L' t) = before_hole K @ inorder l @ inorder r @ after_hole K"
    using inorder_plug [of J] inorder_hole [OF J] by (simp add: plug_append inorder_plug [of K] r)
  moreover have "ngx_rbtree_delete x s = Some s'"
    using subst rep_root [OF repL] sub_ptr [OF repL] s'(1) u(4)
    by (cases e) (simp_all add: ngx_rbtree_delete_def s1_def [symmetric] Let_def)
  ultimately show ?thesis using s' u(3,4) by simp
qed

lemma delete_tree:
  assumes "rb_tree s xs" "x \<in> set xs"
  shows "\<exists>s'. ngx_rbtree_delete x s = Some s' \<and> rb_tree s' (remove1 x xs) \<and> key s' = (key s)(x := 0) \<and> sentinel s' = sentinel s"
proof -
  obtain T m where T: "rep s T" "rb m T" "\<not> is_redt T" "inorder T = xs" using assms(1) by (auto simp: rb_tree_def)
  obtain K c l r where K: "T = plug K (Nd c l x r)" using find_node assms(2) T(4) by blast
  have rep: "rep s (plug K (Nd c l x r))" using T(1) K by simp
  then have "x \<notin> set (before_hole K)" "x \<notin> set (inorder l)" by (auto simp: rep_plug ctx_nodes_def)
  then have xs: "remove1 x xs = before_hole K @ inorder l @ inorder r @ after_hole K"
    using T(4) by (auto simp: K inorder_plug remove1_append)
  obtain n where n: "rb_ctx n K" "rb n (Nd c l x r)" using plug_rb [of m K "Nd c l x r"] T K by blast
  consider "l = Lf" | "r = Lf" | "l \<noteq> Lf" "r \<noteq> Lf" by blast
  then show ?thesis
  proof cases
    case 1
    with delete_one [OF rep n, of r] xs show ?thesis by simp
  next
    case 2
    with delete_one [OF rep n, of l] xs show ?thesis by simp
  next
    case 3
    with delete_two [OF rep, of m] T K xs show ?thesis by simp
  qed
qed

section \<open>Height\<close>

fun rbt_height :: "rbt \<Rightarrow> nat" where
  "rbt_height Lf = 0"
| "rbt_height (Nd c l a r) = Suc (max (rbt_height l) (rbt_height r))"

lemma rb_height: "rb n t \<Longrightarrow> rbt_height t \<le> 2 * n + (if is_redt t then 1 else 0) \<and> 2 ^ n \<le> length (inorder t) + 1"
proof (induction n t rule: rb.induct)
  case (2 n l a r)
  then show ?case by auto
next
  case (3 n l a r)
  then obtain k where n: "n = Suc k" by (cases n) auto
  from 3 n have "rbt_height l \<le> 2 * k + 1" "rbt_height r \<le> 2 * k + 1" "2 ^ k \<le> length (inorder l) + 1" "2 ^ k \<le> length (inorder r) + 1"
    by (auto split: if_splits)
  then show ?case by (simp add: n)
qed simp

lemma rb_tree_height:
  assumes "rb_tree s xs"
  shows "\<exists>T. rep s T \<and> inorder T = xs \<and> 2 ^ rbt_height T \<le> (length xs + 1)\<^sup>2"
proof -
  obtain T n where T: "rep s T" "rb n T" "\<not> is_redt T" "inorder T = xs" using assms by (auto simp: rb_tree_def)
  then have "rbt_height T \<le> 2 * n" "2 ^ n \<le> length xs + 1" using rb_height [OF T(2)] by auto
  have "2 ^ rbt_height T \<le> (2 :: nat) ^ (2 * n)" using \<open>rbt_height T \<le> 2 * n\<close> by (intro power_increasing) auto
  also have "\<dots> = (2 ^ n)\<^sup>2" by (simp add: power_mult [symmetric] mult.commute)
  also have "\<dots> \<le> (length xs + 1)\<^sup>2" using \<open>2 ^ n \<le> length xs + 1\<close> by (intro power_mono) auto
  finally show ?thesis using T by blast
qed

section \<open>Properties\<close>

lemma rb_tree_init: "sent \<noteq> NULL \<Longrightarrow> rb_tree (ngx_rbtree_init sent s) []"
  unfolding rb_tree_def by (intro exI [of _ Lf] exI [of _ 0]) (simp add: rep_def ngx_rbtree_init_def ngx_rbt_black_def set_color_def)

lemma rb_tree_min:
  assumes "rb_tree s xs" "xs \<noteq> []"
  shows "ngx_rbtree_min (root s) s = Some (hd xs) \<and> root s \<noteq> sentinel s"
proof -
  obtain T where T: "rep s T" "inorder T = xs" using assms(1) by (auto simp: rb_tree_def)
  then have "T \<noteq> Lf" "heap s T" "root s = ptr_of (sentinel s) T" using assms(2) by (auto simp: rep_def)
  with rbtree_min [of s T] obtain K c y r where "T = plug K (Nd c Lf y r)" "\<forall>f\<in>set K. fst f" "ngx_rbtree_min (root s) s = Some y" by auto
  moreover have "root s \<noteq> sentinel s"
    using \<open>root s = _\<close> ptr_in [OF \<open>T \<noteq> Lf\<close>] heap_sentinel [OF \<open>heap s T\<close>] by metis
  ultimately show ?thesis using T(2) inorder_hole [of K] by (auto simp: inorder_plug)
qed

lemma rb_tree_empty: "rb_tree s [] \<longleftrightarrow> root s = sentinel s \<and> color s (sentinel s) = 0"
proof
  assume "rb_tree s []"
  then obtain T where T: "rep s T" "inorder T = []" by (auto simp: rb_tree_def)
  then have "T = Lf" by (cases T) auto
  with T(1) show "root s = sentinel s \<and> color s (sentinel s) = 0" by (simp add: rep_def)
next
  assume "root s = sentinel s \<and> color s (sentinel s) = 0"
  then show "rb_tree s []" unfolding rb_tree_def by (intro exI [of _ Lf] exI [of _ 0]) (simp add: rep_def)
qed

lemma rb_tree_distinct: "rb_tree s xs \<Longrightarrow> distinct xs \<and> sentinel s \<notin> set xs"
  unfolding rb_tree_def rep_def using heap_sentinel by blast

lemma ordered_upd: "x \<notin> set xs \<Longrightarrow> ordered before (k(x := v)) xs = ordered before k xs"
  by (induction xs) (auto simp: ordered_def)

lemma ordered_remove1: "distinct xs \<Longrightarrow> ordered before k xs \<Longrightarrow> ordered before (k(x := v)) (remove1 x xs)"
proof (induction xs)
  case (Cons y xs)
  then show ?case
    using ordered_upd [of x xs before k v] set_remove1_subset [of x xs] by (cases "x = y") (auto simp: ordered_def)
qed (simp add: ordered_def)

text \<open>
  C3. Insertion implements insertion into an ordered list. On a store that holds a red-black
  tree with the nodes \<open>xs\<close> it returns, the store holds a red-black tree again, with the new node
  at one place of \<open>xs\<close>, no key has changed, and a tree that was ordered is ordered: for keys that
  are compared as numbers, and for timers whenever they lie within half of the 32-bit range.
\<close>

theorem rbtree_insert_refines:
  assumes "rb_tree s xs" "node \<notin> set xs" "node \<noteq> sentinel s"
  shows "(\<exists>s' us vs. ngx_rbtree_insert ngx_rbtree_insert_value node s = Some s' \<and> xs = us @ vs \<and> rb_tree s' (us @ node # vs) \<and>
      key s' = key s \<and> (ordered (<) (key s) xs \<longrightarrow> ordered (<) (key s) (us @ node # vs))) \<and>
    (\<exists>s' us vs. ngx_rbtree_insert ngx_rbtree_insert_timer_value node s = Some s' \<and> xs = us @ vs \<and> rb_tree s' (us @ node # vs) \<and>
      key s' = key s \<and>
      (timer_window (key s ` set (node # xs)) \<and> ordered timer_before (key s) xs \<longrightarrow> ordered timer_before (key s) (us @ node # vs)))"
  using by_value.insert_tree [OF assms] by_timer.insert_tree [OF assms] by blast

definition one_node :: ngx_rbtree_t where
  "one_node = \<lparr>key = of_nat, left = (\<lambda>_. 1), right = (\<lambda>_. 1), parent = (\<lambda>_. NULL), color = (\<lambda>_. 0), root = 2, sentinel = 1\<rparr>"

lemma rb_tree_one_node: "rb_tree one_node [2]"
  unfolding rb_tree_def
  by (intro exI [of _ "Nd False Lf 2 Lf"] exI [of _ 1]) (simp add: rep_def one_node_def)

theorem rbtree_insert_refines_witness:
  "\<exists>s' us vs. ngx_rbtree_insert ngx_rbtree_insert_value 3 one_node = Some s' \<and> [2] = us @ vs \<and> rb_tree s' (us @ 3 # vs) \<and>
    ordered (<) (key s') (us @ 3 # vs)"
proof -
  have "3 \<notin> set [2 :: addr]" "3 \<noteq> sentinel one_node" "ordered (<) (key one_node) [2]" by (simp_all add: one_node_def ordered_def)
  with rbtree_insert_refines [OF rb_tree_one_node, of 3] show ?thesis by metis
qed

text \<open>
  C2. Deletion implements deletion from a list: it returns, the store holds a red-black tree of
  the remaining nodes in their order, and only the key of the deleted node has changed. So an
  ordered tree stays ordered.
\<close>

theorem rbtree_delete_refines:
  assumes "rb_tree s xs" "node \<in> set xs"
  shows "\<exists>s'. ngx_rbtree_delete node s = Some s' \<and> rb_tree s' (remove1 node xs) \<and> key s' = (key s)(node := 0) \<and>
    (ordered before (key s) xs \<longrightarrow> ordered before (key s') (remove1 node xs))"
proof -
  obtain s' where s': "ngx_rbtree_delete node s = Some s'" "rb_tree s' (remove1 node xs)" "key s' = (key s)(node := 0)"
    using delete_tree [OF assms] by blast
  with ordered_remove1 [of xs before "key s" node 0] rb_tree_distinct [OF assms(1)] show ?thesis by auto
qed

definition three_nodes :: ngx_rbtree_t where
  "three_nodes = \<lparr>key = of_nat, left = (\<lambda>a. if a = 3 then 2 else 1), right = (\<lambda>a. if a = 3 then 4 else 1), parent = (\<lambda>_. 3),
    color = (\<lambda>a. if a = 2 \<or> a = 4 then 1 else 0), root = 3, sentinel = 1\<rparr>"

lemma rb_tree_three_nodes: "rb_tree three_nodes [2, 3, 4]"
  unfolding rb_tree_def
  by (intro exI [of _ "Nd False (Nd True Lf 2 Lf) 3 (Nd True Lf 4 Lf)"] exI [of _ 1]) (simp add: rep_def three_nodes_def)

theorem rbtree_delete_refines_witness:
  "\<exists>s'. ngx_rbtree_delete 3 three_nodes = Some s' \<and> rb_tree s' [2, 4] \<and> ordered (<) (key s') [2, 4]"
proof -
  have "ordered (<) (key three_nodes) [2, 3, 4]" by (simp add: ordered_def three_nodes_def)
  then show ?thesis using rbtree_delete_refines [OF rb_tree_three_nodes, of 3 "(<)"] by (simp, blast)
qed

text \<open>
  C20. \<open>ngx_rbtree_min\<close> returns the first node of a tree, and the tree is balanced: its height is at
  most twice the logarithm of the number of its nodes plus one.
\<close>

theorem rbtree_balanced:
  assumes "rb_tree s xs" "xs \<noteq> []"
  shows "ngx_rbtree_min (root s) s = Some (hd xs) \<and> (\<exists>T. rep s T \<and> inorder T = xs \<and> 2 ^ rbt_height T \<le> (length xs + 1)\<^sup>2)"
  using rb_tree_min [OF assms] rb_tree_height [OF assms(1)] by blast

theorem rbtree_balanced_witness:
  "ngx_rbtree_min (root one_node) one_node = Some 2 \<and> (\<exists>T. rep one_node T \<and> inorder T = [2] \<and> 2 ^ rbt_height T \<le> (1 + 1 :: nat)\<^sup>2)"
  using rbtree_balanced [OF rb_tree_one_node] by simp

end
