(* ===== verification/Event_Timer.thy ===== *)
theory Event_Timer
  imports Rbtree_Delete
begin

text \<open>
  The timers of the event loop (\<open>src/event/ngx_event_timer.c\<close> and \<open>ngx_event_timer.h\<close>): a red-black
  tree of events, ordered by the time at which they expire. An event is named by the address of
  its member \<open>timer\<close>. The build has no threads, so the mutexes are empty; the assignments of NULL
  under \<open>NGX_DEBUG\<close> repeat those that \<open>ngx_rbtree_delete\<close> has just made.
\<close>

type_synonym ngx_msec_t = ngx_uint_t

record ngx_timers =
  ngx_event_timer_rbtree :: ngx_rbtree_t
  timer_set :: "addr \<Rightarrow> bool"
  timedout :: "addr \<Rightarrow> bool"
  ngx_current_msec :: ngx_msec_t

abbreviation timer_key :: "ngx_timers \<Rightarrow> addr \<Rightarrow> ngx_msec_t" where
  "timer_key s \<equiv> key (ngx_event_timer_rbtree s)"

definition NGX_TIMER_INFINITE :: ngx_msec_t where
  "NGX_TIMER_INFINITE = -1"

definition NGX_TIMER_LAZY_DELAY :: ngx_msec_t where
  "NGX_TIMER_LAZY_DELAY = 300"

definition ngx_abs :: "ngx_msec_t \<Rightarrow> ngx_msec_t" where
  "ngx_abs val = (if 0 \<le>s val then val else - val)"

section \<open>Operations\<close>

definition ngx_event_timer_init :: "addr \<Rightarrow> ngx_timers \<Rightarrow> ngx_timers" where
  "ngx_event_timer_init ngx_event_timer_sentinel s =
    s\<lparr>ngx_event_timer_rbtree := ngx_rbtree_init ngx_event_timer_sentinel (ngx_event_timer_rbtree s)\<rparr>"

definition ngx_event_find_timer :: "ngx_timers \<Rightarrow> ngx_msec_t option" where
  "ngx_event_find_timer s =
    (let t = ngx_event_timer_rbtree s in
     if root t = sentinel t then Some NGX_TIMER_INFINITE
     else
       do {
         node \<leftarrow> ngx_rbtree_min (root t) t;
         let timer = key t node - ngx_current_msec s in Some (if 0 <s timer then timer else 0)
       })"

definition ngx_event_del_timer :: "addr \<Rightarrow> ngx_timers \<Rightarrow> ngx_timers option" where
  "ngx_event_del_timer ev s =
    do {
      t \<leftarrow> ngx_rbtree_delete ev (ngx_event_timer_rbtree s);
      Some (s\<lparr>ngx_event_timer_rbtree := t, timer_set := (timer_set s)(ev := False)\<rparr>)
    }"

definition ngx_event_add_timer :: "addr \<Rightarrow> ngx_msec_t \<Rightarrow> ngx_timers \<Rightarrow> ngx_timers option" where
  "ngx_event_add_timer ev timer s =
    (let k = ngx_current_msec s + timer in
     if timer_set s ev \<and> ngx_abs (k - timer_key s ev) <s NGX_TIMER_LAZY_DELAY then Some s
     else
       do {
         s \<leftarrow> (if timer_set s ev then ngx_event_del_timer ev s else Some s);
         t \<leftarrow> ngx_rbtree_insert ngx_rbtree_insert_timer_value ev (set_key ev k (ngx_event_timer_rbtree s));
         Some (s\<lparr>ngx_event_timer_rbtree := t, timer_set := (timer_set s)(ev := True)\<rparr>)
       })"

text \<open>The loop that runs the handlers of the expired timers, \<open>handler\<close> for \<open>ev->handler\<close>.\<close>

partial_function (option) ngx_event_expire_timers ::
  "(addr \<Rightarrow> ngx_timers \<Rightarrow> ngx_timers option) \<Rightarrow> ngx_timers \<Rightarrow> ngx_timers option" where
  "ngx_event_expire_timers handler s =
    (if root (ngx_event_timer_rbtree s) = sentinel (ngx_event_timer_rbtree s) then Some s
     else
       do {
         node \<leftarrow> ngx_rbtree_min (root (ngx_event_timer_rbtree s)) (ngx_event_timer_rbtree s);
         if timer_key s node - ngx_current_msec s \<le>s 0
         then
           do {
             t \<leftarrow> ngx_rbtree_delete node (ngx_event_timer_rbtree s);
             s \<leftarrow> handler node (s\<lparr>ngx_event_timer_rbtree := t, timer_set := (timer_set s)(node := False),
               timedout := (timedout s)(node := True)\<rparr>);
             ngx_event_expire_timers handler s
           }
         else Some s
       })"

section \<open>Times near the present\<close>

text \<open>A quarter of the 32-bit range, about twelve days, on both sides of the clock.\<close>

definition near :: "ngx_msec_t \<Rightarrow> ngx_msec_t \<Rightarrow> bool" where
  "near now k \<longleftrightarrow> - (2 ^ 30) \<le> sint (k - now) \<and> sint (k - now) < 2 ^ 30"

lemma near_before:
  assumes "near now a" "near now b"
  shows "timer_before a b \<longleftrightarrow> sint (a - now) < sint (b - now)"
proof -
  have "a - b = (a - now) - (b - now)" by simp
  moreover have "sint ((a - now) - (b - now)) = sint (a - now) - sint (b - now)"
    using assms by (intro sint_diff) (auto simp: near_def)
  ultimately show ?thesis by (simp add: timer_before_def word_sless_alt)
qed

lemma near_window: "\<forall>k\<in>S. near now k \<Longrightarrow> timer_window S"
  unfolding timer_window_def
proof (intro exI [of _ "now - 2 ^ 30"] ballI)
  fix k assume "\<forall>k\<in>S. near now k" "k \<in> S"
  then have k: "near now k" by blast
  have "sint (2 ^ 30 :: ngx_msec_t) = 2 ^ 30" by simp
  then have "sint ((k - now) + 2 ^ 30) = sint (k - now) + 2 ^ 30"
    using k by (subst sint_plus) (auto simp: near_def)
  then have "0 \<le> sint (k - (now - 2 ^ 30))" "sint (k - (now - 2 ^ 30)) < 2 ^ 31"
    using k by (auto simp: near_def algebra_simps)
  then show "unat (k - (now - 2 ^ 30)) < 2 ^ 31"
    using sint_unat_cases [of "k - (now - 2 ^ 30)"] uint_lt2p [of "k - (now - 2 ^ 30)"] by (simp split: if_splits)
qed

section \<open>The invariant\<close>

text \<open>The tree holds exactly the events whose timer is set, in the order of their times.\<close>

definition timer_inv :: "ngx_timers \<Rightarrow> addr list \<Rightarrow> bool" where
  "timer_inv s evs \<longleftrightarrow> rb_tree (ngx_event_timer_rbtree s) evs \<and> set evs = {ev. timer_set s ev} \<and>
    ordered timer_before (timer_key s) evs \<and> (\<forall>ev\<in>set evs. near (ngx_current_msec s) (timer_key s ev))"

lemma rb_tree_set_key: "rb_tree (set_key a k t) xs = rb_tree t xs"
  by (simp add: rb_tree_def rep_def store)

text \<open>What an operation on the timer of \<open>ev\<close> leaves alone.\<close>

definition other_timers :: "addr \<Rightarrow> ngx_timers \<Rightarrow> ngx_timers \<Rightarrow> bool" where
  "other_timers ev s s' \<longleftrightarrow> ngx_current_msec s' = ngx_current_msec s \<and> timedout s' = timedout s \<and>
    sentinel (ngx_event_timer_rbtree s') = sentinel (ngx_event_timer_rbtree s) \<and>
    (\<forall>e. e \<noteq> ev \<longrightarrow> timer_set s' e = timer_set s e \<and> timer_key s' e = timer_key s e)"

lemma delete_timer:
  assumes "timer_inv s evs" "timer_set s ev"
  shows "\<exists>t. ngx_rbtree_delete ev (ngx_event_timer_rbtree s) = Some t \<and>
    rb_tree t (remove1 ev evs) \<and> set (remove1 ev evs) = {e. timer_set s e} - {ev} \<and> ordered timer_before (key t) (remove1 ev evs) \<and>
    (\<forall>e\<in>set (remove1 ev evs). near (ngx_current_msec s) (key t e)) \<and> sentinel t = sentinel (ngx_event_timer_rbtree s) \<and>
    key t = (timer_key s)(ev := 0)"
proof -
  have inv: "rb_tree (ngx_event_timer_rbtree s) evs" "set evs = {ev. timer_set s ev}" "ordered timer_before (timer_key s) evs"
    "\<forall>ev\<in>set evs. near (ngx_current_msec s) (timer_key s ev)" using assms(1) by (auto simp: timer_inv_def)
  have ev: "ev \<in> set evs" and d: "distinct evs" using assms(2) inv rb_tree_distinct by auto
  with delete_tree [OF inv(1) ev] ordered_remove1 [OF d inv(3), of ev 0] inv show ?thesis by fastforce
qed

lemma del_timer:
  assumes "timer_inv s evs" "timer_set s ev"
  shows "\<exists>s'. ngx_event_del_timer ev s = Some s' \<and> timer_inv s' (remove1 ev evs) \<and> \<not> timer_set s' ev \<and> other_timers ev s s'"
proof -
  from delete_timer [OF assms] obtain t where t: "ngx_rbtree_delete ev (ngx_event_timer_rbtree s) = Some t"
    "rb_tree t (remove1 ev evs)" "set (remove1 ev evs) = {e. timer_set s e} - {ev}" "ordered timer_before (key t) (remove1 ev evs)"
    "\<forall>e\<in>set (remove1 ev evs). near (ngx_current_msec s) (key t e)" "sentinel t = sentinel (ngx_event_timer_rbtree s)"
    "key t = (timer_key s)(ev := 0)" by blast
  let ?s = "s\<lparr>ngx_event_timer_rbtree := t, timer_set := (timer_set s)(ev := False)\<rparr>"
  have "timer_inv ?s (remove1 ev evs)" using t by (auto simp: timer_inv_def)
  moreover have "other_timers ev s ?s" using t(6,7) by (simp add: other_timers_def)
  ultimately show ?thesis using t(1) by (simp add: ngx_event_del_timer_def)
qed

lemma sint_timer:
  fixes timer :: ngx_msec_t
  assumes "timer < 2 ^ 30"
  shows "sint timer = int (unat timer)" "unat timer < 1073741824"
proof -
  show lt: "unat timer < 1073741824" using assms by (simp add: word_less_nat_alt)
  then show "sint timer = int (unat timer)" using sint_unat_cases [of timer] by simp
qed

lemma near_future: "timer < 2 ^ 30 \<Longrightarrow> near now (now + timer)"
proof -
  assume "timer < 2 ^ 30"
  note s = sint_timer(1) [OF this] and lt = sint_timer(2) [OF this]
  have "- 1073741824 \<le> sint timer" unfolding s by linarith
  moreover have "sint timer < 1073741824" unfolding s using lt by linarith
  ultimately show ?thesis by (simp add: near_def)
qed

lemma insert_timer:
  assumes "timer_inv s evs" "\<not> timer_set s ev" "ev \<noteq> sentinel (ngx_event_timer_rbtree s)" "timer < 2 ^ 30"
  shows "\<exists>t us vs. ngx_rbtree_insert ngx_rbtree_insert_timer_value ev (set_key ev (ngx_current_msec s + timer) (ngx_event_timer_rbtree s)) = Some t \<and>
    evs = us @ vs \<and>
    timer_inv (s\<lparr>ngx_event_timer_rbtree := t, timer_set := (timer_set s)(ev := True)\<rparr>) (us @ ev # vs) \<and>
    sentinel t = sentinel (ngx_event_timer_rbtree s) \<and> key t = (timer_key s)(ev := ngx_current_msec s + timer)"
proof -
  let ?t = "set_key ev (ngx_current_msec s + timer) (ngx_event_timer_rbtree s)"
  have inv: "rb_tree ?t evs" "set evs = {ev. timer_set s ev}" "ordered timer_before (timer_key s) evs"
    "\<forall>ev\<in>set evs. near (ngx_current_msec s) (timer_key s ev)" using assms(1) by (auto simp: timer_inv_def rb_tree_set_key)
  have ev: "ev \<notin> set evs" using inv assms(2) by simp
  have k: "key ?t = (timer_key s)(ev := ngx_current_msec s + timer)" by (simp add: store)
  have near: "\<forall>e\<in>set (ev # evs). near (ngx_current_msec s) (key ?t e)" using inv(4) near_future [OF assms(4)] k by simp
  then have w: "timer_window (key ?t ` set (ev # evs))" by (intro near_window [of _ "ngx_current_msec s"]) blast
  have o: "ordered timer_before (key ?t) evs" using inv(3) by (simp only: k ordered_upd [OF ev])
  have se: "sentinel ?t = sentinel (ngx_event_timer_rbtree s)" by (simp add: store)
  from by_timer.insert_tree [OF inv(1) ev] assms(3) w o se obtain t us vs where
    t: "ngx_rbtree_insert ngx_rbtree_insert_timer_value ev ?t = Some t" "evs = us @ vs" "rb_tree t (us @ ev # vs)" "key t = key ?t"
      "sentinel t = sentinel ?t" "ordered timer_before (key ?t) (us @ ev # vs)" by metis
  have "timer_inv (s\<lparr>ngx_event_timer_rbtree := t, timer_set := (timer_set s)(ev := True)\<rparr>) (us @ ev # vs)"
    unfolding timer_inv_def using t(2-4,6) inv(2) near by auto
  then show ?thesis using t(1,2,4,5) k se by metis
qed

text \<open>A timer that is set anew may keep a time less than \<open>NGX_TIMER_LAZY_DELAY\<close> away.\<close>

lemma add_timer:
  assumes "timer_inv s evs" "ev \<noteq> sentinel (ngx_event_timer_rbtree s)" "timer < 2 ^ 30"
  shows "\<exists>s' evs'. ngx_event_add_timer ev timer s = Some s' \<and> timer_inv s' evs' \<and> timer_set s' ev \<and> other_timers ev s s' \<and>
    (timer_key s' ev = ngx_current_msec s + timer \<or>
     timer_set s ev \<and> timer_key s' ev = timer_key s ev \<and> ngx_abs (ngx_current_msec s + timer - timer_key s ev) <s NGX_TIMER_LAZY_DELAY)"
proof (cases "timer_set s ev \<and> ngx_abs (ngx_current_msec s + timer - timer_key s ev) <s NGX_TIMER_LAZY_DELAY")
  case True
  then have "ngx_event_add_timer ev timer s = Some s" by (simp add: ngx_event_add_timer_def)
  then show ?thesis using True assms(1) by (intro exI [of _ s] exI [of _ evs]) (simp add: other_timers_def)
next
  case False
  obtain s1 evs1 where s1: "(if timer_set s ev then ngx_event_del_timer ev s else Some s) = Some s1" "timer_inv s1 evs1"
      "\<not> timer_set s1 ev" "other_timers ev s s1"
  proof (cases "timer_set s ev")
    case True
    with del_timer [OF assms(1) True] that show ?thesis by auto
  next
    case no: False
    with assms(1) that [of s evs] show ?thesis by (simp add: other_timers_def)
  qed
  have now: "ngx_current_msec s1 = ngx_current_msec s" "ev \<noteq> sentinel (ngx_event_timer_rbtree s1)"
    using s1(4) assms(2) by (simp_all add: other_timers_def)
  from insert_timer [OF s1(2,3) now(2) assms(3)] obtain t us vs where
    t: "ngx_rbtree_insert ngx_rbtree_insert_timer_value ev (set_key ev (ngx_current_msec s1 + timer) (ngx_event_timer_rbtree s1)) = Some t"
      "timer_inv (s1\<lparr>ngx_event_timer_rbtree := t, timer_set := (timer_set s1)(ev := True)\<rparr>) (us @ ev # vs)"
      "sentinel t = sentinel (ngx_event_timer_rbtree s1)" "key t = (timer_key s1)(ev := ngx_current_msec s1 + timer)" by blast
  let ?s = "s1\<lparr>ngx_event_timer_rbtree := t, timer_set := (timer_set s1)(ev := True)\<rparr>"
  have "ngx_event_add_timer ev timer s = Some ?s"
    unfolding ngx_event_add_timer_def Let_def if_not_P [OF False] s1(1) using t(1) by (simp add: now(1))
  moreover have "other_timers ev s ?s" using s1(4) t(3,4) by (simp add: other_timers_def)
  ultimately show ?thesis using t(2,4) now by (intro exI [of _ ?s] exI [of _ "us @ ev # vs"]) simp
qed

section \<open>Expiry\<close>

definition due :: "ngx_timers \<Rightarrow> addr \<Rightarrow> bool" where
  "due s ev \<longleftrightarrow> timer_set s ev \<and> timer_key s ev - ngx_current_msec s \<le>s 0"

lemma due_sint: "due s ev \<longleftrightarrow> timer_set s ev \<and> sint (timer_key s ev - ngx_current_msec s) \<le> 0"
  by (simp add: due_def word_sle_eq)

text \<open>The first timer of the tree is the first to expire.\<close>

lemma first_timer:
  assumes "timer_inv s (e # evs)" "timer_set s ev"
  shows "sint (timer_key s e - ngx_current_msec s) \<le> sint (timer_key s ev - ngx_current_msec s)"
proof (cases "ev = e")
  case False
  then have "ev \<in> set evs" using assms by (auto simp: timer_inv_def)
  then have "\<not> timer_before (timer_key s ev) (timer_key s e)" "near (ngx_current_msec s) (timer_key s ev)" "near (ngx_current_msec s) (timer_key s e)"
    using assms(1) by (auto simp: timer_inv_def ordered_def)
  with near_before [of "ngx_current_msec s" "timer_key s ev" "timer_key s e"] show ?thesis by simp
qed simp

lemma timer_root:
  assumes "timer_inv s evs"
  shows "root (ngx_event_timer_rbtree s) = sentinel (ngx_event_timer_rbtree s) \<longleftrightarrow> evs = []"
    "evs \<noteq> [] \<Longrightarrow> ngx_rbtree_min (root (ngx_event_timer_rbtree s)) (ngx_event_timer_rbtree s) = Some (hd evs)"
proof -
  have t: "rb_tree (ngx_event_timer_rbtree s) evs" using assms by (simp add: timer_inv_def)
  then show "evs \<noteq> [] \<Longrightarrow> ngx_rbtree_min (root (ngx_event_timer_rbtree s)) (ngx_event_timer_rbtree s) = Some (hd evs)"
    using rb_tree_min by blast
  show "root (ngx_event_timer_rbtree s) = sentinel (ngx_event_timer_rbtree s) \<longleftrightarrow> evs = []"
    using t rb_tree_min [OF t] rb_tree_empty [of "ngx_event_timer_rbtree s"] by (cases "evs = []") auto
qed

text \<open>
  What the handlers do to the timers: they call \<open>ngx_add_timer\<close> with a time to come, and
  \<open>ngx_del_timer\<close> after a test of \<open>timer_set\<close>.
\<close>

datatype timer_op = Add_timer addr ngx_msec_t | Del_timer addr

fun run_op :: "timer_op \<Rightarrow> ngx_timers \<Rightarrow> ngx_timers option" where
  "run_op (Add_timer ev timer) s = ngx_event_add_timer ev timer s"
| "run_op (Del_timer ev) s = (if timer_set s ev then ngx_event_del_timer ev s else Some s)"

fun run_ops :: "timer_op list \<Rightarrow> ngx_timers \<Rightarrow> ngx_timers option" where
  "run_ops [] s = Some s"
| "run_ops (op # ops) s = do { s \<leftarrow> run_op op s; run_ops ops s }"

fun op_ok :: "addr \<Rightarrow> timer_op \<Rightarrow> bool" where
  "op_ok sent (Add_timer ev timer) \<longleftrightarrow> ev \<noteq> sent \<and> 0 < timer \<and> timer < 2 ^ 30"
| "op_ok sent (Del_timer ev) \<longleftrightarrow> True"

text \<open>After the operation: the invariant, and no timer is due that was not.\<close>

definition timers_kept :: "ngx_timers \<Rightarrow> ngx_timers \<Rightarrow> bool" where
  "timers_kept s s' \<longleftrightarrow> (\<exists>evs. timer_inv s' evs) \<and> ngx_current_msec s' = ngx_current_msec s \<and>
    sentinel (ngx_event_timer_rbtree s') = sentinel (ngx_event_timer_rbtree s) \<and> Collect (due s') \<subseteq> Collect (due s)"

lemma timers_kept_trans: "timers_kept s s' \<Longrightarrow> timers_kept s' s'' \<Longrightarrow> timers_kept s s''"
  by (auto simp: timers_kept_def)

lemma due_other:
  assumes "other_timers ev s s'" "due s' ev \<Longrightarrow> due s ev"
  shows "Collect (due s') \<subseteq> Collect (due s)"
proof
  fix e assume "e \<in> Collect (due s')"
  with assms show "e \<in> Collect (due s)" by (cases "e = ev") (auto simp: due_def other_timers_def)
qed

lemma run_op_kept:
  assumes "timer_inv s evs" "op_ok (sentinel (ngx_event_timer_rbtree s)) op"
  shows "\<exists>s'. run_op op s = Some s' \<and> timers_kept s s'"
proof (cases op)
  case (Add_timer ev timer)
  with assms(2) have op: "ev \<noteq> sentinel (ngx_event_timer_rbtree s)" "0 < timer" "timer < 2 ^ 30" by auto
  from add_timer [OF assms(1) op(1,3)] obtain s' evs' where
    s': "ngx_event_add_timer ev timer s = Some s'" "timer_inv s' evs'" "other_timers ev s s'"
      "timer_key s' ev = ngx_current_msec s + timer \<or> timer_set s ev \<and> timer_key s' ev = timer_key s ev" by blast
  have "0 < unat timer" using op(2) by (simp add: word_less_nat_alt)
  then have "sint timer > 0" unfolding sint_timer(1) [OF op(3)] by linarith
  then have "due s' ev \<Longrightarrow> due s ev" using s'(3,4) by (auto simp: due_sint other_timers_def)
  note due_other [OF s'(3) this]
  with s' Add_timer show ?thesis by (auto simp: timers_kept_def other_timers_def)
next
  case (Del_timer ev)
  show ?thesis
  proof (cases "timer_set s ev")
    case True
    from del_timer [OF assms(1) True] obtain s' where s': "ngx_event_del_timer ev s = Some s'" "timer_inv s' (remove1 ev evs)"
      "\<not> timer_set s' ev" "other_timers ev s s'" by blast
    have "due s' ev \<Longrightarrow> due s ev" using s'(3) by (simp add: due_def)
    note due_other [OF s'(4) this]
    with s' True Del_timer show ?thesis by (auto simp: timers_kept_def other_timers_def)
  next
    case False
    with assms(1) Del_timer show ?thesis by (auto simp: timers_kept_def)
  qed
qed

lemma run_ops_kept:
  "timer_inv s evs \<Longrightarrow> \<forall>op\<in>set ops. op_ok (sentinel (ngx_event_timer_rbtree s)) op \<Longrightarrow> \<exists>s'. run_ops ops s = Some s' \<and> timers_kept s s'"
proof (induction ops arbitrary: s evs)
  case Nil
  then show ?case by (auto simp: timers_kept_def)
next
  case (Cons op ops)
  from run_op_kept [OF Cons.prems(1), of op] Cons.prems(2) obtain s1 where s1: "run_op op s = Some s1" "timers_kept s s1" by auto
  then obtain evs1 where "timer_inv s1 evs1" "sentinel (ngx_event_timer_rbtree s1) = sentinel (ngx_event_timer_rbtree s)"
    by (auto simp: timers_kept_def)
  with Cons.IH [of s1 evs1] Cons.prems(2) obtain s' where "run_ops ops s1 = Some s'" "timers_kept s1 s'" by auto
  with s1 timers_kept_trans show ?case by auto
qed

text \<open>The state in which the handler of an expired timer starts.\<close>

definition expired_state :: "addr \<Rightarrow> ngx_rbtree_t \<Rightarrow> ngx_timers \<Rightarrow> ngx_timers" where
  "expired_state ev t s = s\<lparr>ngx_event_timer_rbtree := t, timer_set := (timer_set s)(ev := False), timedout := (timedout s)(ev := True)\<rparr>"

lemma expired_members [simp]:
  "ngx_event_timer_rbtree (expired_state ev t s) = t" "ngx_current_msec (expired_state ev t s) = ngx_current_msec s"
  "timer_set (expired_state ev t s) = (timer_set s)(ev := False)"
  by (simp_all add: expired_state_def)

lemma expired:
  assumes "timer_inv s (ev # evs)" "due s ev"
  obtains t where "ngx_rbtree_delete ev (ngx_event_timer_rbtree s) = Some t"
    "timer_inv (expired_state ev t s) evs"
    "sentinel t = sentinel (ngx_event_timer_rbtree s)"
    "Collect (due (expired_state ev t s)) =
      Collect (due s) - {ev}"
proof -
  have "timer_set s ev" using assms(2) by (simp add: due_def)
  from delete_timer [OF assms(1) this] obtain t where t: "ngx_rbtree_delete ev (ngx_event_timer_rbtree s) = Some t"
    "rb_tree t evs" "set evs = {e. timer_set s e} - {ev}" "ordered timer_before (key t) evs"
    "\<forall>e\<in>set evs. near (ngx_current_msec s) (key t e)" "sentinel t = sentinel (ngx_event_timer_rbtree s)"
    "key t = (timer_key s)(ev := 0)" by auto
  show ?thesis by (rule that [OF t(1) _ t(6)]) (use t in \<open>auto simp: timer_inv_def due_def split: if_splits\<close>)
qed

lemma expire_timers:
  assumes ops: "\<forall>ev s'. \<forall>op\<in>set (ops ev s'). op_ok sent op"
  shows "timer_inv s evs \<Longrightarrow> sentinel (ngx_event_timer_rbtree s) = sent \<Longrightarrow>
    \<exists>s'. ngx_event_expire_timers (\<lambda>ev s. run_ops (ops ev s) s) s = Some s' \<and> timers_kept s s' \<and> Collect (due s') = {}"
proof (induction "card (Collect (due s))" arbitrary: s evs rule: less_induct)
  case less
  let ?h = "\<lambda>ev s. run_ops (ops ev s) s"
  have fin: "finite (Collect (due s))"
    using less.prems(1) by (auto simp: timer_inv_def due_def intro: finite_subset [of _ "set evs"])
  show ?case
  proof (cases evs)
    case Nil
    then have "Collect (due s) = {}" using less.prems(1) by (auto simp: timer_inv_def due_def)
    then show ?thesis using less.prems Nil timer_root(1) [OF less.prems(1)]
      by (subst ngx_event_expire_timers.simps) (auto simp: timers_kept_def)
  next
    case (Cons ev evs')
    note inv = less.prems(1) [unfolded Cons]
    have mn: "root (ngx_event_timer_rbtree s) \<noteq> sentinel (ngx_event_timer_rbtree s)"
      "ngx_rbtree_min (root (ngx_event_timer_rbtree s)) (ngx_event_timer_rbtree s) = Some ev"
      using timer_root [OF less.prems(1)] by (simp_all add: Cons)
    have set: "timer_set s ev" using inv by (auto simp: timer_inv_def)
    show ?thesis
    proof (cases "due s ev")
      case False
      then have "0 < sint (timer_key s ev - ngx_current_msec s)" using set by (simp add: due_sint)
      then have "Collect (due s) = {}" using first_timer [OF inv] by (auto simp: due_sint) (smt (verit))
      moreover have "ngx_event_expire_timers ?h s = Some s"
        using mn False set by (subst ngx_event_expire_timers.simps) (simp add: due_def)
      ultimately show ?thesis using less.prems by (auto simp: timers_kept_def)
    next
      case True
      obtain t where t: "ngx_rbtree_delete ev (ngx_event_timer_rbtree s) = Some t"
        "timer_inv (expired_state ev t s) evs'"
        "sentinel t = sentinel (ngx_event_timer_rbtree s)"
        "Collect (due (expired_state ev t s)) =
          Collect (due s) - {ev}" by (rule expired [OF inv True])
      define s1 where "s1 = expired_state ev t s"
      obtain s2 where s2: "?h ev s1 = Some s2" "timers_kept s1 s2"
        using run_ops_kept [OF t(2) [folded s1_def], of "ops ev s1"] ops t(3) less.prems(2) by (auto simp: s1_def)
      then have k: "timers_kept s s2" using t(3,4) by (auto simp: timers_kept_def s1_def)
      obtain evs2 where inv2: "timer_inv s2 evs2" "sentinel (ngx_event_timer_rbtree s2) = sent"
        using k less.prems(2) by (auto simp: timers_kept_def)
      have "Collect (due s2) \<subseteq> Collect (due s) - {ev}" using s2(2) t(4) by (auto simp: timers_kept_def s1_def)
      then have "card (Collect (due s2)) < card (Collect (due s))"
        using True fin by (intro psubset_card_mono) auto
      from less.hyps [OF this inv2] obtain s' where
        "ngx_event_expire_timers ?h s2 = Some s'" "timers_kept s2 s'" "Collect (due s') = {}" by blast
      moreover have "ngx_event_expire_timers ?h s = ngx_event_expire_timers ?h s2"
        using mn True t(1) s2(1) unfolding s1_def expired_state_def by (subst ngx_event_expire_timers.simps) (simp add: due_def)
      ultimately show ?thesis using timers_kept_trans [OF k] by auto
    qed
  qed
qed

section \<open>Properties\<close>

lemma init_timers: "timer_inv (ngx_event_timer_init sent s\<lparr>timer_set := \<lambda>_. False\<rparr>) []"
  by (simp add: timer_inv_def ngx_event_timer_init_def ordered_def rb_tree_empty ngx_rbtree_init_def ngx_rbt_black_def set_color_def)

lemma unat_positive: "0 \<le> sint w \<Longrightarrow> int (unat w) = sint w" for w :: ngx_msec_t
  using sint_unat_cases [of w] uint_lt2p [of w] by (simp split: if_splits)

lemma find_timer:
  assumes "timer_inv s (e # evs)"
  shows "\<exists>t. ngx_event_find_timer s = Some t \<and> int (unat t) = max 0 (sint (timer_key s e - ngx_current_msec s))"
proof -
  let ?d = "timer_key s e - ngx_current_msec s"
  have "ngx_event_find_timer s = Some (if 0 <s ?d then ?d else 0)"
    using timer_root [OF assms] by (simp add: ngx_event_find_timer_def Let_def)
  moreover have "int (unat (if 0 <s ?d then ?d else 0)) = max 0 (sint ?d)"
    using unat_positive [of ?d] by (auto simp: word_sless_alt)
  ultimately show ?thesis by blast
qed

text \<open>
  C18. The tree of timers holds exactly the events whose timer is set, in the order of their
  times, after every \<open>ngx_event_add_timer\<close> and \<open>ngx_event_del_timer\<close>. Both return, and touch no other
  timer; a timer that is set has the new time, or an old one less than \<open>NGX_TIMER_LAZY_DELAY\<close> away.
  \<open>ngx_event_find_timer\<close> returns the time until the first timer expires, or \<open>NGX_TIMER_INFINITE\<close>.
\<close>

theorem event_timers_kept:
  assumes "timer_inv s evs"
  shows "(timer_set s ev \<longrightarrow>
      (\<exists>s'. ngx_event_del_timer ev s = Some s' \<and> timer_inv s' (remove1 ev evs) \<and> \<not> timer_set s' ev \<and> other_timers ev s s')) \<and>
    (ev \<noteq> sentinel (ngx_event_timer_rbtree s) \<and> timer < 2 ^ 30 \<longrightarrow>
      (\<exists>s' evs'. ngx_event_add_timer ev timer s = Some s' \<and> timer_inv s' evs' \<and> timer_set s' ev \<and> other_timers ev s s' \<and>
        (timer_key s' ev = ngx_current_msec s + timer \<or>
         timer_set s ev \<and> timer_key s' ev = timer_key s ev \<and>
         ngx_abs (ngx_current_msec s + timer - timer_key s ev) <s NGX_TIMER_LAZY_DELAY))) \<and>
    (\<exists>t. ngx_event_find_timer s = Some t \<and>
      (if \<forall>e. \<not> timer_set s e then t = NGX_TIMER_INFINITE
       else (\<exists>e. timer_set s e \<and> int (unat t) = max 0 (sint (timer_key s e - ngx_current_msec s))) \<and>
         (\<forall>e. timer_set s e \<longrightarrow> int (unat t) \<le> max 0 (sint (timer_key s e - ngx_current_msec s)))))"
proof (intro conjI impI)
  show "\<exists>s'. ngx_event_del_timer ev s = Some s' \<and> timer_inv s' (remove1 ev evs) \<and> \<not> timer_set s' ev \<and> other_timers ev s s'"
    if "timer_set s ev" using del_timer [OF assms that] .
  show "\<exists>s' evs'. ngx_event_add_timer ev timer s = Some s' \<and> timer_inv s' evs' \<and> timer_set s' ev \<and> other_timers ev s s' \<and>
        (timer_key s' ev = ngx_current_msec s + timer \<or>
         timer_set s ev \<and> timer_key s' ev = timer_key s ev \<and>
         ngx_abs (ngx_current_msec s + timer - timer_key s ev) <s NGX_TIMER_LAZY_DELAY)"
    if "ev \<noteq> sentinel (ngx_event_timer_rbtree s) \<and> timer < 2 ^ 30" using add_timer [OF assms] that by blast
  have set: "set evs = {e. timer_set s e}" using assms by (simp add: timer_inv_def)
  show "\<exists>t. ngx_event_find_timer s = Some t \<and>
      (if \<forall>e. \<not> timer_set s e then t = NGX_TIMER_INFINITE
       else (\<exists>e. timer_set s e \<and> int (unat t) = max 0 (sint (timer_key s e - ngx_current_msec s))) \<and>
         (\<forall>e. timer_set s e \<longrightarrow> int (unat t) \<le> max 0 (sint (timer_key s e - ngx_current_msec s))))"
  proof (cases evs)
    case Nil
    then show ?thesis using timer_root(1) [OF assms] set by (simp add: ngx_event_find_timer_def Let_def)
  next
    case (Cons e evs')
    obtain t where t: "ngx_event_find_timer s = Some t" "int (unat t) = max 0 (sint (timer_key s e - ngx_current_msec s))"
      using find_timer assms Cons by blast
    have e: "timer_set s e" using set Cons by auto
    have "int (unat t) \<le> max 0 (sint (timer_key s x - ngx_current_msec s))" if "timer_set s x" for x
      using first_timer [of s e evs' x] assms Cons that unfolding t(2) by auto
    with t e show ?thesis by auto
  qed
qed

text \<open>Three timers: an expired one, one for the present and one to come.\<close>

definition some_timers :: ngx_timers where
  "some_timers =
    \<lparr>ngx_event_timer_rbtree = three_nodes, timer_set = (\<lambda>ev. ev = 2 \<or> ev = 3 \<or> ev = 4), timedout = (\<lambda>_. False), ngx_current_msec = 3\<rparr>"

lemma timer_inv_some_timers: "timer_inv some_timers [2, 3, 4]"
proof -
  have "list_all (near 3) [2, 3, 4]" "\<not> timer_before 3 2" "\<not> timer_before 4 2" "\<not> timer_before 4 3" by code_simp+
  then show ?thesis
    using rb_tree_three_nodes by (auto simp: timer_inv_def some_timers_def ordered_def three_nodes_def)
qed

theorem event_timers_kept_witness:
  "(\<exists>s'. ngx_event_del_timer 3 some_timers = Some s' \<and> timer_inv s' [2, 4]) \<and>
   (\<exists>s' evs'. ngx_event_add_timer 7 1000 some_timers = Some s' \<and> timer_inv s' evs' \<and> timer_set s' 7) \<and>
   (\<exists>t. ngx_event_find_timer some_timers = Some t)"
proof -
  have "timer_set some_timers 3" "7 \<noteq> sentinel (ngx_event_timer_rbtree some_timers) \<and> (1000 :: ngx_msec_t) < 2 ^ 30"
    by (simp_all add: some_timers_def three_nodes_def)
  then show ?thesis
    using event_timers_kept [OF timer_inv_some_timers, of 3 0] event_timers_kept [OF timer_inv_some_timers, of 7 1000] by auto
qed

text \<open>
  C4. \<open>ngx_event_expire_timers\<close> returns, whatever timers the handlers set (for a time to come) and
  delete, and then no timer is due: every timer that was due has been taken out of the tree, and
  is set only if a handler has set it for a later time. The tree is in order again.
\<close>

theorem event_timers_expire:
  assumes "timer_inv s evs" "\<forall>ev s'. \<forall>op\<in>set (ops ev s'). op_ok (sentinel (ngx_event_timer_rbtree s)) op"
  shows "\<exists>s' evs'. ngx_event_expire_timers (\<lambda>ev s. run_ops (ops ev s) s) s = Some s' \<and> timer_inv s' evs' \<and>
    ngx_current_msec s' = ngx_current_msec s \<and> (\<forall>ev. \<not> due s' ev)"
  using expire_timers [OF assms(2,1) refl] unfolding timers_kept_def by blast

theorem event_timers_expire_witness:
  "due some_timers 2 \<and> due some_timers 3 \<and>
   (\<exists>s' evs'. ngx_event_expire_timers (\<lambda>ev s. run_ops [Add_timer 7 1000, Del_timer 4] s) some_timers = Some s' \<and>
     timer_inv s' evs' \<and> (\<forall>ev. \<not> due s' ev))"
proof -
  have "due some_timers 2 \<and> due some_timers 3"
    by (simp add: due_def some_timers_def three_nodes_def word_sle_eq)
  moreover have "\<forall>op\<in>set [Add_timer 7 1000, Del_timer 4]. op_ok (sentinel (ngx_event_timer_rbtree some_timers)) op"
    by (simp add: some_timers_def three_nodes_def)
  ultimately show ?thesis
    using event_timers_expire [OF timer_inv_some_timers, of "\<lambda>ev s'. [Add_timer 7 1000, Del_timer 4]"] by metis
qed

end
