(* ===== verification/Spec2Isabelle.thy ===== *)
theory Spec2Isabelle
  imports Http_Request_Line Http_Header_Line Http_Status_Line Http_Chunked Http_Uri
    Upstream_Round_Robin Base64 Uri_Escape Utf8 Numbers Rbtree_Delete Event_Timer
begin

text \<open>
  A verification of programs of this repository. Its core is the web server under
  \<open>src/nginx-1.7.2\<close>; paths below are relative to \<open>src/nginx-1.7.2/src\<close>.

  \<^bold>\<open>The program.\<close> The server reads requests through an event loop, which waits for sockets and
  for timers. \<open>http/ngx_http_parse.c\<close> parses what has arrived so far, byte by byte, and saves its
  state when the bytes run out. \<open>http/ngx_http_request.c\<close> turns the parsed parts into a request,
  with a normalised URI and a table of headers. A request may be passed on to one of several
  upstream servers, whose status line and chunked body are parsed by the same file. Strings,
  numbers and trees come from \<open>core\<close>.

  \<^bold>\<open>The machine.\<close> The committed configuration (\<open>objs/ngx_auto_config.h\<close>) is a 32-bit, little-endian
  build without threads and without SSL. So \<open>ngx_int_t\<close>, \<open>ngx_uint_t\<close>, \<open>size_t\<close> and \<open>time_t\<close> are 32-bit
  words, \<open>off_t\<close> is a 64-bit word, and \<open>u_char\<close> an 8-bit word; arithmetic wraps around, and signed
  comparisons are those of two's complement. A pointer into a buffer is an offset into a memory of
  bytes; a pointer to a tree node is an address of a store.

  \<^bold>\<open>The theories\<close>, and what they show:

  \<^item> \<open>Prelude\<close>: types, ASCII codes, return codes, memory, little-endian loads, signed words.
    \<open>Scanner\<close>: the loop that all parsers share, as locales. A client proves that a step keeps an
    invariant, leaves other members alone, or can be interrupted; the locale lifts it to the loop.
    \<open>Digits\<close>: numerals and accumulator loops.

  \<^item> \<open>Http_Request\<close>: the members of \<open>ngx_http_request_t\<close> that the parsers use.

  \<^item> \<open>Http_Request_Line\<close>: \<open>ngx_http_parse_request_line\<close>, state by state, with the comparisons of
    method names on 32-bit loads. Well-formed request lines are accepted with their parts; the
    pointers left behind are ordered inside the buffer; an interrupted parse gives the same result;
    the version number wraps around.

  \<^item> \<open>Http_Header_Line\<close>: \<open>ngx_http_parse_header_line\<close>, the hash keys of \<open>core/ngx_hash.c\<close>, and the
    entry of the header table. The same kinds of theorem; the hash and the lower-case name of an
    entry are right, except after an invalid first byte.

  \<^item> \<open>Http_Status_Line\<close>: \<open>ngx_http_parse_status_line\<close>. The status code is a number of three digits.

  \<^item> \<open>Http_Chunked\<close>: \<open>ngx_http_parse_chunked\<close> and the filters of request bodies that use it. Every
    encoded body in a buffer is read back; a parse interrupted at the end of a buffer goes on as if
    it had not been; the limit on the size is kept; sizes below \<open>2 ^ 62\<close> are read exactly, and
    longer size lines can wrap around.

  \<^item> \<open>Http_Uri\<close>: \<open>ngx_http_parse_uri\<close>, \<open>ngx_http_parse_complex_uri\<close> and their caller. The result is
    that of a reference that unquotes and then normalises; no segment but the last is a dot or two
    dots; the copy never outgrows its buffer.

  \<^item> \<open>Upstream_Round_Robin\<close>: \<open>http/ngx_http_upstream_round_robin.c\<close>. While no request
    fails and no peer is down, the choice is fair according to the weights; a request is never given
    a peer of a group twice; the effective weights stay in their range. The resolver's answers are
    an argument, and the peers of a resolved name (\<open>ngx_http_upstream_create_round_robin_peer\<close>) are
    not modelled.

  \<^item> \<open>Base64\<close>, \<open>Uri_Escape\<close>, \<open>Utf8\<close>, \<open>Numbers\<close>: the conversions of \<open>core/ngx_string.c\<close> and the sizes of
    \<open>core/ngx_parse.c\<close>. Round trips, bounds on what is written, and what is read modulo the
    width of the type. The \<open>printf\<close> family is modelled only where it prints a number.

  \<^item> \<open>Rbtree\<close> and \<open>Rbtree_Delete\<close>: \<open>core/ngx_rbtree.c\<close> on a store with parent pointers and a shared
    sentinel. A store \<^emph>\<open>holds\<close> a tree of addresses; rotations and recolourings are lemmas about one
    position of the tree. The right-hand halves of the loops are the left-hand halves in a mirrored
    store, and so are their proofs. \<open>ngx_rbtree_insert\<close> and \<open>ngx_rbtree_delete\<close> implement insertion
    into and deletion from a list, and keep the balance. The locale \<open>rbtree_insert_pt\<close> is the
    contract of the insert function of a tree; it is interpreted by both functions of the file.

  \<^item> \<open>Event_Timer\<close>: \<open>event/ngx_event_timer.c\<close>, on top of the tree. The tree holds the timers that are
    set; \<open>ngx_event_expire_timers\<close> returns and leaves none that is due, for all handlers described below.

  \<^bold>\<open>Loops.\<close> Parsers and conversions recurse over the bytes that are left. The loops on trees and
  timers might run forever on a corrupt store; they are partial functions with \<^const>\<open>None\<close> for
  that, and the theorems state that they return. No fuel is used.

  \<^bold>\<open>Parameters.\<close> The insert function of a tree and the handlers of events are function pointers in
  the code and arguments in the model. A handler is a list of timer operations that may depend on
  the state: timers set at least one and less than \<open>2 ^ 30\<close> milliseconds ahead, and deletions of
  timers that are set.

  \<^bold>\<open>Bounds.\<close> Timers are compared modulo \<open>2 ^ 32\<close>; the theorems ask that those in the tree lie within
  \<open>2 ^ 30\<close> milliseconds, about twelve days, of the clock.

  \<^bold>\<open>Not modelled.\<close>

  \<^item> I/O and system calls: the event modules, the operating system layer, connections, files, logs,
    processes, and the handlers of requests, upstream connections and mail sessions, which are
    driven by them.

  \<^item> Allocation, and so the branches for an allocation that fails.

  \<^item> The modules around libraries that are not in the repository: zlib, OpenSSL, PCRE, libxslt, GD,
    GeoIP, Perl.

  \<^item> Parts of the server that are computations and could be modelled in the same way, but are not:
    the hash tables (only their keys are here), the radix tree, queues, lists and arrays, pools and
    slabs, checksums, network addresses, dates and times, the packets of the resolver, the
    configuration reader, the script engine and variables, the other balancers, the limits on
    requests and connections, SPDY frames, and the commands of the mail protocols.

  \<^item> The rest of the repository: the textbook programs of \<open>src/apue\<close>, the exercises of
    \<open>src/linux_pro\<close>, \<open>src/c_programming\<close> and \<open>src/shell\<close>, the game \<open>src/2048.c\<close> with its copies in
    \<open>src/gdb_test\<close>, and the servers of \<open>src/webserver\<close>. They are mostly calls of the system; the
    board of the game and the database of \<open>src/apue/db\<close> are computations that are left out.
\<close>

end
